(* ===== verification/Prelude.thy ===== *)
theory Prelude
  imports Main "HOL-Library.Word" "HOL-Library.Multiset"
begin

text \<open>
  What every component shares: the machine types of the sources, results as sums, the decimal
  rendering of \<open>std::to_string\<close>, and the two operations on a byte array that the receive path
  is made of: reading a window \<open>[b, e)\<close> of it and overwriting part of it.
\<close>

section \<open>Types\<close>

type_synonym byte = "8 word"
type_synonym u16 = "16 word"
type_synonym u32 = "32 word"
type_synonym u64 = "64 word"
type_synonym size_t = "64 word"

text \<open>
  Collections of rewrite rules: \<open>heap_simps\<close> for the heap primitives, \<open>chain_simps\<close> for the
  block chain, \<open>conn_defs\<close> for the operations of the connections.
\<close>

named_theorems heap_simps \<open>rewrite rules of the block heap\<close>
named_theorems chain_simps \<open>rewrite rules of the block chain\<close>
named_theorems conn_defs \<open>definitions of the connection operations\<close>

section \<open>Decimal numbers (std::to_string of an unsigned value)\<close>

definition digit_char :: "nat \<Rightarrow> char" where
  "digit_char d = ''0123456789'' ! d"

fun to_string :: "nat \<Rightarrow> string" where
  "to_string n = (if n < 10 then [digit_char n] else to_string (n div 10) @ [digit_char (n mod 10)])"

declare to_string.simps [simp del]

lemma to_string_nonempty [simp]: "to_string n \<noteq> []"
  by (subst to_string.simps) simp

section \<open>Windows of a byte array\<close>

definition slice :: "nat \<Rightarrow> nat \<Rightarrow> 'a list \<Rightarrow> 'a list" where
  "slice b e xs = take (e - b) (drop b xs)"

definition overwrite :: "nat \<Rightarrow> 'a list \<Rightarrow> 'a list \<Rightarrow> 'a list" where
  "overwrite p new xs = take p xs @ new @ drop (p + length new) xs"

lemma length_slice: "b \<le> e \<Longrightarrow> e \<le> length xs \<Longrightarrow> length (slice b e xs) = e - b"
  by (simp add: slice_def)

lemma slice_same [simp]: "slice b b xs = []"
  by (simp add: slice_def)

lemma slice_empty_iff: "b \<le> e \<Longrightarrow> e \<le> length xs \<Longrightarrow> slice b e xs = [] \<longleftrightarrow> b = e"
  by (auto simp: slice_def)

lemma slice_append: "b \<le> m \<Longrightarrow> m \<le> e \<Longrightarrow> slice b m xs @ slice m e xs = slice b e xs"
proof -
  assume le: "b \<le> m" "m \<le> e"
  have "take (e - b) (drop b xs) = take (m - b + (e - m)) (drop b xs)"
    using le by simp
  also have "\<dots> = take (m - b) (drop b xs) @ take (e - m) (drop (m - b) (drop b xs))"
    by (rule take_add)
  also have "drop (m - b) (drop b xs) = drop m xs"
    using le by simp
  finally show ?thesis by (simp add: slice_def)
qed

lemma drop_slice: "drop n (slice b e xs) = slice (b + n) e xs"
  by (simp add: slice_def drop_take add.commute)

lemma take_slice: "b + n \<le> e \<Longrightarrow> take n (slice b e xs) = slice b (b + n) xs"
  by (simp add: slice_def min_def)

lemma slice_slice: "b + j \<le> e \<Longrightarrow> slice i j (slice b e xs) = slice (b + i) (b + j) xs"
  by (simp add: slice_def drop_take min_def add.commute)

lemma slice_full [simp]: "slice 0 (length xs) xs = xs"
  by (simp add: slice_def)

lemma length_overwrite [simp]:
  "p + length new \<le> length xs \<Longrightarrow> length (overwrite p new xs) = length xs"
  by (simp add: overwrite_def)

lemma overwrite_Nil [simp]: "overwrite p [] xs = xs"
  by (simp add: overwrite_def)

lemma slice_overwrite_before:
  "e \<le> p \<Longrightarrow> p \<le> length xs \<Longrightarrow> slice b e (overwrite p new xs) = slice b e xs"
  by (cases "b \<le> e") (simp_all add: slice_def overwrite_def drop_take min_def)

lemma slice_overwrite_same:
  "p \<le> length xs \<Longrightarrow> slice p (p + length new) (overwrite p new xs) = new"
  by (simp add: slice_def overwrite_def)

lemma overwrite_append:
  "length pre = p \<Longrightarrow> overwrite p new (pre @ rest) = pre @ new @ drop (length new) rest"
  by (simp add: overwrite_def)

section \<open>Lists updated at one position\<close>

lemma drop_update_before: "i < n \<Longrightarrow> drop n (xs[i := x]) = drop n xs"
  by simp

lemma take_drop_update:
  "h + n < length xs \<Longrightarrow> take (Suc n) (drop h (xs[h + n := x])) = take n (drop h xs) @ [x]"
  by (simp add: take_Suc_conv_app_nth drop_update_swap)

lemma take_drop_nth:
  "h + n < length xs \<Longrightarrow> take (Suc n) (drop h xs) = take n (drop h xs) @ [xs ! (h + n)]"
  by (simp add: take_Suc_conv_app_nth)

lemma take_drop_Cons:
  "h < length xs \<Longrightarrow> take (Suc n) (drop h xs) = xs ! h # take n (drop (Suc h) xs)"
  by (metis Cons_nth_drop_Suc take_Suc_Cons)

lemma sum_list_take_drop: "sum_list (take n xs) + sum_list (drop n xs) = sum_list (xs :: nat list)"
  by (metis append_take_drop_id sum_list_append)

end
