(* ===== verification/Errors.thy ===== *)
theory Errors
  imports Prelude
begin

text \<open>
  The errors of the library (\<open>TAPSError\<close>, \<open>ErrorEvent\<close>, \<open>ErrorReason\<close> of taps_api.h) and the
  classification of an I/O error code (transport/io_error.h, transport/byte_stream.cpp).

  A \<open>std::error_code\<close> is the pair of what it compares equal to and the text its category gives
  for it; the codes the sources name are constructors, any other code is \<open>EC_other\<close>. "No error"
  (an error code that converts to false) is \<open>None\<close> where an operation reports one.
\<close>

section \<open>Events, reasons, errors\<close>

datatype ErrorEvent = ESTABLISHMENT_ERROR | SEND_ERROR | RECEIVE_ERROR | CONNECTION_ERROR

datatype ErrorReason =
    INVALID_CONFIGURATION | NO_CANDIDATES | RESOLUTION_FAILED | ESTABLISHMENT_FAILED
  | POLICY_PROHIBITED | MESSAGE_TOO_LARGE | PROTOCOL_FAILED | DEFRAMING_FAILED
  | CONNECTION_ABORTED | TIMEOUT | LOCAL_ABORT | LOCAL_ENDPOINT_UNAVAILABLE
  | INVALID_STATE | RESOURCE_EXHAUSTED | IDLE_TIMEOUT | INTERNAL_ERROR

record TAPSError =
  err_event :: ErrorEvent
  err_reason :: ErrorReason
  err_message :: string

definition taps_error :: "ErrorEvent \<Rightarrow> ErrorReason \<Rightarrow> string \<Rightarrow> TAPSError" where
  "taps_error ev re msg = \<lparr>err_event = ev, err_reason = re, err_message = msg\<rparr>"

lemma taps_error_sel [simp]:
  "err_event (taps_error ev re msg) = ev"
  "err_reason (taps_error ev re msg) = re"
  "err_message (taps_error ev re msg) = msg"
  by (simp_all add: taps_error_def)

type_synonym 'a result = "TAPSError + 'a"

text \<open>The states of a connection (taps_api.h).\<close>

datatype ConnectionState = ESTABLISHING | ESTABLISHED | CLOSING | CLOSED

text \<open>Their order is the one in which a connection goes through them; it may skip some and ends in CLOSED.\<close>

primrec stage :: "ConnectionState \<Rightarrow> nat" where
  "stage ESTABLISHING = 0"
| "stage ESTABLISHED = 1"
| "stage CLOSING = 2"
| "stage CLOSED = 3"

instantiation ConnectionState :: "{linorder, order_top}"
begin

definition less_eq_ConnectionState :: "ConnectionState \<Rightarrow> ConnectionState \<Rightarrow> bool" where
  "s \<le> t \<longleftrightarrow> stage s \<le> stage t"

definition less_ConnectionState :: "ConnectionState \<Rightarrow> ConnectionState \<Rightarrow> bool" where
  "s < t \<longleftrightarrow> stage s < stage t"

definition top_ConnectionState :: ConnectionState where
  "top = CLOSED"

instance
proof
  show "s = t" if "s \<le> t" "t \<le> s" for s t :: ConnectionState
    using that by (cases s; cases t) (simp_all add: less_eq_ConnectionState_def)
  show "s \<le> top" for s :: ConnectionState
    by (cases s) (simp_all add: less_eq_ConnectionState_def top_ConnectionState_def)
qed (auto simp: less_eq_ConnectionState_def less_ConnectionState_def)

end

lemma state_order [simp]:
  "s \<le> CLOSED" "CLOSED \<le> s \<longleftrightarrow> s = CLOSED" "ESTABLISHING \<le> s" "ESTABLISHED \<le> s \<longleftrightarrow> s \<noteq> ESTABLISHING"
  "CLOSING \<le> s \<longleftrightarrow> s = CLOSING \<or> s = CLOSED" "s \<le> CLOSING \<longleftrightarrow> s \<noteq> CLOSED"
  by (cases s; simp add: less_eq_ConnectionState_def)+

section \<open>Error codes\<close>

datatype ec_value =
    EC_eof | EC_connection_reset | EC_connection_aborted | EC_broken_pipe | EC_timed_out
  | EC_operation_aborted | EC_message_size | EC_address_in_use | EC_access_denied
  | EC_no_descriptors | EC_no_buffer_space | EC_no_memory | EC_stream_truncated
  | EC_channel_closed | EC_channel_cancelled | EC_data_after_close_notify | EC_other nat

record error_code =
  ec_value :: ec_value
  ec_message :: string

text \<open>\<open>reason_from\<close> and \<open>io_error\<close> of io_error.h, branch by branch.\<close>

definition reason_from :: "error_code \<Rightarrow> ErrorReason" where
  "reason_from ec =
    (if ec_value ec = EC_connection_reset \<or> ec_value ec = EC_connection_aborted \<or>
        ec_value ec = EC_broken_pipe then CONNECTION_ABORTED
     else if ec_value ec = EC_timed_out then TIMEOUT
     else if ec_value ec = EC_operation_aborted then LOCAL_ABORT
     else if ec_value ec = EC_message_size then MESSAGE_TOO_LARGE
     else if ec_value ec = EC_address_in_use then LOCAL_ENDPOINT_UNAVAILABLE
     else if ec_value ec = EC_access_denied then POLICY_PROHIBITED
     else if ec_value ec = EC_no_descriptors \<or> ec_value ec = EC_no_buffer_space \<or>
             ec_value ec = EC_no_memory then RESOURCE_EXHAUSTED
     else PROTOCOL_FAILED)"

definition io_error :: "ErrorEvent \<Rightarrow> error_code \<Rightarrow> TAPSError" where
  "io_error ev ec = taps_error ev (reason_from ec) (ec_message ec)"

text \<open>
  \<open>read_failure\<close> of byte_stream.cpp. The flag is the build option TAPS_WITH_TLS: without it the
  comparison with \<open>stream_truncated\<close> is not compiled.
\<close>

definition read_failure :: "bool \<Rightarrow> error_code \<Rightarrow> TAPSError" where
  "read_failure with_tls ec =
    (if with_tls \<and> ec_value ec = EC_stream_truncated
     then taps_error RECEIVE_ERROR PROTOCOL_FAILED
            ''TLS stream truncated: peer closed without close_notify''
     else io_error CONNECTION_ERROR ec)"

lemma io_error_sel [simp]:
  "err_event (io_error ev ec) = ev" "err_reason (io_error ev ec) = reason_from ec"
  by (simp_all add: io_error_def)

text \<open>The only code that means "cancelled here" is the one the library reports as a local abort.\<close>

lemma reason_from_local_abort: "reason_from ec = LOCAL_ABORT \<longleftrightarrow> ec_value ec = EC_operation_aborted"
  by (cases "ec_value ec") (simp_all add: reason_from_def)

lemma read_failure_event:
  "err_event (read_failure t ec) = RECEIVE_ERROR \<longleftrightarrow> t \<and> ec_value ec = EC_stream_truncated"
  by (simp add: read_failure_def)

lemma read_failure_event_cases:
  "err_event (read_failure t ec) = RECEIVE_ERROR \<or> err_event (read_failure t ec) = CONNECTION_ERROR"
  by (simp add: read_failure_def)

lemma read_failure_local_abort:
  "err_reason (read_failure t ec) = LOCAL_ABORT \<longleftrightarrow> ec_value ec = EC_operation_aborted"
  by (auto simp: read_failure_def reason_from_local_abort)

end
