(* ===== verification/Blocks.thy ===== *)
theory Blocks
  imports Prelude
begin

text \<open>
  Received message data lives in reference-counted blocks (buffer/block.h) that a pool obtains
  from a memory resource (buffer/message_block_pool.h and .cpp). The heap below is the part of the
  program's memory these operations touch: the blocks that exist, by address; the shared live-block
  counters; and the ledger of what has been allocated from the memory resources and not yet given
  back. A \<open>std::pmr::memory_resource\<close> may refuse any request: \<open>h_grants\<close> holds the answers it
  gives, one per request (requests after the list succeed). The bytes of a fresh allocation are
  indeterminate: byte \<open>i\<close> is \<open>h_junk i\<close>.

  The heap is total; using a block that does not exist, or returning memory that was not allocated,
  sets \<open>h_fault\<close>, which nothing clears. The invariant \<open>heap_inv\<close> says in particular that no such
  thing has happened.

  The atomic counters are read and written one operation at a time, as the sequential program does.
\<close>

section \<open>The heap\<close>

datatype alloc_unit =
    Payload_Alloc nat nat   \<comment> \<open>resource, bytes: a block's storage\<close>
  | Header_Alloc nat        \<comment> \<open>a DataBlock object\<close>
  | Counter_Alloc nat       \<comment> \<open>a shared live-block counter\<close>
  | Entries_Alloc nat nat   \<comment> \<open>resource, entries: a chain's entry storage beyond the inline one\<close>
  | Chain_Alloc nat         \<comment> \<open>a BlockChain object held by a Message\<close>
  | Gather_Alloc nat nat    \<comment> \<open>resource, bytes: a Message's contiguous copy\<close>
  | Ring_Alloc nat nat      \<comment> \<open>resource, slots: a Mailbox's ring\<close>

record data_block =
  db_resource :: nat
  db_storage :: "byte list"
  db_refcount :: u32
  db_live :: "nat option"

record heap =
  h_blocks :: "nat \<Rightarrow> data_block option"
  h_next :: nat
  h_live :: "nat \<Rightarrow> nat"
  h_out :: "alloc_unit multiset"
  h_grants :: "bool list"
  h_junk :: "nat \<Rightarrow> byte"
  h_fault :: bool

definition empty_heap :: "(nat \<Rightarrow> byte) \<Rightarrow> bool list \<Rightarrow> heap" where
  "empty_heap junk grants =
    \<lparr>h_blocks = (\<lambda>_. None), h_next = 0, h_live = (\<lambda>_. 0), h_out = {#}, h_grants = grants,
     h_junk = junk, h_fault = False\<rparr>"

definition db_capacity :: "data_block \<Rightarrow> nat" where
  "db_capacity d = length (db_storage d)"

text \<open>\<open>memory_resource::allocate\<close> (which may throw: \<open>False\<close>) and \<open>deallocate\<close>.\<close>

fun res_allocate :: "alloc_unit \<Rightarrow> heap \<Rightarrow> bool \<times> heap" where
  "res_allocate u h =
    (case h_grants h of
       [] \<Rightarrow> (True, h\<lparr>h_out := add_mset u (h_out h)\<rparr>)
     | True # gs \<Rightarrow> (True, h\<lparr>h_out := add_mset u (h_out h), h_grants := gs\<rparr>)
     | False # gs \<Rightarrow> (False, h\<lparr>h_grants := gs\<rparr>))"

definition res_deallocate :: "alloc_unit \<Rightarrow> heap \<Rightarrow> heap" where
  "res_deallocate u h = h\<lparr>h_out := h_out h - {#u#}, h_fault := h_fault h \<or> u \<notin># h_out h\<rparr>"

section \<open>DataBlock\<close>

text \<open>
  \<open>DataBlock::create\<close>: the storage first, then the header; when the header cannot be allocated
  the storage is returned and the exception propagates (\<open>None\<close>). The reference count starts at 0.
\<close>

definition create_block :: "nat \<Rightarrow> nat \<Rightarrow> nat option \<Rightarrow> heap \<Rightarrow> nat option \<times> heap" where
  "create_block res cap live h =
    (case res_allocate (Payload_Alloc res cap) h of
       (False, h1) \<Rightarrow> (None, h1)
     | (True, h1) \<Rightarrow>
         (case res_allocate (Header_Alloc res) h1 of
            (False, h2) \<Rightarrow> (None, res_deallocate (Payload_Alloc res cap) h2)
          | (True, h2) \<Rightarrow>
              (let b = h_next h2;
                   d = \<lparr>db_resource = res, db_storage = map (h_junk h2) [0..<cap],
                        db_refcount = 0, db_live = live\<rparr>
               in (Some b, h2\<lparr>h_blocks := (h_blocks h2)(b \<mapsto> d), h_next := Suc b\<rparr>))))"

definition add_ref :: "nat \<Rightarrow> heap \<Rightarrow> heap" where
  "add_ref b h =
    (case h_blocks h b of
       None \<Rightarrow> h\<lparr>h_fault := True\<rparr>
     | Some d \<Rightarrow> h\<lparr>h_blocks := (h_blocks h)(b \<mapsto> d\<lparr>db_refcount := db_refcount d + 1\<rparr>)\<rparr>)"

text \<open>\<open>DataBlock::destroy\<close>: the shared counter, then the two allocations.\<close>

definition destroy_block :: "nat \<Rightarrow> data_block \<Rightarrow> heap \<Rightarrow> heap" where
  "destroy_block b d h =
    (let h1 = (case db_live d of None \<Rightarrow> h | Some k \<Rightarrow> h\<lparr>h_live := (h_live h)(k := h_live h k - 1)\<rparr>);
         h2 = res_deallocate (Payload_Alloc (db_resource d) (db_capacity d))
                (h1\<lparr>h_blocks := (h_blocks h1)(b := None)\<rparr>)
     in res_deallocate (Header_Alloc (db_resource d)) h2)"

definition release :: "nat \<Rightarrow> heap \<Rightarrow> heap" where
  "release b h =
    (case h_blocks h b of
       None \<Rightarrow> h\<lparr>h_fault := True\<rparr>
     | Some d \<Rightarrow>
         if db_refcount d = 1
         then destroy_block b (d\<lparr>db_refcount := 0\<rparr>) h
         else h\<lparr>h_blocks := (h_blocks h)(b \<mapsto> d\<lparr>db_refcount := db_refcount d - 1\<rparr>)\<rparr>)"

definition use_count :: "nat \<Rightarrow> heap \<Rightarrow> u32" where
  "use_count b h = (case h_blocks h b of None \<Rightarrow> 0 | Some d \<Rightarrow> db_refcount d)"

text \<open>What a read of the socket does to a block: \<open>bytes\<close> stored from offset \<open>p\<close> on.\<close>

definition fill_block :: "nat \<Rightarrow> nat \<Rightarrow> byte list \<Rightarrow> heap \<Rightarrow> heap" where
  "fill_block b p bytes h =
    (case h_blocks h b of
       None \<Rightarrow> h\<lparr>h_fault := True\<rparr>
     | Some d \<Rightarrow>
         if p + length bytes \<le> db_capacity d
         then h\<lparr>h_blocks := (h_blocks h)(b \<mapsto> d\<lparr>db_storage := overwrite p bytes (db_storage d)\<rparr>)\<rparr>
         else h\<lparr>h_fault := True\<rparr>)"

section \<open>BlockRef\<close>

text \<open>
  A counted handle with the window \<open>[begin, end)\<close>. A moved-from handle keeps its offsets and
  loses its block, as \<open>std::exchange\<close> leaves it.
\<close>

record block_ref =
  br_blk :: "nat option"
  br_begin :: nat
  br_end :: nat

definition ref_null :: block_ref where
  "ref_null = \<lparr>br_blk = None, br_begin = 0, br_end = 0\<rparr>"

definition ref_make :: "nat \<Rightarrow> nat \<Rightarrow> nat \<Rightarrow> heap \<Rightarrow> block_ref \<times> heap" where
  "ref_make b i j h = (\<lparr>br_blk = Some b, br_begin = i, br_end = j\<rparr>, add_ref b h)"

definition ref_copy :: "block_ref \<Rightarrow> heap \<Rightarrow> block_ref \<times> heap" where
  "ref_copy r h = (r, case br_blk r of None \<Rightarrow> h | Some b \<Rightarrow> add_ref b h)"

definition ref_moved :: "block_ref \<Rightarrow> block_ref" where
  "ref_moved r = r\<lparr>br_blk := None\<rparr>"

text \<open>The destructor, and \<open>reset()\<close>, which also clears the offsets.\<close>

definition ref_drop :: "block_ref \<Rightarrow> heap \<Rightarrow> heap" where
  "ref_drop r h = (case br_blk r of None \<Rightarrow> h | Some b \<Rightarrow> release b h)"

definition ref_reset :: "block_ref \<Rightarrow> heap \<Rightarrow> block_ref \<times> heap" where
  "ref_reset r h = (ref_null, ref_drop r h)"

text \<open>Copy assignment between two distinct handles: the source is counted before the
  destination lets go, so assigning a handle to the same block never drops it to zero.\<close>

definition ref_assign_copy :: "block_ref \<Rightarrow> block_ref \<Rightarrow> heap \<Rightarrow> block_ref \<times> heap" where
  "ref_assign_copy dst src h =
    (let h1 = (case br_blk src of None \<Rightarrow> h | Some b \<Rightarrow> add_ref b h) in (src, ref_drop dst h1))"

text \<open>Move assignment between two distinct handles: new destination, what is left, heap.\<close>

definition ref_assign_move :: "block_ref \<Rightarrow> block_ref \<Rightarrow> heap \<Rightarrow> block_ref \<times> block_ref \<times> heap" where
  "ref_assign_move dst src h = (src, ref_moved src, ref_drop dst h)"

definition ref_valid :: "block_ref \<Rightarrow> bool" where
  "ref_valid r = (br_blk r \<noteq> None)"

definition ref_size :: "block_ref \<Rightarrow> nat" where
  "ref_size r = br_end r - br_begin r"

definition ref_empty :: "block_ref \<Rightarrow> bool" where
  "ref_empty r = (br_begin r = br_end r)"

definition set_range :: "nat \<Rightarrow> nat \<Rightarrow> block_ref \<Rightarrow> block_ref" where
  "set_range i j r = r\<lparr>br_begin := i, br_end := j\<rparr>"

definition advance_begin :: "nat \<Rightarrow> block_ref \<Rightarrow> block_ref" where
  "advance_begin n r = r\<lparr>br_begin := br_begin r + n\<rparr>"

definition block_data :: "heap \<Rightarrow> nat \<Rightarrow> byte list" where
  "block_data h b = (case h_blocks h b of None \<Rightarrow> [] | Some d \<Rightarrow> db_storage d)"

definition ref_bytes :: "heap \<Rightarrow> block_ref \<Rightarrow> byte list" where
  "ref_bytes h r =
    (case br_blk r of None \<Rightarrow> [] | Some b \<Rightarrow> slice (br_begin r) (br_end r) (block_data h b))"

definition capacity_after_begin :: "heap \<Rightarrow> block_ref \<Rightarrow> nat" where
  "capacity_after_begin h r =
    (case br_blk r of None \<Rightarrow> 0 | Some b \<Rightarrow> length (block_data h b) - br_begin r)"

section \<open>MessageBlockPool\<close>

record memory_config =
  cfg_resource :: "nat option"
  cfg_block_size :: nat
  cfg_max_live_blocks :: nat

text \<open>The process-wide default resource has the number 0.\<close>

definition default_message_resource :: nat where
  "default_message_resource = 0"

definition default_memory_config :: memory_config where
  "default_memory_config = \<lparr>cfg_resource = None, cfg_block_size = 64 * 1024, cfg_max_live_blocks = 0\<rparr>"

record pool =
  pool_resource :: nat
  pool_block_size :: nat
  pool_max_live :: nat
  pool_live :: "nat option"

text \<open>The constructor allocates the shared counter only when there is a cap.\<close>

definition make_pool :: "memory_config \<Rightarrow> heap \<Rightarrow> pool option \<times> heap" where
  "make_pool cfg h =
    (let res = (case cfg_resource cfg of None \<Rightarrow> default_message_resource | Some r \<Rightarrow> r);
         p = \<lparr>pool_resource = res, pool_block_size = cfg_block_size cfg,
              pool_max_live = cfg_max_live_blocks cfg, pool_live = None\<rparr>
     in if cfg_max_live_blocks cfg = 0 then (Some p, h)
        else (case res_allocate (Counter_Alloc res) h of
                (False, h1) \<Rightarrow> (None, h1)
              | (True, h1) \<Rightarrow>
                  (Some (p\<lparr>pool_live := Some (h_next h1)\<rparr>),
                   h1\<lparr>h_live := (h_live h1)(h_next h1 := 0), h_next := Suc (h_next h1)\<rparr>)))"

text \<open>
  \<open>acquire()\<close>: a slot is reserved in the counter first and given back when the cap was already
  reached (an invalid handle) or when the block cannot be created (the exception propagates: \<open>None\<close>).
\<close>

definition acquire :: "pool \<Rightarrow> heap \<Rightarrow> block_ref option \<times> heap" where
  "acquire p h =
    (case pool_live p of
       None \<Rightarrow>
         (case create_block (pool_resource p) (pool_block_size p) None h of
            (None, h1) \<Rightarrow> (None, h1)
          | (Some b, h1) \<Rightarrow> (case ref_make b 0 0 h1 of (r, h2) \<Rightarrow> (Some r, h2)))
     | Some k \<Rightarrow>
         (let old = h_live h k; h1 = h\<lparr>h_live := (h_live h)(k := old + 1)\<rparr>
          in if old \<ge> pool_max_live p
             then (Some ref_null, h1\<lparr>h_live := (h_live h1)(k := h_live h1 k - 1)\<rparr>)
             else (case create_block (pool_resource p) (pool_block_size p) (Some k) h1 of
                     (None, h2) \<Rightarrow> (None, h2\<lparr>h_live := (h_live h2)(k := h_live h2 k - 1)\<rparr>)
                   | (Some b, h2) \<Rightarrow> (case ref_make b 0 0 h2 of (r, h3) \<Rightarrow> (Some r, h3)))))"

definition live_blocks :: "pool \<Rightarrow> heap \<Rightarrow> nat" where
  "live_blocks p h = (case pool_live p of None \<Rightarrow> 0 | Some k \<Rightarrow> h_live h k)"

definition at_capacity :: "pool \<Rightarrow> heap \<Rightarrow> bool" where
  "at_capacity p h = (case pool_live p of None \<Rightarrow> False | Some k \<Rightarrow> h_live h k \<ge> pool_max_live p)"

section \<open>The heap invariant\<close>

text \<open>
  \<open>R\<close> is the multiset of the handles that exist in the program (in chains, messages and local
  variables), \<open>X\<close> the allocations owned by something other than a block. Every block's reference
  count is the number of handles on it, and there is one; every handle's window lies in its block;
  the shared counters count the live blocks; the ledger is exactly the blocks' allocations and \<open>X\<close>.
\<close>

definition refs_to :: "nat \<Rightarrow> block_ref multiset \<Rightarrow> nat" where
  "refs_to b R = size {#r \<in># R. br_blk r = Some b#}"

definition units_of :: "data_block \<Rightarrow> alloc_unit multiset" where
  "units_of d = {#Payload_Alloc (db_resource d) (db_capacity d), Header_Alloc (db_resource d)#}"

definition block_units :: "(nat \<Rightarrow> data_block option) \<Rightarrow> alloc_unit multiset" where
  "block_units m = (\<Sum>b\<in>dom m. units_of (the (m b)))"

definition counted_blocks :: "(nat \<Rightarrow> data_block option) \<Rightarrow> nat \<Rightarrow> nat set" where
  "counted_blocks m k = {b. \<exists>d. m b = Some d \<and> db_live d = Some k}"

definition counts_ok :: "(nat \<Rightarrow> data_block option) \<Rightarrow> block_ref multiset \<Rightarrow> bool" where
  "counts_ok m R \<longleftrightarrow>
    (\<forall>b. case m b of None \<Rightarrow> refs_to b R = 0
                   | Some d \<Rightarrow> unat (db_refcount d) = refs_to b R \<and> 0 < refs_to b R)"

definition window_ok :: "(nat \<Rightarrow> data_block option) \<Rightarrow> block_ref \<Rightarrow> bool" where
  "window_ok m r \<longleftrightarrow>
    (\<forall>b d. br_blk r = Some b \<longrightarrow> m b = Some d \<longrightarrow>
       br_begin r \<le> br_end r \<and> br_end r \<le> db_capacity d)"

definition heap_inv :: "heap \<Rightarrow> block_ref multiset \<Rightarrow> alloc_unit multiset \<Rightarrow> bool" where
  "heap_inv h R X \<longleftrightarrow>
    \<not> h_fault h \<and> finite (dom (h_blocks h)) \<and>
    (\<forall>b\<in>dom (h_blocks h). b < h_next h) \<and>
    (\<forall>b d k. h_blocks h b = Some d \<longrightarrow> db_live d = Some k \<longrightarrow> k < h_next h) \<and>
    counts_ok (h_blocks h) R \<and>
    (\<forall>r\<in>#R. window_ok (h_blocks h) r) \<and>
    (\<forall>k. h_live h k = card (counted_blocks (h_blocks h) k)) \<and>
    h_out h = block_units (h_blocks h) + X"

text \<open>Two heaps agree on the bytes of every block that one of the handles \<open>R\<close> refers to.\<close>

definition keeps :: "block_ref multiset \<Rightarrow> heap \<Rightarrow> heap \<Rightarrow> bool" where
  "keeps R h h' \<longleftrightarrow>
    (\<forall>r\<in>#R. \<forall>b. br_blk r = Some b \<longrightarrow> block_data h' b = block_data h b)"

lemma keeps_refl [simp]: "keeps R h h"
  by (simp add: keeps_def)

lemma keeps_trans: "keeps R h h1 \<Longrightarrow> keeps R h1 h2 \<Longrightarrow> keeps R h h2"
  by (auto simp: keeps_def)

lemma keeps_mono: "keeps R h h' \<Longrightarrow> S \<subseteq># R \<Longrightarrow> keeps S h h'"
  by (auto simp: keeps_def dest: mset_subset_eqD)

lemma keeps_add_mset [simp]:
  "keeps (add_mset r R) h h' \<longleftrightarrow>
    (\<forall>b. br_blk r = Some b \<longrightarrow> block_data h' b = block_data h b) \<and> keeps R h h'"
  by (auto simp: keeps_def)

lemma keeps_union [simp]: "keeps (R + S) h h' \<longleftrightarrow> keeps R h h' \<and> keeps S h h'"
  by (auto simp: keeps_def)

lemma keeps_empty [simp]: "keeps {#} h h'"
  by (simp add: keeps_def)

lemma keeps_ref_bytes: "keeps R h h' \<Longrightarrow> r \<in># R \<Longrightarrow> ref_bytes h' r = ref_bytes h r"
  by (auto simp: keeps_def ref_bytes_def split: option.splits)

lemma keeps_ref_bytes_blk:
  "keeps R h h' \<Longrightarrow> r \<in># R \<Longrightarrow> br_blk r' = br_blk r \<Longrightarrow> ref_bytes h' r' = ref_bytes h r'"
  by (auto simp: keeps_def ref_bytes_def split: option.splits)

subsection \<open>Counting handles\<close>

lemma refs_to_empty [simp]: "refs_to b {#} = 0"
  by (simp add: refs_to_def)

lemma refs_to_add_mset [simp]:
  "refs_to b (add_mset r R) = (if br_blk r = Some b then Suc (refs_to b R) else refs_to b R)"
  by (simp add: refs_to_def)

lemma refs_to_union [simp]: "refs_to b (R + S) = refs_to b R + refs_to b S"
  by (simp add: refs_to_def)

lemma refs_to_le_size: "refs_to b R \<le> size R"
  by (simp add: refs_to_def size_filter_mset_lesseq)

lemma refs_to_pos: "r \<in># R \<Longrightarrow> br_blk r = Some b \<Longrightarrow> 0 < refs_to b R"
  by (auto simp: refs_to_def nonempty_has_size [symmetric])

lemma counts_okD:
  "counts_ok m R \<Longrightarrow> m b = None \<Longrightarrow> refs_to b R = 0"
  "counts_ok m R \<Longrightarrow> m b = Some d \<Longrightarrow> unat (db_refcount d) = refs_to b R \<and> 0 < refs_to b R"
  unfolding counts_ok_def by (force dest: spec [of _ b])+

lemma heap_inv_alive:
  assumes "heap_inv h R X" and "r \<in># R" and "br_blk r = Some b"
  obtains d where "h_blocks h b = Some d" and "unat (db_refcount d) = refs_to b R"
    and "br_begin r \<le> br_end r" and "br_end r \<le> db_capacity d"
proof -
  have pos: "0 < refs_to b R" using assms(2,3) by (rule refs_to_pos)
  have "case h_blocks h b of None \<Rightarrow> refs_to b R = 0
          | Some d \<Rightarrow> unat (db_refcount d) = refs_to b R \<and> 0 < refs_to b R"
    using assms(1) unfolding heap_inv_def counts_ok_def by blast
  then obtain d where d: "h_blocks h b = Some d" "unat (db_refcount d) = refs_to b R"
    using pos by (auto split: option.splits)
  moreover have "window_ok (h_blocks h) r"
    using assms(1,2) by (simp add: heap_inv_def)
  ultimately show ?thesis
    using that assms(3) by (auto simp: window_ok_def)
qed

lemma heap_inv_null [simp]:
  "br_blk r = None \<Longrightarrow> heap_inv h (add_mset r R) X \<longleftrightarrow> heap_inv h R X"
  by (auto simp: heap_inv_def counts_ok_def window_ok_def split: option.splits)

lemma heap_inv_no_fault: "heap_inv h R X \<Longrightarrow> \<not> h_fault h"
  by (simp add: heap_inv_def)

lemma heap_inv_empty_heap: "heap_inv (empty_heap junk gs) {#} {#}"
  by (simp add: heap_inv_def empty_heap_def counts_ok_def counted_blocks_def block_units_def)

lemma ref_bytes_length:
  "heap_inv h R X \<Longrightarrow> r \<in># R \<Longrightarrow> br_blk r \<noteq> None \<Longrightarrow> length (ref_bytes h r) = ref_size r"
  by (auto simp: ref_bytes_def ref_size_def block_data_def length_slice db_capacity_def
      elim: heap_inv_alive)

subsection \<open>Changing one block\<close>

lemma block_units_upd_same:
  "m b = Some d \<Longrightarrow> units_of d' = units_of d \<Longrightarrow> block_units (m(b \<mapsto> d')) = block_units m"
  unfolding block_units_def
  by (rule sum.cong) auto

lemma block_units_new:
  "finite (dom m) \<Longrightarrow> m b = None \<Longrightarrow> block_units (m(b \<mapsto> d)) = units_of d + block_units m"
proof -
  assume fin: "finite (dom m)" and new: "m b = None"
  have "block_units (m(b \<mapsto> d)) = (\<Sum>x\<in>insert b (dom m). units_of (the ((m(b \<mapsto> d)) x)))"
    by (simp add: block_units_def)
  also have "\<dots> = units_of d + (\<Sum>x\<in>dom m. units_of (the ((m(b \<mapsto> d)) x)))"
    using fin new by (subst sum.insert) auto
  also have "(\<Sum>x\<in>dom m. units_of (the ((m(b \<mapsto> d)) x))) = block_units m"
    unfolding block_units_def using new by (intro sum.cong) auto
  finally show ?thesis .
qed

lemma block_units_del:
  "finite (dom m) \<Longrightarrow> m b = Some d \<Longrightarrow> block_units m = units_of d + block_units (m(b := None))"
proof -
  assume fin: "finite (dom m)" and old: "m b = Some d"
  have "block_units m = units_of d + (\<Sum>x\<in>dom m - {b}. units_of (the (m x)))"
    unfolding block_units_def using fin old by (subst sum.remove [of _ b]) auto
  also have "(\<Sum>x\<in>dom m - {b}. units_of (the (m x))) = block_units (m(b := None))"
    unfolding block_units_def by (intro sum.cong) auto
  finally show ?thesis .
qed

lemma counted_blocks_upd_same:
  "m b = Some d \<Longrightarrow> db_live d' = db_live d \<Longrightarrow> counted_blocks (m(b \<mapsto> d')) k = counted_blocks m k"
  by (auto simp: counted_blocks_def)

lemma finite_counted_blocks: "finite (dom m) \<Longrightarrow> finite (counted_blocks m k)"
  by (rule finite_subset [of _ "dom m"]) (auto simp: counted_blocks_def)

lemma counted_blocks_del:
  "counted_blocks (m(b := None)) k = counted_blocks m k - {b}"
  by (auto simp: counted_blocks_def)

lemma counted_blocks_new:
  "m b = None \<Longrightarrow>
    counted_blocks (m(b \<mapsto> d)) k =
      (if db_live d = Some k then insert b (counted_blocks m k) else counted_blocks m k)"
  by (auto simp: counted_blocks_def)

lemma window_ok_upd_same:
  "m b = Some d \<Longrightarrow> db_capacity d' = db_capacity d \<Longrightarrow> window_ok (m(b \<mapsto> d')) r = window_ok m r"
  by (auto simp: window_ok_def)

text \<open>A change of one block that keeps its resource, size and counter, and makes its count fit.\<close>

lemma heap_inv_upd:
  assumes inv: "heap_inv h R X" and d: "h_blocks h b = Some d"
    and d': "db_resource d' = db_resource d" "db_capacity d' = db_capacity d" "db_live d' = db_live d"
    and cnt: "unat (db_refcount d') = refs_to b R'" "0 < refs_to b R'"
    and others: "\<And>c. c \<noteq> b \<Longrightarrow> refs_to c R' = refs_to c R"
    and win: "\<And>r. r \<in># R' \<Longrightarrow> window_ok (h_blocks h) r"
  shows "heap_inv (h\<lparr>h_blocks := (h_blocks h)(b \<mapsto> d')\<rparr>) R' X"
proof -
  have units: "units_of d' = units_of d"
    using d' by (simp add: units_of_def)
  have "counts_ok ((h_blocks h)(b \<mapsto> d')) R'"
    unfolding counts_ok_def
  proof
    fix c
    have "case h_blocks h c of None \<Rightarrow> refs_to c R = 0
            | Some d \<Rightarrow> unat (db_refcount d) = refs_to c R \<and> 0 < refs_to c R"
      using inv unfolding heap_inv_def counts_ok_def by blast
    then show "case ((h_blocks h)(b \<mapsto> d')) c of None \<Rightarrow> refs_to c R' = 0
            | Some d \<Rightarrow> unat (db_refcount d) = refs_to c R' \<and> 0 < refs_to c R'"
      using cnt others [of c] by (cases "c = b") (auto split: option.splits)
  qed
  moreover have "b < h_next h"
    using inv d by (auto simp: heap_inv_def)
  ultimately show ?thesis
    using inv d d' units win
    by (auto simp: heap_inv_def block_units_upd_same counted_blocks_upd_same window_ok_upd_same)
qed


subsection \<open>The primitives keep the invariant\<close>

text \<open>
  Taking one more handle on a live block (fewer than \<open>2 ^ 32\<close> handles exist, so the 32-bit count
  does not wrap).
\<close>

lemma heap_inv_add_ref:
  assumes inv: "heap_inv h R X" and r: "r \<in># R" "br_blk r = Some b"
    and room: "size R + 1 < 2 ^ 32"
    and r': "br_blk r' = Some b" "window_ok (h_blocks h) r'"
  shows "heap_inv (add_ref b h) (add_mset r' R) X"
proof -
  obtain d where d: "h_blocks h b = Some d" "unat (db_refcount d) = refs_to b R"
    using inv r by (rule heap_inv_alive)
  have "refs_to b R + 1 < 2 ^ 32"
    using refs_to_le_size [of b R] room by linarith
  then have "unat (db_refcount d + 1) = Suc (refs_to b R)"
    using d(2) by (simp add: unat_word_ariths)
  moreover have "window_ok (h_blocks h) q" if "q \<in># add_mset r' R" for q
    using that r' inv by (auto simp: heap_inv_def)
  ultimately show ?thesis
    using d r' inv
    by (simp add: add_ref_def)
       (rule heap_inv_upd [where d = d and R = R], auto simp: db_capacity_def)
qed

lemma heap_inv_release:
  assumes inv: "heap_inv h (add_mset r R) X" and r: "br_blk r = Some b"
  shows "heap_inv (release b h) R X"
proof -
  obtain d where d: "h_blocks h b = Some d" "unat (db_refcount d) = refs_to b (add_mset r R)"
    using inv _ r by (rule heap_inv_alive) simp
  have cnt: "unat (db_refcount d) = Suc (refs_to b R)"
    using d(2) r by simp
  have win: "window_ok (h_blocks h) q" if "q \<in># R" for q
    using that inv by (simp add: heap_inv_def)
  show ?thesis
  proof (cases "db_refcount d = 1")
    case False
    have "db_refcount d \<noteq> 0" using cnt by auto
    then have "unat (db_refcount d - 1) = refs_to b R"
      using cnt by (simp add: unat_minus_one)
    moreover have "refs_to b R \<noteq> 0"
      using False cnt by (auto simp: word_unat_eq_iff)
    ultimately show ?thesis
      using d r False win inv
      by (simp add: release_def)
         (rule heap_inv_upd [where d = d and R = "add_mset r R"], auto simp: db_capacity_def)
  next
    case True
    then have zero: "refs_to b R = 0" using cnt by simp
    have fin: "finite (dom (h_blocks h))" using inv by (simp add: heap_inv_def)
    let ?m = "(h_blocks h)(b := None)"
    have "counts_ok ?m R"
      unfolding counts_ok_def
    proof
      fix c
      have "case h_blocks h c of None \<Rightarrow> refs_to c (add_mset r R) = 0
          | Some d \<Rightarrow> unat (db_refcount d) = refs_to c (add_mset r R) \<and> 0 < refs_to c (add_mset r R)"
        using inv unfolding heap_inv_def counts_ok_def by blast
      then show "case ?m c of None \<Rightarrow> refs_to c R = 0
          | Some d \<Rightarrow> unat (db_refcount d) = refs_to c R \<and> 0 < refs_to c R"
        using zero r by (cases "c = b") (auto split: option.splits)
    qed
    moreover have "window_ok ?m q" if "q \<in># R" for q
      using win [OF that] by (simp add: window_ok_def)
    moreover have "h_out h = units_of d + (block_units ?m + X)"
      using inv block_units_del [OF fin d(1)] by (simp add: heap_inv_def add.assoc)
    moreover have "(case db_live d of None \<Rightarrow> h_live h | Some k \<Rightarrow> (h_live h)(k := h_live h k - 1)) j
        = card (counted_blocks ?m j)" for j
    proof -
      have "h_live h j = card (counted_blocks (h_blocks h) j)"
        using inv by (simp add: heap_inv_def)
      moreover have "b \<in> counted_blocks (h_blocks h) j \<longleftrightarrow> db_live d = Some j"
        using d(1) by (simp add: counted_blocks_def)
      ultimately show ?thesis
        using finite_counted_blocks [OF fin, of j]
        by (auto simp: counted_blocks_del split: option.splits)
    qed
    moreover have "h_blocks (release b h) = ?m \<and> h_next (release b h) = h_next h \<and>
        h_live (release b h) =
          (case db_live d of None \<Rightarrow> h_live h | Some k \<Rightarrow> (h_live h)(k := h_live h k - 1)) \<and>
        h_out (release b h) = block_units ?m + X \<and> \<not> h_fault (release b h)"
      using calculation(3) d(1) True heap_inv_no_fault [OF inv]
      by (simp add: release_def destroy_block_def res_deallocate_def units_of_def db_capacity_def
          Let_def split: option.splits)
    moreover have "\<forall>c\<in>dom ?m. c < h_next h"
      using inv by (auto simp: heap_inv_def)
    moreover have "\<forall>c e k. ?m c = Some e \<longrightarrow> db_live e = Some k \<longrightarrow> k < h_next h"
      using inv by (simp add: heap_inv_def)
    ultimately show ?thesis
      using fin by (simp add: heap_inv_def)
  qed
qed

lemma block_data_add_ref [heap_simps]: "block_data (add_ref b h) c = block_data h c"
  by (auto simp: block_data_def add_ref_def split: option.splits)

lemma keeps_release:
  assumes inv: "heap_inv h (add_mset r R) X" and r: "br_blk r = Some b"
  shows "keeps R h (release b h)"
  unfolding keeps_def
proof (intro ballI allI impI)
  fix q c assume q: "q \<in># R" "br_blk q = Some c"
  obtain d where d: "h_blocks h b = Some d" "unat (db_refcount d) = refs_to b (add_mset r R)"
    using inv _ r by (rule heap_inv_alive) simp
  have "db_refcount d = 1 \<Longrightarrow> c \<noteq> b"
    using d(2) r refs_to_pos [OF q] by auto
  then show "block_data (release b h) c = block_data h c"
    using d(1)
    by (auto simp: block_data_def release_def destroy_block_def res_deallocate_def Let_def
        split: option.splits)
qed

lemma heap_inv_ref_drop:
  assumes "heap_inv h (add_mset r R) X"
  shows "heap_inv (ref_drop r h) R X" and "keeps R h (ref_drop r h)"
  using assms heap_inv_release [OF assms] keeps_release [OF assms]
  by (auto simp: ref_drop_def split: option.splits)

lemma heap_inv_ref_copy:
  assumes inv: "heap_inv h R X" and r: "r \<in># R" and room: "size R + 1 < 2 ^ 32"
    and r': "br_blk r' = br_blk r" "window_ok (h_blocks h) r'"
  shows "heap_inv (snd (ref_copy r h)) (add_mset r' R) X"
proof (cases "br_blk r")
  case None
  then show ?thesis using inv r' by (simp add: ref_copy_def)
next
  case (Some b)
  with r' show ?thesis
    using heap_inv_add_ref [OF inv r Some room, of r'] by (simp add: ref_copy_def)
qed

lemma block_data_ref_copy [heap_simps]: "block_data (snd (ref_copy r h)) c = block_data h c"
  by (simp add: ref_copy_def block_data_add_ref split: option.splits)

lemma fst_ref_copy [simp]: "fst (ref_copy r h) = r"
  by (simp add: ref_copy_def)

subsection \<open>Allocation\<close>

lemma res_allocate_same:
  "res_allocate u h = (ok, h') \<Longrightarrow>
    h_blocks h' = h_blocks h \<and> h_next h' = h_next h \<and> h_live h' = h_live h \<and>
    h_fault h' = h_fault h \<and> h_junk h' = h_junk h \<and>
    h_out h' = (if ok then add_mset u (h_out h) else h_out h)"
  by (auto split: list.splits bool.splits)

lemma heap_inv_granted:
  assumes "heap_inv h R X" and "res_allocate u h = (True, h')"
  shows "heap_inv h' R (add_mset u X)"
  using assms(1) res_allocate_same [OF assms(2)] by (simp add: heap_inv_def)

lemma heap_inv_refused:
  assumes "heap_inv h R X" and "res_allocate u h = (False, h')"
  shows "heap_inv h' R X"
  using assms(1) res_allocate_same [OF assms(2)] by (simp add: heap_inv_def)

lemma block_data_allocate:
  "res_allocate u h = (ok, h') \<Longrightarrow> block_data h' b = block_data h b"
  using res_allocate_same [of u h ok h'] by (simp add: block_data_def)

lemma keeps_allocate: "res_allocate u h = (ok, h') \<Longrightarrow> keeps R h h'"
  by (simp add: keeps_def block_data_allocate)

lemma heap_inv_deallocate:
  assumes "heap_inv h R (add_mset u X)"
  shows "heap_inv (res_deallocate u h) R X"
  using assms by (simp add: heap_inv_def res_deallocate_def)

lemma block_data_deallocate [heap_simps]: "block_data (res_deallocate u h) = block_data h"
  by (simp add: fun_eq_iff block_data_def res_deallocate_def)

declare res_allocate.simps [simp del]

text \<open>A new block with its first handle, counted in the shared counter if it has one.\<close>

lemma heap_inv_new_block:
  assumes inv: "heap_inv h R X" and b: "b = h_next h"
    and d: "db_refcount d = 1" "db_live d = live" and k: "\<And>k. live = Some k \<Longrightarrow> k < h_next h"
    and h': "h_blocks h' = (h_blocks h)(b \<mapsto> d)" "h_next h' = Suc b" "h_fault h' = h_fault h"
      "h_live h' = (case live of None \<Rightarrow> h_live h | Some k \<Rightarrow> (h_live h)(k := h_live h k + 1))"
      "h_out h' = units_of d + h_out h"
    and r: "br_blk r = Some b" "br_begin r = 0" "br_end r = 0"
  shows "heap_inv h' (add_mset r R) X"
proof -
  have new: "h_blocks h b = None"
    using inv b by (auto simp: heap_inv_def)
  have zero: "refs_to b R = 0"
    using inv new by (auto simp: heap_inv_def dest: counts_okD)
  have fin: "finite (dom (h_blocks h))"
    using inv by (simp add: heap_inv_def)
  have "counts_ok (h_blocks h') (add_mset r R)"
    unfolding counts_ok_def
  proof
    fix c
    have "case h_blocks h c of None \<Rightarrow> refs_to c R = 0
            | Some d \<Rightarrow> unat (db_refcount d) = refs_to c R \<and> 0 < refs_to c R"
      using inv unfolding heap_inv_def counts_ok_def by blast
    then show "case h_blocks h' c of None \<Rightarrow> refs_to c (add_mset r R) = 0
            | Some d \<Rightarrow> unat (db_refcount d) = refs_to c (add_mset r R) \<and> 0 < refs_to c (add_mset r R)"
      using zero r d h'(1) by (cases "c = b") (auto split: option.splits)
  qed
  moreover have "window_ok (h_blocks h') q" if "q \<in># add_mset r R" for q
  proof (cases "q \<in># R")
    case True
    then have "br_blk q \<noteq> Some b"
      using zero refs_to_pos by fastforce
    with True show ?thesis
      using inv h'(1) by (auto simp: heap_inv_def window_ok_def)
  next
    case False
    then show ?thesis using that r h'(1) by (auto simp: window_ok_def)
  qed
  moreover have "h_live h' j = card (counted_blocks (h_blocks h') j)" for j
  proof -
    have "h_live h j = card (counted_blocks (h_blocks h) j)"
      using inv by (simp add: heap_inv_def)
    moreover have "b \<notin> counted_blocks (h_blocks h) j"
      using new by (simp add: counted_blocks_def)
    ultimately show ?thesis
      using h' d finite_counted_blocks [OF fin, of j]
      by (auto simp: counted_blocks_new [where m = "h_blocks h" and b = b, OF new] split: option.splits)
  qed
  moreover have "h_out h' = block_units (h_blocks h') + X"
    using inv h' block_units_new [where m = "h_blocks h" and b = b, OF fin new]
    by (simp add: heap_inv_def add.assoc)
  moreover have "\<forall>c\<in>dom (h_blocks h'). c < h_next h'"
    using inv h' b by (auto simp: heap_inv_def less_Suc_eq)
  moreover have "\<forall>c e j. h_blocks h' c = Some e \<longrightarrow> db_live e = Some j \<longrightarrow> j < h_next h'"
    using inv h' b d k unfolding heap_inv_def by (fastforce simp: less_Suc_eq split: if_splits)
  ultimately show ?thesis
    using inv h' fin unfolding heap_inv_def by simp
qed


subsection \<open>The pool\<close>

definition pool_ok :: "pool \<Rightarrow> heap \<Rightarrow> bool" where
  "pool_ok p h \<longleftrightarrow> (\<forall>k. pool_live p = Some k \<longrightarrow> k < h_next h)"

text \<open>What \<open>create\<close> followed by the first handle does, from a heap where the slot is reserved.\<close>

lemma create_block_cases:
  assumes "create_block res cap live h = (ob, h')"
  obtains (created) b where "ob = Some b" "b = h_next h"
      "h_blocks h' = (h_blocks h)(b \<mapsto> \<lparr>db_resource = res, db_storage = map (h_junk h) [0..<cap],
                                      db_refcount = 0, db_live = live\<rparr>)"
      "h_next h' = Suc b" "h_live h' = h_live h" "h_fault h' = h_fault h"
      "h_out h' = {#Payload_Alloc res cap, Header_Alloc res#} + h_out h"
  | (thrown) "ob = None" "h_blocks h' = h_blocks h" "h_next h' = h_next h"
      "h_live h' = h_live h" "h_fault h' = h_fault h" "h_out h' = h_out h"
proof -
  obtain ok1 h1 where a1: "res_allocate (Payload_Alloc res cap) h = (ok1, h1)"
    by fastforce
  obtain ok2 h2 where a2: "res_allocate (Header_Alloc res) h1 = (ok2, h2)"
    by fastforce
  note s1 = res_allocate_same [OF a1] and s2 = res_allocate_same [OF a2]
  show ?thesis
  proof (cases "ok1 \<and> ok2")
    case True
    with assms a1 a2 s1 s2 show ?thesis
      by (intro created) (auto simp: create_block_def Let_def)
  next
    case False
    with assms a1 a2 s1 s2 show ?thesis
      by (intro thrown)
         (auto simp: create_block_def Let_def res_deallocate_def split: bool.splits if_splits)
  qed
qed

text \<open>The four ways \<open>acquire()\<close> ends, and what each leaves.\<close>

lemma acquire_cases:
  assumes inv: "heap_inv h R X" and ok: "pool_ok p h" and acq: "acquire p h = (res, h')"
  obtains (acquired) r b where "res = Some r" "br_blk r = Some b" "br_begin r = 0" "br_end r = 0"
      "h_blocks h b = None" "heap_inv h' (add_mset r R) X" "keeps R h h'" "pool_ok p h'"
      "length (block_data h' b) = pool_block_size p"
      "\<And>k. pool_live p = Some k \<Longrightarrow> h_live h k < pool_max_live p"
      "\<And>k. pool_live p = Some k \<Longrightarrow> h_live h' k = Suc (h_live h k)"
  | (at_cap) k where "res = Some ref_null" "pool_live p = Some k" "pool_max_live p \<le> h_live h k"
      "h' = h"
  | (thrown) "res = None" "heap_inv h' R X" "keeps R h h'" "pool_ok p h'" "h_live h' = h_live h"
      "h_blocks h' = h_blocks h"
proof -
  let ?live = "pool_live p"
  let ?h1 = "case ?live of None \<Rightarrow> h | Some k \<Rightarrow> h\<lparr>h_live := (h_live h)(k := h_live h k + 1)\<rparr>"
  show ?thesis
  proof (cases "\<exists>k. ?live = Some k \<and> pool_max_live p \<le> h_live h k")
    case True
    then obtain k where k: "?live = Some k" "pool_max_live p \<le> h_live h k" by blast
    with acq show ?thesis
      by (intro at_cap) (auto simp: acquire_def Let_def)
  next
    case False
    obtain ob h2 where cr: "create_block (pool_resource p) (pool_block_size p) ?live ?h1 = (ob, h2)"
      by fastforce
    from cr show ?thesis
    proof (cases rule: create_block_cases)
      case (created b)
      let ?d = "\<lparr>db_resource = pool_resource p,
                  db_storage = map (h_junk ?h1) [0..<pool_block_size p], db_refcount = 1, db_live = ?live\<rparr>"
      let ?r = "\<lparr>br_blk = Some b, br_begin = 0, br_end = 0\<rparr>"
      have h': "res = Some ?r" "h' = add_ref b h2"
        using acq cr False created
        by (auto simp: acquire_def ref_make_def Let_def split: option.splits)
      have f: "h_blocks h' = (h_blocks h)(b \<mapsto> ?d)" "h_next h' = Suc b" "h_fault h' = h_fault h"
        "h_live h' = (case ?live of None \<Rightarrow> h_live h | Some k \<Rightarrow> (h_live h)(k := h_live h k + 1))"
        "h_out h' = units_of ?d + h_out h" "b = h_next h"
        using created h'(2)
        by (simp_all add: add_ref_def units_of_def db_capacity_def split: option.splits)
      have new: "h_blocks h b = None"
        using inv f(6) by (auto simp: heap_inv_def)
      show ?thesis
      proof (rule acquired [OF h'(1), of b])
        show "heap_inv h' (add_mset ?r R) X"
          using inv f ok by (intro heap_inv_new_block [where d = ?d]) (auto simp: pool_ok_def)
        show "keeps R h h'"
          using inv f(1) new
          by (auto simp: keeps_def block_data_def heap_inv_def dest!: refs_to_pos counts_okD(1))
        show "pool_ok p h'"
          using ok f(2,6) by (auto simp: pool_ok_def less_Suc_eq)
        show "length (block_data h' b) = pool_block_size p"
          using f(1) by (simp add: block_data_def)
      qed (use new False f(4) in \<open>auto simp: not_le\<close>)
    next
      case thrown': thrown
      have "res = None"
        "h' = (case ?live of None \<Rightarrow> h2 | Some k \<Rightarrow> h2\<lparr>h_live := (h_live h2)(k := h_live h2 k - 1)\<rparr>)"
        using acq cr False thrown'(1) by (auto simp: acquire_def Let_def split: option.splits)
      moreover from this have "h_blocks h' = h_blocks h" "h_next h' = h_next h" "h_live h' = h_live h"
        "h_fault h' = h_fault h" "h_out h' = h_out h"
        using thrown' by (auto split: option.splits)
      ultimately show ?thesis
        using inv ok
        by (intro thrown) (auto simp: heap_inv_def keeps_def block_data_def pool_ok_def)
    qed
  qed
qed

subsection \<open>Filling a block\<close>

lemma heap_inv_fill_block:
  assumes inv: "heap_inv h R X" and r: "r \<in># R" "br_blk r = Some b"
    and fits: "p + length bytes \<le> length (block_data h b)"
  shows "heap_inv (fill_block b p bytes h) R X"
    and "block_data (fill_block b p bytes h) c =
      (if c = b then overwrite p bytes (block_data h b) else block_data h c)"
proof -
  obtain d where d: "h_blocks h b = Some d" "unat (db_refcount d) = refs_to b R"
    using inv r by (rule heap_inv_alive)
  have fits': "p + length bytes \<le> db_capacity d"
    using fits d by (simp add: block_data_def db_capacity_def)
  show "heap_inv (fill_block b p bytes h) R X"
    using d fits' inv refs_to_pos [OF r]
    by (simp add: fill_block_def)
       (rule heap_inv_upd [where d = d and R = R], auto simp: db_capacity_def heap_inv_def)
  show "block_data (fill_block b p bytes h) c =
      (if c = b then overwrite p bytes (block_data h b) else block_data h c)"
    using d fits' by (simp add: fill_block_def block_data_def)
qed

text \<open>A read of the socket leaves every window before the filled part as it was.\<close>

lemma ref_bytes_fill_block:
  assumes inv: "heap_inv h R X" and r: "r \<in># R" "br_blk r = Some b"
    and fits: "p + length bytes \<le> length (block_data h b)"
    and before: "br_blk q = Some b \<Longrightarrow> br_end q \<le> p"
  shows "ref_bytes (fill_block b p bytes h) q = ref_bytes h q"
  using assms
  by (auto simp: ref_bytes_def heap_inv_fill_block(2) [OF inv r fits] slice_overwrite_before
      split: option.splits)

section \<open>Properties\<close>

text \<open>
  A concrete heap for the witnesses: one block of eight bytes, with the given handles on it, the
  given further allocations, and the given answers of the memory resource.
\<close>

definition demo_heap :: "block_ref multiset \<Rightarrow> alloc_unit multiset \<Rightarrow> bool list \<Rightarrow> heap" where
  "demo_heap R X gs =
    \<lparr>h_blocks = [0 \<mapsto> \<lparr>db_resource = 0, db_storage = [10, 11, 12, 13, 14, 15, 16, 17],
                       db_refcount = of_nat (size R), db_live = None\<rparr>],
     h_next = 1, h_live = (\<lambda>_. 0), h_out = {#Payload_Alloc 0 8, Header_Alloc 0#} + X, h_grants = gs,
     h_junk = (\<lambda>_. 0), h_fault = False\<rparr>"

definition demo_ref :: "nat \<Rightarrow> nat \<Rightarrow> block_ref" where
  "demo_ref i j = \<lparr>br_blk = Some 0, br_begin = i, br_end = j\<rparr>"

lemma demo_heap_inv:
  assumes "R \<noteq> {#}" "size R < 2 ^ 32"
    and "\<And>r. r \<in># R \<Longrightarrow> br_blk r = Some 0 \<and> br_begin r \<le> br_end r \<and> br_end r \<le> 8"
  shows "heap_inv (demo_heap R X gs) R X"
proof -
  have "{#r \<in># R. br_blk r = Some 0#} = R"
    using assms(3) by (simp add: filter_mset_eq_conv)
  then have all: "refs_to 0 R = size R" by (simp add: refs_to_def)
  have none: "b \<noteq> 0 \<Longrightarrow> refs_to b R = 0" for b
    using assms(3) by (auto simp: refs_to_def filter_mset_eq_conv)
  have "unat (of_nat (size R) :: u32) = size R"
    using assms(2) by (simp add: unat_of_nat)
  then show ?thesis
    using assms(1,3) all none
    by (auto simp: heap_inv_def demo_heap_def counts_ok_def window_ok_def counted_blocks_def
        block_units_def units_of_def db_capacity_def nonempty_has_size numeral_eq_Suc split: if_splits)
qed

lemma demo_ref_sel [simp]:
  "br_blk (demo_ref i j) = Some 0" "br_begin (demo_ref i j) = i" "br_end (demo_ref i j) = j"
  by (simp_all add: demo_ref_def)

text \<open>
  C17. A block lives exactly as long as a handle on it does: dropping a handle keeps the heap
  consistent, and frees the block if and only if no other handle on it is left.
\<close>

theorem last_handle_frees_block:
  assumes "heap_inv h (add_mset r R) X" and "br_blk r = Some b"
  shows "heap_inv (ref_drop r h) R X \<and> (h_blocks (ref_drop r h) b = None \<longleftrightarrow> refs_to b R = 0)"
proof -
  have inv: "heap_inv (ref_drop r h) R X" using assms(1) by (rule heap_inv_ref_drop)
  then have "counts_ok (h_blocks (ref_drop r h)) R" by (simp add: heap_inv_def)
  then have "h_blocks (ref_drop r h) b = None \<longleftrightarrow> refs_to b R = 0"
    using counts_okD [where b = b] by (cases "h_blocks (ref_drop r h) b") fastforce+
  with inv show ?thesis by blast
qed

lemma last_handle_frees_block_witness:
  "heap_inv (ref_drop (demo_ref 0 3) (demo_heap {#demo_ref 0 3#} {#} [])) {#} {#} \<and>
    h_blocks (ref_drop (demo_ref 0 3) (demo_heap {#demo_ref 0 3#} {#} [])) 0 = None"
  using last_handle_frees_block [OF demo_heap_inv [of "{#demo_ref 0 3#}" "{#}" "[]"], of 0] by simp

text \<open>
  When the last handle is gone, nothing is left allocated from the message memory resource but
  what other owners hold, no freed block has been used, and every live-block counter is zero.
\<close>

lemma no_block_leaks:
  assumes "heap_inv h {#} X"
  shows "h_blocks h = (\<lambda>_. None) \<and> h_out h = X \<and> \<not> h_fault h \<and> (\<forall>k. h_live h k = 0)"
proof -
  have "h_blocks h b = None" for b
    using assms counts_okD(2) [of "h_blocks h" "{#}" b] by (cases "h_blocks h b") (auto simp: heap_inv_def)
  then have "h_blocks h = (\<lambda>_. None)" by auto
  with assms show ?thesis by (simp add: heap_inv_def block_units_def counted_blocks_def)
qed

text \<open>
  C18. The pool's cap. Below it \<open>acquire()\<close> yields an empty handle on a fresh block of the pool's
  size and counts it, or the allocation throws and the counter is as before; at the cap it
  yields an invalid handle and changes nothing. Live data is never touched.
\<close>

theorem acquire_respects_cap:
  assumes "heap_inv h R X" and "pool_ok p h" and "pool_live p = Some k"
    and "acquire p h = (res, h')"
  shows "if live_blocks p h < pool_max_live p
    then (case res of
        None \<Rightarrow> heap_inv h' R X \<and> live_blocks p h' = live_blocks p h
      | Some r \<Rightarrow> heap_inv h' (add_mset r R) X \<and> ref_valid r \<and> ref_empty r \<and> refs_to (the (br_blk r)) R = 0 \<and>
          length (block_data h' (the (br_blk r))) = pool_block_size p \<and>
          live_blocks p h' = Suc (live_blocks p h)) \<and> keeps R h h'
    else res = Some ref_null \<and> h' = h"
  using assms(1,2,4)
proof (cases rule: acquire_cases)
  case (acquired r b)
  have "refs_to b R = 0"
    using assms(1) acquired(5) by (auto simp: heap_inv_def dest: counts_okD)
  with acquired assms(3) show ?thesis
    by (simp add: live_blocks_def ref_valid_def ref_empty_def)
next
  case (at_cap j)
  then show ?thesis using assms(3) by (simp add: live_blocks_def)
next
  case thrown
  moreover have "h' = h \<Longrightarrow> False" if "pool_max_live p \<le> h_live h k"
    using that assms(3,4) thrown(1) by (auto simp: acquire_def Let_def)
  moreover have "\<not> pool_max_live p \<le> h_live h k"
    using assms(3,4) thrown(1) by (auto simp: acquire_def Let_def)
  ultimately show ?thesis using assms(3) by (simp add: live_blocks_def)
qed

definition demo_pool :: "nat \<Rightarrow> pool" where
  "demo_pool cap = \<lparr>pool_resource = 0, pool_block_size = 8, pool_max_live = cap, pool_live = Some 0\<rparr>"

lemma acquire_respects_cap_witness:
  "acquire (demo_pool 0) (demo_heap {#demo_ref 0 3#} {#} []) =
      (Some ref_null, demo_heap {#demo_ref 0 3#} {#} [])"
proof -
  obtain res h' where acq: "acquire (demo_pool 0) (demo_heap {#demo_ref 0 3#} {#} []) = (res, h')"
    by fastforce
  have "pool_ok (demo_pool 0) (demo_heap {#demo_ref 0 3#} {#} [])"
    by (simp add: pool_ok_def demo_pool_def demo_heap_def)
  from acquire_respects_cap [OF demo_heap_inv [of "{#demo_ref 0 3#}" "{#}" "[]"] this _ acq, of 0] acq
  show ?thesis by (simp add: demo_pool_def)
qed

end
