(* ===== verification/Chain.thy ===== *)
theory Chain
  imports Blocks
begin

text \<open>
  \<open>BlockChain\<close> (buffer/block_chain.h and .cpp): an ordered run of block handles, kept in an array
  with two inline entries that moves to storage from the blocks' resource when it grows. The model
  has the same array: \<open>ch_slots\<close> is \<open>inline_\<close>; \<open>ch_ext\<close> is the external storage and the resource it
  came from, when \<open>data_\<close> points there; the live entries are \<open>[ch_head, ch_head + ch_count)\<close>.

  The second half states what the array operations mean on the list of live handles and proves it.
\<close>

section \<open>Representation\<close>

record chain =
  ch_slots :: "block_ref list"
  ch_ext :: "(nat \<times> block_ref list) option"
  ch_head :: nat
  ch_count :: nat
  ch_size :: nat

definition kInline :: nat where
  "kInline = 2"

definition empty_chain :: chain where
  "empty_chain = \<lparr>ch_slots = replicate kInline ref_null, ch_ext = None, ch_head = 0, ch_count = 0,
                  ch_size = 0\<rparr>"

definition inline_storage :: "chain \<Rightarrow> bool" where
  "inline_storage c = (ch_ext c = None)"

definition ch_data :: "chain \<Rightarrow> block_ref list" where
  "ch_data c = (case ch_ext c of None \<Rightarrow> ch_slots c | Some (_, d) \<Rightarrow> d)"

definition ch_set_data :: "block_ref list \<Rightarrow> chain \<Rightarrow> chain" where
  "ch_set_data d c =
    (case ch_ext c of None \<Rightarrow> c\<lparr>ch_slots := d\<rparr> | Some (res, _) \<Rightarrow> c\<lparr>ch_ext := Some (res, d)\<rparr>)"

definition ch_capacity :: "chain \<Rightarrow> nat" where
  "ch_capacity c = length (ch_data c)"

text \<open>The entries \<open>begin()\<close> to \<open>end()\<close>.\<close>

definition ch_live :: "chain \<Rightarrow> block_ref list" where
  "ch_live c = take (ch_count c) (drop (ch_head c) (ch_data c))"

definition chain_empty :: "chain \<Rightarrow> bool" where
  "chain_empty c = (ch_size c = 0)"

text \<open>\<open>resource()\<close>: the resource of the front block, or null for an empty chain.\<close>

definition block_resource :: "heap \<Rightarrow> block_ref \<Rightarrow> nat option" where
  "block_resource h r =
    (case br_blk r of None \<Rightarrow> None | Some b \<Rightarrow> map_option db_resource (h_blocks h b))"

definition chain_resource :: "heap \<Rightarrow> chain \<Rightarrow> nat option" where
  "chain_resource h c =
    (if ch_count c = 0 then None else block_resource h (ch_data c ! ch_head c))"

section \<open>Operations\<close>

text \<open>\<open>data_[i + k].reset()\<close> for \<open>k\<close> from 0 to \<open>n - 1\<close>.\<close>

fun reset_slots :: "nat \<Rightarrow> nat \<Rightarrow> heap \<times> block_ref list \<Rightarrow> heap \<times> block_ref list" where
  "reset_slots i 0 s = s"
| "reset_slots i (Suc n) (h, d) =
     (case ref_reset (d ! i) h of (r, h1) \<Rightarrow> reset_slots (Suc i) n (h1, d[i := r]))"

definition chain_clear :: "heap \<times> chain \<Rightarrow> heap \<times> chain" where
  "chain_clear s =
    (case s of (h, c) \<Rightarrow>
      (case reset_slots (ch_head c) (ch_count c) (h, ch_data c) of
         (h1, d) \<Rightarrow> (h1, (ch_set_data d c)\<lparr>ch_head := 0, ch_count := 0, ch_size := 0\<rparr>)))"

text \<open>External storage: every entry is destroyed, the array goes back to its resource.\<close>

definition release_storage :: "heap \<times> chain \<Rightarrow> heap \<times> chain" where
  "release_storage s =
    (case s of (h, c) \<Rightarrow>
      (case ch_ext c of
         None \<Rightarrow> (h, c)
       | Some (res, d) \<Rightarrow>
           (res_deallocate (Entries_Alloc res (length d)) (fold ref_drop d h), c\<lparr>ch_ext := None\<rparr>)))"

text \<open>\<open>data_[i] = std::move(data_[j])\<close>, and the loop of \<open>std::move(data_ + head, \<dots>, data_)\<close>.\<close>

definition move_slot :: "nat \<Rightarrow> nat \<Rightarrow> heap \<times> block_ref list \<Rightarrow> heap \<times> block_ref list" where
  "move_slot i j s =
    (case s of (h, d) \<Rightarrow>
      if i = j then (h, d)
      else (case ref_assign_move (d ! i) (d ! j) h of
              (new, left, h1) \<Rightarrow> (h1, d[i := new, j := left])))"

fun shift_down :: "nat \<Rightarrow> nat \<Rightarrow> nat \<Rightarrow> heap \<times> block_ref list \<Rightarrow> heap \<times> block_ref list" where
  "shift_down h0 i 0 s = s"
| "shift_down h0 i (Suc n) s = shift_down h0 (Suc i) n (move_slot i (h0 + i) s)"

text \<open>
  \<open>grow()\<close>: first by moving the live entries to the front, then by doubling the storage, from the
  front block's resource; the flag is \<open>False\<close> when that allocation throws (nothing has changed then).
\<close>

definition chain_grow :: "heap \<times> chain \<Rightarrow> bool \<times> heap \<times> chain" where
  "chain_grow s =
    (case s of (h, c) \<Rightarrow>
      if ch_head c > 0
      then (case shift_down (ch_head c) 0 (ch_count c) (h, ch_data c) of
              (h1, d) \<Rightarrow> (True, h1, (ch_set_data d c)\<lparr>ch_head := 0\<rparr>))
      else
        (let res = the (block_resource h (ch_data c ! 0));
             new_capacity = ch_capacity c * 2;
             n = ch_count c
         in case res_allocate (Entries_Alloc res new_capacity) h of
              (False, h1) \<Rightarrow> (False, h1, c)
            | (True, h1) \<Rightarrow>
                (let moved = take n (ch_data c);
                     fresh = moved @ replicate (new_capacity - n) ref_null;
                     left = map ref_moved moved @ drop n (ch_data c)
                 in case reset_slots 0 n (h1, left) of
                      (h2, d) \<Rightarrow>
                        (case release_storage (h2, ch_set_data d c) of
                           (h3, c3) \<Rightarrow> (True, h3, c3\<lparr>ch_ext := Some (res, fresh)\<rparr>)))))"

definition chain_push_back :: "block_ref \<Rightarrow> heap \<times> chain \<Rightarrow> bool \<times> heap \<times> chain" where
  "chain_push_back r s =
    (case s of (h, c) \<Rightarrow>
      (case (if ch_head c + ch_count c = ch_capacity c then chain_grow (h, c) else (True, h, c)) of
         (False, h1, c1) \<Rightarrow> (False, ref_drop r h1, c1)
       | (True, h1, c1) \<Rightarrow>
           (let i = ch_head c1 + ch_count c1
            in case ref_assign_move (ch_data c1 ! i) r h1 of
                 (new, left, h2) \<Rightarrow>
                   (True, ref_drop left h2,
                    (ch_set_data ((ch_data c1)[i := new]) c1)\<lparr>ch_count := Suc (ch_count c1)\<rparr>))))"

text \<open>
  \<open>append(ref)\<close>, which owns \<open>ref\<close>. When the storage cannot grow the exception leaves through
  \<open>append\<close>, after \<open>size_\<close> has been increased.
\<close>

definition chain_append :: "block_ref \<Rightarrow> heap \<times> chain \<Rightarrow> bool \<times> heap \<times> chain" where
  "chain_append r s =
    (case s of (h, c) \<Rightarrow>
      if \<not> ref_valid r \<or> ref_empty r then (True, ref_drop r h, c)
      else
        (let c1 = c\<lparr>ch_size := ch_size c + ref_size r\<rparr>;
             i = ch_head c + ch_count c - 1;
             lst = ch_data c ! i
         in if ch_count c > 0 \<and> br_blk lst = br_blk r \<and> br_end lst = br_begin r
            then (True, ref_drop r h,
                  ch_set_data ((ch_data c)[i := set_range (br_begin lst) (br_end r) lst]) c1)
            else chain_push_back r (h, c1)))"

text \<open>
  The loop of \<open>consume_front\<close>. It touches \<open>data_[head_]\<close> while bytes remain to be consumed; \<open>None\<close>
  stands for a run that leaves the live entries (or the array), which the invariant excludes.
\<close>

function consume_loop :: "nat \<Rightarrow> heap \<times> chain \<Rightarrow> (heap \<times> chain) option" where
  "consume_loop n (h, c) =
    (if n = 0 then Some (h, c)
     else if ch_count c = 0 \<or> ch_capacity c \<le> ch_head c then None
     else
       (let front = ch_data c ! ch_head c; avail = ref_size front
        in if n < avail
           then Some (h, ch_set_data ((ch_data c)[ch_head c := advance_begin n front]) c)
           else (case ref_reset front h of
                   (r, h1) \<Rightarrow>
                     consume_loop (n - avail)
                       (h1, (ch_set_data ((ch_data c)[ch_head c := r]) c)
                              \<lparr>ch_head := Suc (ch_head c), ch_count := ch_count c - 1\<rparr>))))"
  by pat_completeness auto
termination
  by (relation "measure (\<lambda>(n, h, c). ch_count c)") (auto simp: ch_set_data_def split: option.splits)

definition consume_front :: "nat \<Rightarrow> heap \<times> chain \<Rightarrow> (heap \<times> chain) option" where
  "consume_front n s =
    (case s of (h, c) \<Rightarrow>
      (let n' = min n (ch_size c)
       in map_option (\<lambda>(h1, c1). (h1, if ch_count c1 = 0 then c1\<lparr>ch_head := 0\<rparr> else c1))
            (consume_loop n' (h, c\<lparr>ch_size := ch_size c - n'\<rparr>))))"

text \<open>Destruction of a chain: the live entries, the external storage, then the inline entries.\<close>

definition chain_destroy :: "heap \<times> chain \<Rightarrow> heap" where
  "chain_destroy s =
    (case release_storage (chain_clear s) of (h, c) \<Rightarrow> fold ref_drop (ch_slots c) h)"

text \<open>
  \<open>first(len)\<close>: the loop over the entries of \<open>*this\<close>, building \<open>out\<close>. An exception from \<open>append\<close>
  destroys \<open>out\<close> (\<open>None\<close>); \<open>*this\<close> is not changed.
\<close>

fun first_loop :: "block_ref list \<Rightarrow> nat \<Rightarrow> heap \<times> chain \<Rightarrow> heap \<times> chain option" where
  "first_loop [] len (h, out) = (h, Some out)"
| "first_loop (r # rs) len (h, out) =
    (if len = 0 then (h, Some out)
     else
       (let tk = min (ref_size r) len in
        case ref_copy r h of
          (piece, h1) \<Rightarrow>
            (case chain_append (set_range (br_begin r) (br_begin r + tk) piece) (h1, out) of
               (False, h2, out2) \<Rightarrow> (chain_destroy (h2, out2), None)
             | (True, h2, out2) \<Rightarrow> first_loop rs (len - tk) (h2, out2))))"

definition chain_first :: "nat \<Rightarrow> heap \<times> chain \<Rightarrow> heap \<times> chain option" where
  "chain_first len s =
    (case s of (h, c) \<Rightarrow> first_loop (ch_live c) (min len (ch_size c)) (h, empty_chain))"

text \<open>\<open>copy_to(out)\<close>: the bytes of \<open>out\<close> afterwards, and the number written.\<close>

fun copy_loop :: "heap \<Rightarrow> block_ref list \<Rightarrow> nat \<Rightarrow> byte list \<Rightarrow> byte list \<times> nat" where
  "copy_loop h [] off out = (out, off)"
| "copy_loop h (r # rs) off out =
    copy_loop h rs (off + length (ref_bytes h r)) (overwrite off (ref_bytes h r) out)"

definition copy_to :: "heap \<Rightarrow> chain \<Rightarrow> byte list \<Rightarrow> byte list \<times> nat" where
  "copy_to h c out = copy_loop h (ch_live c) 0 out"

text \<open>
  The copy constructor. When an allocation throws halfway the destructor does not run (the object
  was never constructed): only the inline entries, which are members, are destroyed.
\<close>

fun copy_entries :: "block_ref list \<Rightarrow> heap \<times> chain \<Rightarrow> bool \<times> heap \<times> chain" where
  "copy_entries [] s = (True, s)"
| "copy_entries (r # rs) (h, c) =
    (case ref_copy r h of
       (r', h1) \<Rightarrow>
         (case chain_push_back r' (h1, c) of
            (False, s2) \<Rightarrow> (False, s2)
          | (True, s2) \<Rightarrow> copy_entries rs s2))"

definition chain_copy :: "heap \<times> chain \<Rightarrow> heap \<times> chain option" where
  "chain_copy s =
    (case s of (h, other) \<Rightarrow>
      (case copy_entries (ch_live other) (h, empty_chain) of
         (False, h1, c) \<Rightarrow> (fold ref_drop (ch_slots c) h1, None)
       | (True, h1, c) \<Rightarrow> (h1, Some (c\<lparr>ch_size := ch_size other\<rparr>))))"

text \<open>
  Move assignment from another chain: the new value, what is left in \<open>other\<close>, the heap. Inline
  entries are moved one by one; external storage changes hands as it is.
\<close>

fun move_entries :: "nat \<Rightarrow> nat \<Rightarrow> nat \<Rightarrow> heap \<times> block_ref list \<times> block_ref list
    \<Rightarrow> heap \<times> block_ref list \<times> block_ref list" where
  "move_entries h0 i 0 s = s"
| "move_entries h0 i (Suc n) (h, dst, src) =
    (case ref_assign_move (dst ! i) (src ! (h0 + i)) h of
       (new, left, h1) \<Rightarrow> move_entries h0 (Suc i) n (h1, dst[i := new], src[h0 + i := left]))"

definition chain_move_assign :: "chain \<Rightarrow> heap \<times> chain \<Rightarrow> heap \<times> chain \<times> chain" where
  "chain_move_assign this s =
    (case s of (h, other) \<Rightarrow>
      (case release_storage (chain_clear (h, this)) of
         (h1, c1) \<Rightarrow>
           (let size = ch_size other; other1 = other\<lparr>ch_size := 0\<rparr>
            in case ch_ext other of
                 None \<Rightarrow>
                   (case move_entries (ch_head other) 0 (ch_count other) (h1, ch_slots c1, ch_slots other) of
                      (h2, dst, src) \<Rightarrow>
                        (case chain_clear (h2, other1\<lparr>ch_slots := src\<rparr>) of
                           (h3, other3) \<Rightarrow>
                             (h3, c1\<lparr>ch_slots := dst, ch_count := ch_count other, ch_size := size\<rparr>,
                              other3)))
               | Some (res, d) \<Rightarrow>
                   (h1, c1\<lparr>ch_ext := Some (res, d), ch_head := ch_head other, ch_count := ch_count other,
                           ch_size := size\<rparr>,
                    other1\<lparr>ch_ext := None, ch_head := 0, ch_count := 0\<rparr>))))"

text \<open>The move constructor: a move into a new, empty chain.\<close>

definition chain_move :: "heap \<times> chain \<Rightarrow> heap \<times> chain \<times> chain" where
  "chain_move s = chain_move_assign empty_chain s"

text \<open>Copy assignment: copy, then move.\<close>

definition chain_copy_assign :: "chain \<Rightarrow> heap \<times> chain \<Rightarrow> heap \<times> chain option" where
  "chain_copy_assign this s =
    (case s of (h, other) \<Rightarrow>
      (case chain_copy (h, other) of
         (h1, None) \<Rightarrow> (h1, None)
       | (h1, Some cp) \<Rightarrow>
           (case chain_move_assign this (h1, cp) of
              (h2, c2, rest) \<Rightarrow> (chain_destroy (h2, rest), Some c2))))"

section \<open>The list of live entries\<close>

text \<open>What the operations do to the list of live handles, without the array.\<close>

definition append_refs :: "block_ref list \<Rightarrow> block_ref \<Rightarrow> block_ref list" where
  "append_refs rs r =
    (if \<not> ref_valid r \<or> ref_empty r then rs
     else if rs \<noteq> [] \<and> br_blk (last rs) = br_blk r \<and> br_end (last rs) = br_begin r
     then butlast rs @ [set_range (br_begin (last rs)) (br_end r) (last rs)]
     else rs @ [r])"

fun consume_refs :: "nat \<Rightarrow> block_ref list \<Rightarrow> block_ref list" where
  "consume_refs n [] = []"
| "consume_refs n (r # rs) =
    (if n = 0 then r # rs
     else if n < ref_size r then advance_begin n r # rs
     else consume_refs (n - ref_size r) rs)"

fun first_refs :: "block_ref list \<Rightarrow> nat \<Rightarrow> block_ref list \<Rightarrow> block_ref list" where
  "first_refs out len [] = out"
| "first_refs out len (r # rs) =
    (if len = 0 then out
     else (let tk = min (ref_size r) len
           in first_refs (append_refs out (set_range (br_begin r) (br_begin r + tk) r)) (len - tk) rs))"

definition refs_bytes :: "heap \<Rightarrow> block_ref list \<Rightarrow> byte list" where
  "refs_bytes h rs = concat (map (ref_bytes h) rs)"

definition refs_size :: "block_ref list \<Rightarrow> nat" where
  "refs_size rs = sum_list (map ref_size rs)"

definition chain_bytes :: "heap \<Rightarrow> chain \<Rightarrow> byte list" where
  "chain_bytes h c = refs_bytes h (ch_live c)"

text \<open>A handle with a block and at least one byte, whose window lies in the block.\<close>

definition ref_good :: "block_ref \<Rightarrow> bool" where
  "ref_good r \<longleftrightarrow> br_blk r \<noteq> None \<and> br_begin r < br_end r"

definition ref_fits :: "heap \<Rightarrow> block_ref \<Rightarrow> bool" where
  "ref_fits h r \<longleftrightarrow>
    (\<exists>b. br_blk r = Some b \<and> br_begin r \<le> br_end r \<and> br_end r \<le> length (block_data h b))"

lemma heap_inv_ref_fits:
  "heap_inv h R X \<Longrightarrow> r \<in># R \<Longrightarrow> br_blk r \<noteq> None \<Longrightarrow> ref_fits h r"
  by (auto simp: ref_fits_def block_data_def db_capacity_def elim: heap_inv_alive)

lemma ref_fits_length: "ref_fits h r \<Longrightarrow> length (ref_bytes h r) = ref_size r"
  by (auto simp: ref_fits_def ref_bytes_def ref_size_def length_slice)

lemma refs_bytes_simps [simp]:
  "refs_bytes h [] = []"
  "refs_bytes h (r # rs) = ref_bytes h r @ refs_bytes h rs"
  "refs_bytes h (rs @ ss) = refs_bytes h rs @ refs_bytes h ss"
  by (simp_all add: refs_bytes_def)

lemma refs_size_simps [simp]:
  "refs_size [] = 0" "refs_size (r # rs) = ref_size r + refs_size rs"
  "refs_size (rs @ ss) = refs_size rs + refs_size ss"
  by (simp_all add: refs_size_def)

lemma refs_bytes_length:
  "(\<And>r. r \<in> set rs \<Longrightarrow> ref_fits h r) \<Longrightarrow> length (refs_bytes h rs) = refs_size rs"
  by (induction rs) (simp_all add: ref_fits_length)

lemma refs_bytes_keeps:
  assumes "keeps R h h'" and "\<And>r. r \<in> set rs \<Longrightarrow> \<exists>q. q \<in># R \<and> br_blk q = br_blk r"
  shows "refs_bytes h' rs = refs_bytes h rs"
  using assms(2)
proof (induction rs)
  case Nil
  then show ?case by simp
next
  case (Cons r rs)
  obtain q where "q \<in># R" "br_blk q = br_blk r"
    using Cons.prems [of r] by auto
  then have "ref_bytes h' r = ref_bytes h r"
    using keeps_ref_bytes_blk [OF assms(1)] by simp
  with Cons show ?case by simp
qed

lemma ref_bytes_advance:
  "ref_bytes h (advance_begin n r) = drop n (ref_bytes h r)"
  by (simp add: ref_bytes_def advance_begin_def drop_slice split: option.splits)

lemma ref_bytes_prefix:
  assumes "ref_fits h r" and "n \<le> ref_size r"
  shows "ref_bytes h (set_range (br_begin r) (br_begin r + n) r) = take n (ref_bytes h r)"
  using assms by (auto simp: ref_bytes_def set_range_def ref_fits_def ref_size_def take_slice)

lemma ref_bytes_join:
  assumes "br_blk l = br_blk r" and "br_end l = br_begin r"
    and "br_begin l \<le> br_end l" and "br_begin r \<le> br_end r"
  shows "ref_bytes h (set_range (br_begin l) (br_end r) l) = ref_bytes h l @ ref_bytes h r"
  using assms by (auto simp: ref_bytes_def set_range_def slice_append split: option.splits)

lemma refs_bytes_append_refs:
  assumes "\<And>q. q \<in> set rs \<Longrightarrow> ref_good q" and "ref_valid r" and "br_begin r \<le> br_end r"
  shows "refs_bytes h (append_refs rs r) = refs_bytes h rs @ ref_bytes h r"
proof (cases rs rule: rev_exhaust)
  case Nil
  then show ?thesis
    using assms(2) by (auto simp: append_refs_def ref_empty_def ref_bytes_def split: option.splits)
next
  case (snoc ss l)
  have "ref_good l" using assms(1) snoc by simp
  then show ?thesis
    using assms(2,3) snoc ref_bytes_join [of l r h]
    by (auto simp: append_refs_def ref_good_def ref_empty_def ref_bytes_def split: option.splits)
qed

lemma refs_size_append_refs:
  assumes "\<And>q. q \<in> set rs \<Longrightarrow> ref_good q" and "ref_valid r" and "br_begin r \<le> br_end r"
  shows "refs_size (append_refs rs r) = refs_size rs + ref_size r"
proof (cases rs rule: rev_exhaust)
  case Nil
  then show ?thesis
    using assms(2) by (auto simp: append_refs_def ref_empty_def ref_size_def)
next
  case (snoc ss l)
  have "ref_good l" using assms(1) snoc by simp
  then show ?thesis
    using assms(2,3) snoc
    by (auto simp: append_refs_def ref_good_def ref_empty_def ref_size_def set_range_def)
qed

lemma append_refs_good:
  assumes "\<And>q. q \<in> set rs \<Longrightarrow> ref_good q" and "br_begin r \<le> br_end r" and "q \<in> set (append_refs rs r)"
  shows "ref_good q"
proof (cases rs rule: rev_exhaust)
  case Nil
  then show ?thesis
    using assms by (auto simp: append_refs_def ref_good_def ref_valid_def ref_empty_def split: if_splits)
next
  case (snoc ss l)
  have l: "ref_good l" and ss: "\<And>q. q \<in> set ss \<Longrightarrow> ref_good q"
    using assms(1) snoc by simp_all
  show ?thesis
  proof (cases "q \<in> set ss")
    case True
    then show ?thesis by (rule ss)
  next
    case False
    with l assms(2,3) snoc show ?thesis
      by (auto simp: append_refs_def ref_good_def ref_valid_def ref_empty_def set_range_def
          split: if_splits)
  qed
qed

lemma append_refs_blk:
  "q \<in> set (append_refs rs r) \<Longrightarrow> br_blk q = br_blk r \<or> (\<exists>p\<in>set rs. br_blk q = br_blk p)"
  by (cases rs rule: rev_exhaust)
     (auto simp: append_refs_def set_range_def split: if_splits)

lemma refs_bytes_consume_refs:
  "(\<And>r. r \<in> set rs \<Longrightarrow> ref_fits h r) \<Longrightarrow> refs_bytes h (consume_refs n rs) = drop n (refs_bytes h rs)"
proof (induction n rs rule: consume_refs.induct)
  case (1 n)
  then show ?case by simp
next
  case (2 n r rs)
  have len: "length (ref_bytes h r) = ref_size r"
    using "2.prems" by (simp add: ref_fits_length)
  show ?case
    using 2 len by (simp add: ref_bytes_advance)
qed

lemma consume_refs_good:
  "(\<And>r. r \<in> set rs \<Longrightarrow> ref_good r) \<Longrightarrow> q \<in> set (consume_refs n rs) \<Longrightarrow> ref_good q"
proof (induction n rs rule: consume_refs.induct)
  case (1 n)
  then show ?case by simp
next
  case (2 n r rs)
  have "ref_good r" using "2.prems"(1) by simp
  then have "n < ref_size r \<Longrightarrow> ref_good (advance_begin n r)"
    by (auto simp: ref_good_def advance_begin_def ref_size_def)
  with 2 show ?case by (auto split: if_splits)
qed

lemma consume_refs_blk:
  "q \<in> set (consume_refs n rs) \<Longrightarrow> \<exists>p\<in>set rs. br_blk p = br_blk q"
  by (induction n rs rule: consume_refs.induct) (auto simp: advance_begin_def split: if_splits)

lemma refs_size_consume_refs: "n \<le> refs_size rs \<Longrightarrow> refs_size (consume_refs n rs) = refs_size rs - n"
  by (induction n rs rule: consume_refs.induct)
     (auto simp: ref_size_def advance_begin_def)

lemma refs_bytes_first_refs:
  assumes "\<And>q. q \<in> set out \<Longrightarrow> ref_good q" and "\<And>r. r \<in> set rs \<Longrightarrow> ref_good r \<and> ref_fits h r"
  shows "refs_bytes h (first_refs out len rs) = refs_bytes h out @ take len (refs_bytes h rs)"
  using assms
proof (induction out len rs rule: first_refs.induct)
  case (1 out len)
  then show ?case by simp
next
  case (2 out len r rs)
  show ?case
  proof (cases "len = 0")
    case False
    let ?tk = "min (ref_size r) len"
    let ?piece = "set_range (br_begin r) (br_begin r + ?tk) r"
    have r: "ref_good r" "ref_fits h r" using "2.prems"(2) by auto
    have piece: "ref_valid ?piece" "br_begin ?piece \<le> br_end ?piece"
      using r by (auto simp: set_range_def ref_valid_def ref_good_def)
    have "refs_bytes h (first_refs (append_refs out ?piece) (len - ?tk) rs)
        = refs_bytes h (append_refs out ?piece) @ take (len - ?tk) (refs_bytes h rs)"
      using "2.prems" append_refs_good [OF _ piece(2)] False
      by (intro "2.IH") auto
    also have "refs_bytes h (append_refs out ?piece) = refs_bytes h out @ take ?tk (ref_bytes h r)"
      using refs_bytes_append_refs [OF "2.prems"(1) piece] ref_bytes_prefix [OF r(2)] by simp
    finally show ?thesis
      using False ref_fits_length [OF r(2)]
      by (cases "ref_size r \<le> len") (simp_all add: Let_def min_def)
  qed simp
qed

lemma first_refs_good:
  "(\<And>q. q \<in> set out \<Longrightarrow> ref_good q) \<Longrightarrow> q \<in> set (first_refs out len rs) \<Longrightarrow> ref_good q"
proof (induction out len rs rule: first_refs.induct)
  case (1 out len)
  then show ?case by simp
next
  case (2 out len r rs)
  let ?piece = "set_range (br_begin r) (br_begin r + min (ref_size r) len) r"
  have "ref_good p" if "p \<in> set (append_refs out ?piece)" for p
    using append_refs_good [OF "2.prems"(1) _ that] by (simp add: set_range_def)
  with 2 show ?case by (auto simp: Let_def split: if_splits)
qed

lemma first_refs_blk:
  "q \<in> set (first_refs out len rs) \<Longrightarrow> (\<exists>p\<in>set out \<union> set rs. br_blk q = br_blk p)"
proof (induction out len rs rule: first_refs.induct)
  case (1 out len)
  then show ?case by auto
next
  case (2 out len r rs)
  then show ?case
    by (fastforce simp: Let_def set_range_def dest: append_refs_blk split: if_splits)
qed

end
