(* ===== verification/Chain_Refine.thy ===== *)
theory Chain_Refine
  imports Chain
begin

text \<open>
  The array operations of \<open>BlockChain\<close> refine the list operations: under the shape invariant of the
  array, every operation keeps the shape, the heap invariant (reference counts, ledger) and the bytes
  of every handle that remains, and changes the list of live handles as \<open>append_refs\<close>,
  \<open>consume_refs\<close> and \<open>first_refs\<close> say.
\<close>

section \<open>The shape of a chain\<close>

definition all_null :: "block_ref list \<Rightarrow> bool" where
  "all_null d \<longleftrightarrow> (\<forall>r\<in>set d. br_blk r = None)"

definition chain_shape :: "chain \<Rightarrow> bool" where
  "chain_shape c \<longleftrightarrow>
    length (ch_slots c) = kInline \<and> kInline \<le> ch_capacity c \<and>
    (\<not> inline_storage c \<longrightarrow> all_null (ch_slots c)) \<and>
    ch_head c + ch_count c \<le> ch_capacity c \<and>
    all_null (take (ch_head c) (ch_data c)) \<and>
    all_null (drop (ch_head c + ch_count c) (ch_data c)) \<and>
    (\<forall>r\<in>set (ch_live c). ref_good r)"

definition chain_ok :: "chain \<Rightarrow> bool" where
  "chain_ok c \<longleftrightarrow> chain_shape c \<and> ch_size c = refs_size (ch_live c)"

definition chain_units :: "chain \<Rightarrow> alloc_unit multiset" where
  "chain_units c =
    (case ch_ext c of None \<Rightarrow> {#} | Some (res, d) \<Rightarrow> {#Entries_Alloc res (length d)#})"

lemma all_null_simps [simp]:
  "all_null []" "all_null (r # rs) \<longleftrightarrow> br_blk r = None \<and> all_null rs"
  "all_null (rs @ ss) \<longleftrightarrow> all_null rs \<and> all_null ss"
  "all_null (replicate n ref_null)" "all_null (map ref_moved rs)"
  by (auto simp: all_null_def ref_null_def ref_moved_def)

lemma ref_null_blk [simp]: "br_blk ref_null = None" "br_blk (ref_moved r) = None"
  by (simp_all add: ref_null_def ref_moved_def)

lemma ref_drop_null [simp]: "br_blk r = None \<Longrightarrow> ref_drop r h = h"
  by (simp add: ref_drop_def)

lemma fold_ref_drop_null: "all_null d \<Longrightarrow> fold ref_drop d h = h"
  by (induction d) simp_all

lemma ch_set_data_simps [chain_simps]:
  "ch_data (ch_set_data d c) = d" "ch_head (ch_set_data d c) = ch_head c"
  "ch_count (ch_set_data d c) = ch_count c" "ch_size (ch_set_data d c) = ch_size c"
  "inline_storage (ch_set_data d c) = inline_storage c"
  by (simp_all add: ch_set_data_def ch_data_def inline_storage_def split: option.splits prod.splits)

lemma ch_data_update [chain_simps]:
  "ch_data (c\<lparr>ch_head := a\<rparr>) = ch_data c" "ch_data (c\<lparr>ch_count := a\<rparr>) = ch_data c"
  "ch_data (c\<lparr>ch_size := a\<rparr>) = ch_data c"
  "inline_storage (c\<lparr>ch_head := a\<rparr>) = inline_storage c"
  "inline_storage (c\<lparr>ch_count := a\<rparr>) = inline_storage c"
  "inline_storage (c\<lparr>ch_size := a\<rparr>) = inline_storage c"
  by (simp_all add: ch_data_def inline_storage_def split: option.splits)

lemma chain_units_update [chain_simps]:
  "chain_units (c\<lparr>ch_head := a\<rparr>) = chain_units c" "chain_units (c\<lparr>ch_count := a\<rparr>) = chain_units c"
  "chain_units (c\<lparr>ch_size := a\<rparr>) = chain_units c"
  "length d = ch_capacity c \<Longrightarrow> chain_units (ch_set_data d c) = chain_units c"
  by (auto simp: chain_units_def ch_capacity_def ch_data_def ch_set_data_def split: option.splits)

lemma ch_slots_set_data [chain_simps]:
  "ch_slots (ch_set_data d c) = (if inline_storage c then d else ch_slots c)"
  by (simp add: ch_set_data_def inline_storage_def split: option.splits prod.splits)

text \<open>With inline storage the array is the inline one, so its length is the capacity.\<close>

lemma inline_data: "inline_storage c \<Longrightarrow> ch_data c = ch_slots c"
  by (simp add: ch_data_def inline_storage_def)

lemma chain_shape_intro:
  assumes "length (ch_slots c) = kInline" "kInline \<le> length d"
    and "inline_storage c \<Longrightarrow> length d = kInline" "\<not> inline_storage c \<Longrightarrow> all_null (ch_slots c)"
    and "i + n \<le> length d" "all_null (take i d)" "all_null (drop (i + n) d)"
    and "\<forall>r\<in>set (take n (drop i d)). ref_good r"
  shows "chain_shape ((ch_set_data d c)\<lparr>ch_head := i, ch_count := n, ch_size := k\<rparr>)"
  using assms unfolding chain_shape_def ch_live_def ch_capacity_def
  by (simp add: chain_simps)

lemma chain_shape_parts:
  assumes "chain_shape c"
  shows "length (ch_slots c) = kInline" "kInline \<le> length (ch_data c)"
    "inline_storage c \<Longrightarrow> length (ch_data c) = kInline"
    "\<not> inline_storage c \<Longrightarrow> all_null (ch_slots c)"
    "ch_head c + ch_count c \<le> length (ch_data c)"
    "all_null (take (ch_head c) (ch_data c))"
    "all_null (drop (ch_head c + ch_count c) (ch_data c))"
    "\<forall>r\<in>set (ch_live c). ref_good r"
  using assms by (auto simp: chain_shape_def ch_capacity_def inline_data)

lemma length_ch_live: "chain_shape c \<Longrightarrow> length (ch_live c) = ch_count c"
  by (auto simp: ch_live_def dest: chain_shape_parts(5))

lemma ch_live_nth:
  "chain_shape c \<Longrightarrow> i < ch_count c \<Longrightarrow> ch_live c ! i = ch_data c ! (ch_head c + i)"
  using chain_shape_parts(5) [of c] by (simp add: ch_live_def)

lemma chain_ok_empty [simp]: "chain_ok empty_chain" "ch_live empty_chain = []"
  "chain_units empty_chain = {#}" "chain_shape empty_chain" "ch_size empty_chain = 0"
  "ch_count empty_chain = 0" "ch_head empty_chain = 0" "ch_ext empty_chain = None"
  by (simp_all add: chain_ok_def chain_shape_def empty_chain_def ch_live_def ch_capacity_def
      ch_data_def inline_storage_def kInline_def chain_units_def)

lemma chain_ok_head_first:
  "chain_shape c \<Longrightarrow> 0 < ch_count c \<Longrightarrow> ch_live c = ch_data c ! ch_head c # tl (ch_live c)"
  using chain_shape_parts(5) [of c]
  by (cases "ch_count c") (simp_all add: ch_live_def take_drop_Cons)

section \<open>Loops over slots\<close>

lemma reset_slots_correct:
  assumes "reset_slots i n (h, d) = (h', d')" and "i + n \<le> length d"
    and "heap_inv h (mset (take n (drop i d)) + R) X"
  shows "heap_inv h' R X" and "keeps R h h'"
    and "d' = take i d @ replicate n ref_null @ drop (i + n) d"
proof -
  have "heap_inv h' R X \<and> keeps R h h' \<and> d' = take i d @ replicate n ref_null @ drop (i + n) d"
    using assms
  proof (induction n arbitrary: i h d)
    case 0
    then show ?case by simp
  next
    case (Suc n)
    let ?d = "d[i := ref_null]"
    let ?S = "mset (take n (drop (Suc i) d)) + R"
    have inv: "heap_inv h (add_mset (d ! i) ?S) X"
      using Suc.prems by (simp add: take_drop_Cons add.assoc)
    note drop = heap_inv_ref_drop [OF inv]
    have "drop (Suc i) ?d = drop (Suc i) d" by simp
    then have "heap_inv h' R X \<and> keeps R (ref_drop (d ! i) h) h' \<and>
        d' = take (Suc i) ?d @ replicate n ref_null @ drop (Suc i + n) ?d"
      using Suc.prems drop(1)
      by (intro Suc.IH) (simp_all add: ref_reset_def)
    moreover have "take (Suc i) ?d = take i d @ [ref_null]"
      using Suc.prems(2) by (simp add: take_Suc_conv_app_nth)
    ultimately show ?case
      using drop(2) by (auto intro: keeps_trans)
  qed
  then show "heap_inv h' R X" "keeps R h h'"
    "d' = take i d @ replicate n ref_null @ drop (i + n) d"
    by simp_all
qed

lemma reset_slots_null:
  "all_null (take n (drop i d)) \<Longrightarrow> i + n \<le> length d \<Longrightarrow>
    reset_slots i n (h, d) = (h, take i d @ replicate n ref_null @ drop (i + n) d)"
proof (induction n arbitrary: i d)
  case 0
  then show ?case by simp
next
  case (Suc n)
  let ?d = "d[i := ref_null]"
  have null: "br_blk (d ! i) = None" "all_null (take n (drop (Suc i) d))"
    using Suc.prems by (simp_all add: take_drop_Cons)
  have "reset_slots (Suc i) n (h, ?d)
      = (h, take (Suc i) ?d @ replicate n ref_null @ drop (Suc i + n) ?d)"
    using Suc.prems null(2) by (intro Suc.IH) simp_all
  moreover have "take (Suc i) ?d = take i d @ [ref_null]"
    using Suc.prems(2) by (simp add: take_Suc_conv_app_nth)
  ultimately show ?case
    using null(1) by (simp add: ref_reset_def)
qed

text \<open>
  Moving the live entries down: when the slots below them are null the heap does not change, the
  first \<open>n\<close> slots hold what was live, and everything after is null.
\<close>

lemma move_slot_null:
  "br_blk (d ! i) = None \<Longrightarrow> i \<noteq> j \<Longrightarrow> move_slot i j (h, d) = (h, d[i := d ! j, j := ref_moved (d ! j)])"
  by (simp add: move_slot_def ref_assign_move_def)

lemma shift_down_correct:
  assumes "0 < h0" and "i + h0 + n \<le> length d" and "all_null (take h0 (drop i d))"
  shows "\<exists>d'. shift_down h0 i n (h, d) = (h, d') \<and> length d' = length d \<and>
    take (i + n) d' = take i d @ take n (drop (h0 + i) d) \<and>
    all_null (take h0 (drop (i + n) d')) \<and> drop (i + n + h0) d' = drop (i + n + h0) d"
  using assms(2,3)
proof (induction n arbitrary: i d)
  case 0
  then show ?case by simp
next
  case (Suc n)
  let ?j = "h0 + i"
  let ?d = "d[i := d ! ?j, ?j := ref_moved (d ! ?j)]"
  have null: "br_blk (d ! i) = None"
    using Suc.prems assms(1)
    by (cases h0) (simp_all add: take_drop_Cons)
  have step: "move_slot i ?j (h, d) = (h, ?d)"
    using null assms(1) by (simp add: move_slot_null)
  have nulls: "br_blk (?d ! k) = None" if "Suc i \<le> k" "k < Suc i + h0" for k
  proof (cases "k = ?j")
    case True
    then show ?thesis using Suc.prems(1) by simp
  next
    case False
    then have "d ! k \<in> set (take h0 (drop i d))"
      using that Suc.prems(1)
      by (auto simp: set_conv_nth intro!: exI [of _ "k - i"])
    then show ?thesis
      using False that Suc.prems(2) by (simp add: all_null_def)
  qed
  have "all_null (take h0 (drop (Suc i) ?d))"
    unfolding all_null_def
  proof
    fix r assume "r \<in> set (take h0 (drop (Suc i) ?d))"
    then obtain k where "k < h0" "r = ?d ! (Suc i + k)"
      using Suc.prems(1) by (auto simp: in_set_conv_nth)
    then show "br_blk r = None" using nulls [of "Suc i + k"] by simp
  qed
  then obtain d' where d': "shift_down h0 (Suc i) n (h, ?d) = (h, d')" "length d' = length ?d"
      "take (Suc i + n) d' = take (Suc i) ?d @ take n (drop (h0 + Suc i) ?d)"
      "all_null (take h0 (drop (Suc i + n) d'))" "drop (Suc i + n + h0) d' = drop (Suc i + n + h0) ?d"
    using Suc.IH [of "Suc i" ?d] Suc.prems(1) by auto
  have "take (Suc i) ?d = take i d @ [d ! ?j]"
    using Suc.prems(1) assms(1) by (simp add: take_Suc_conv_app_nth nth_list_update)
  moreover have "drop (h0 + Suc i) ?d = drop (h0 + Suc i) d"
    using Suc.prems(1) by simp
  moreover have "take (Suc n) (drop ?j d) = d ! ?j # take n (drop (Suc ?j) d)"
    using Suc.prems(1) by (intro take_drop_Cons) simp
  moreover have "drop (Suc i + n + h0) ?d = drop (Suc i + n + h0) d"
    using Suc.prems(1) by simp
  ultimately show ?case
    using step d' by (intro exI [of _ d']) simp
qed

section \<open>Growing and appending\<close>

lemma release_storage_correct:
  assumes "all_null (ch_data c)" and "heap_inv h R (chain_units c + X)"
  shows "\<exists>h'. release_storage (h, c) = (h', c\<lparr>ch_ext := None\<rparr>) \<and> heap_inv h' R X \<and> keeps R h h'"
  using assms
  by (cases "ch_ext c")
     (auto simp: release_storage_def ch_data_def chain_units_def fold_ref_drop_null keeps_def
       block_data_deallocate intro: heap_inv_deallocate)

lemma chain_shift_correct:
  assumes shape: "chain_shape c" and "0 < ch_head c"
    and "chain_grow (h, c) = (ok, h', c')"
  shows "ok \<and> h' = h \<and> chain_shape c' \<and> ch_live c' = ch_live c \<and> ch_head c' = 0 \<and>
    ch_count c' = ch_count c \<and> ch_size c' = ch_size c \<and> ch_capacity c' = ch_capacity c \<and>
    chain_units c' = chain_units c"
proof -
  note p = chain_shape_parts [OF shape]
  let ?d = "ch_data c"
  obtain d' where d': "shift_down (ch_head c) 0 (ch_count c) (h, ?d) = (h, d')"
    "length d' = length ?d" "take (ch_count c) d' = take (ch_count c) (drop (ch_head c) ?d)"
    "all_null (take (ch_head c) (drop (ch_count c) d'))"
    "drop (ch_count c + ch_head c) d' = drop (ch_count c + ch_head c) ?d"
    using shift_down_correct [of "ch_head c" 0 "ch_count c" ?d h] assms(2) p(5,6)
    by (auto simp: add.commute)
  have "drop (ch_count c) d' = take (ch_head c) (drop (ch_count c) d') @ drop (ch_count c + ch_head c) d'"
    by (metis append_take_drop_id drop_drop add.commute)
  then have "all_null (drop (ch_count c) d')"
    using d'(4,5) p(7) by (metis all_null_simps(3) add.commute)
  then have shape': "chain_shape ((ch_set_data d' c)\<lparr>ch_head := 0, ch_count := ch_count c, ch_size := ch_size c\<rparr>)"
    using p d'(2,3) by (intro chain_shape_intro) (simp_all add: ch_live_def)
  have eq: "(ch_set_data d' c)\<lparr>ch_head := 0, ch_count := ch_count c, ch_size := ch_size c\<rparr>
      = (ch_set_data d' c)\<lparr>ch_head := 0\<rparr>"
    by (simp add: ch_set_data_def split: option.splits prod.splits)
  have "ok \<and> h' = h \<and> c' = (ch_set_data d' c)\<lparr>ch_head := 0\<rparr>"
    using assms(2,3) d'(1) by (simp add: chain_grow_def)
  with shape' [unfolded eq] d'(2,3) show ?thesis
    by (simp add: ch_live_def ch_capacity_def chain_simps)
qed

lemma chain_double_correct:
  assumes shape: "chain_shape c" and "ch_head c = 0" and full: "ch_count c = ch_capacity c"
    and inv: "heap_inv h (mset (ch_live c) + R) (chain_units c + X)"
    and grow: "chain_grow (h, c) = (ok, h', c')"
  shows "if ok then chain_shape c' \<and> ch_live c' = ch_live c \<and> ch_head c' = 0 \<and>
      ch_count c' = ch_count c \<and> ch_size c' = ch_size c \<and> ch_capacity c' = 2 * ch_capacity c \<and>
      heap_inv h' (mset (ch_live c) + R) (chain_units c' + X) \<and> keeps (mset (ch_live c) + R) h h'
    else c' = c \<and> heap_inv h' (mset (ch_live c) + R) (chain_units c + X) \<and>
      keeps (mset (ch_live c) + R) h h'"
proof -
  note p = chain_shape_parts [OF shape]
  let ?d = "ch_data c" and ?n = "ch_count c"
  let ?res = "the (block_resource h (?d ! 0))"
  let ?u = "Entries_Alloc ?res (ch_capacity c * 2)"
  have live: "ch_live c = ?d" "length ?d = ?n"
    using assms(2) full by (simp_all add: ch_live_def ch_capacity_def)
  obtain g h1 where al: "res_allocate ?u h = (g, h1)" by fastforce
  show ?thesis
  proof (cases g)
    case False
    then have "\<not> ok \<and> c' = c \<and> h' = h1"
      using grow al assms(2) by (simp add: chain_grow_def Let_def)
    then show ?thesis
      using False al heap_inv_refused [OF inv] keeps_allocate by auto
  next
    case True
    have al': "res_allocate ?u h = (True, h1)" using al True by simp
    let ?left = "map ref_moved ?d" and ?fresh = "?d @ replicate ?n ref_null"
    have reset: "reset_slots 0 ?n (h1, ?left) = (h1, replicate ?n ref_null)"
      using reset_slots_null [of ?n 0 ?left h1] live by simp
    have inv1: "heap_inv h1 (mset (ch_live c) + R) (chain_units (ch_set_data (replicate ?n ref_null) c)
        + add_mset ?u X)"
      using heap_inv_granted [OF inv al'] live(2)
      by (simp add: chain_simps ch_capacity_def)
    obtain h3 where rel: "release_storage (h1, ch_set_data (replicate ?n ref_null) c)
        = (h3, (ch_set_data (replicate ?n ref_null) c)\<lparr>ch_ext := None\<rparr>)"
      "heap_inv h3 (mset (ch_live c) + R) (add_mset ?u X)" "keeps (mset (ch_live c) + R) h1 h3"
      using release_storage_correct [OF _ inv1] by (auto simp: chain_simps)
    let ?c = "(ch_set_data (replicate ?n ref_null) c)\<lparr>ch_ext := Some (?res, ?fresh)\<rparr>"
    have cap: "ch_capacity c * 2 - ?n = ?n"
      using live(2) by (simp add: ch_capacity_def)
    have res: "ok" "h' = h3" "c' = ?c"
      using grow al' assms(2) reset rel(1) live cap
      by (simp_all add: chain_grow_def Let_def)
    have data: "ch_data ?c = ?fresh" "ch_head ?c = 0" "ch_count ?c = ?n" "ch_size ?c = ch_size c"
      using assms(2) by (simp_all add: ch_data_def ch_set_data_simps)
    have slots: "length (ch_slots ?c) = kInline" "all_null (ch_slots ?c)" "\<not> inline_storage ?c"
      using p(1,3,4) live(2)
      by (auto simp: chain_simps inline_storage_def ch_set_data_def split: option.splits)
    have "chain_shape ?c"
      using slots data live p(2,8) by (simp add: chain_shape_def ch_live_def ch_capacity_def)
    moreover have "chain_units ?c = {#?u#}"
      using live by (simp add: chain_units_def ch_capacity_def mult_2_right)
    ultimately show ?thesis
      using res data live rel(2,3) keeps_trans [OF keeps_allocate [OF al] rel(3)]
      by (simp add: ch_live_def ch_capacity_def)
  qed
qed

text \<open>Either way \<open>grow()\<close> of a full array leaves room for one more entry, or throws and changes nothing.\<close>

lemma chain_grow_correct:
  assumes shape: "chain_shape c" and full: "ch_head c + ch_count c = ch_capacity c"
    and inv: "heap_inv h (mset (ch_live c) + R) (chain_units c + X)"
    and grow: "chain_grow (h, c) = (ok, h', c')"
  shows "chain_shape c' \<and> ch_live c' = ch_live c \<and> ch_count c' = ch_count c \<and> ch_size c' = ch_size c \<and>
      (ok \<longrightarrow> ch_head c' + ch_count c' < ch_capacity c') \<and>
      heap_inv h' (mset (ch_live c) + R) (chain_units c' + X) \<and> keeps (mset (ch_live c) + R) h h'"
proof (cases "0 < ch_head c")
  case True
  then show ?thesis
    using chain_shift_correct [OF shape True grow] full inv by auto
next
  case False
  moreover have "0 < ch_capacity c"
    using chain_shape_parts(2) [OF shape]
    by (cases "ch_data c") (simp_all add: ch_capacity_def kInline_def)
  ultimately show ?thesis
    using chain_double_correct [OF shape _ _ inv grow] full shape by (auto split: if_splits)
qed

lemma chain_push_back_correct:
  assumes shape: "chain_shape c" and r: "ref_good r"
    and inv: "heap_inv h (add_mset r (mset (ch_live c) + R)) (chain_units c + X)"
    and push: "chain_push_back r (h, c) = (ok, h', c')"
  shows "chain_shape c' \<and> ch_live c' = ch_live c @ (if ok then [r] else []) \<and> ch_size c' = ch_size c \<and>
      heap_inv h' (mset (ch_live c') + R) (chain_units c' + X) \<and>
      keeps (mset (ch_live c') + R) h h'"
proof -
  let ?full = "ch_head c + ch_count c = ch_capacity c"
  have inv': "heap_inv h (mset (ch_live c) + add_mset r R) (chain_units c + X)"
    using inv by simp
  obtain g h1 c1 where g: "(if ?full then chain_grow (h, c) else (True, h, c)) = (g, h1, c1)"
    by (metis prod.exhaust)
  have one: "chain_shape c1 \<and> ch_live c1 = ch_live c \<and> ch_count c1 = ch_count c \<and>
      ch_size c1 = ch_size c \<and> (g \<longrightarrow> ch_head c1 + ch_count c1 < ch_capacity c1) \<and>
      heap_inv h1 (mset (ch_live c) + add_mset r R) (chain_units c1 + X) \<and>
      keeps (mset (ch_live c) + add_mset r R) h h1"
  proof (cases ?full)
    case True
    with g have "chain_grow (h, c) = (g, h1, c1)" by simp
    then show ?thesis
      using chain_grow_correct [OF shape True inv'] by blast
  next
    case False
    then show ?thesis
      using g shape inv' chain_shape_parts(5) [OF shape] by (auto simp: ch_capacity_def)
  qed
  show ?thesis
  proof (cases g)
    case False
    then have res: "\<not> ok" "h' = ref_drop r h1" "c' = c1"
      using push g by (simp_all add: chain_push_back_def)
    have "heap_inv h1 (add_mset r (mset (ch_live c) + R)) (chain_units c1 + X)"
      using one by simp
    note drop = heap_inv_ref_drop [OF this]
    have "keeps (mset (ch_live c) + R) h h1"
      using one by simp
    from keeps_trans [OF this drop(2)] show ?thesis
      using one res drop(1) by simp
  next
    case True
    let ?i = "ch_head c1 + ch_count c1"
    let ?d = "(ch_data c1)[?i := r]"
    have lt: "?i < length (ch_data c1)"
      using one True by (simp add: ch_capacity_def)
    note p = chain_shape_parts [of c1]
    have "drop ?i (ch_data c1) = ch_data c1 ! ?i # drop (Suc ?i) (ch_data c1)"
      using lt by (simp add: Cons_nth_drop_Suc)
    then have null: "br_blk (ch_data c1 ! ?i) = None" "all_null (drop (Suc ?i) (ch_data c1))"
      using p(7) one by simp_all
    have res: "ok" "h' = h1" "c' = (ch_set_data ?d c1)\<lparr>ch_count := Suc (ch_count c1)\<rparr>"
      using push g True null by (simp_all add: chain_push_back_def ref_assign_move_def Let_def)
    have live': "take (Suc (ch_count c1)) (drop (ch_head c1) ?d) = ch_live c1 @ [r]"
      using lt by (simp add: take_drop_update ch_live_def)
    have "drop (Suc ?i) ?d = drop (Suc ?i) (ch_data c1)" by simp
    then have "chain_shape ((ch_set_data ?d c1)\<lparr>ch_head := ch_head c1,
        ch_count := Suc (ch_count c1), ch_size := ch_size c1\<rparr>)"
      using p one lt live' r null(2) by (intro chain_shape_intro) auto
    moreover have "(ch_set_data ?d c1)\<lparr>ch_head := ch_head c1, ch_count := Suc (ch_count c1),
        ch_size := ch_size c1\<rparr> = c'"
      using res by (simp add: ch_set_data_def split: option.splits prod.splits)
    moreover have f: "ch_data c' = ?d" "ch_head c' = ch_head c1" "ch_count c' = Suc (ch_count c1)"
      "ch_size c' = ch_size c1" "chain_units c' = chain_units c1"
      unfolding res(3) by (simp_all add: chain_simps ch_capacity_def)
    moreover have "ch_live c' = ch_live c1 @ [r]"
      unfolding ch_live_def [of c'] f using live' by simp
    ultimately show ?thesis
      using one res(1,2) by simp
  qed
qed

lemma heap_inv_window:
  assumes "heap_inv h (add_mset r R) X" and "br_blk r' = br_blk r" and "window_ok (h_blocks h) r'"
  shows "heap_inv h (add_mset r' R) X"
proof -
  have "counts_ok m (add_mset r' R) = counts_ok m (add_mset r R)" for m
    unfolding counts_ok_def refs_to_add_mset assms(2) ..
  then show ?thesis using assms by (simp add: heap_inv_def)
qed

lemma window_okI:
  "ref_fits h r \<Longrightarrow> window_ok (h_blocks h) r"
  by (auto simp: ref_fits_def window_ok_def block_data_def db_capacity_def)

text \<open>Replacing one live entry by another good one of the same chain keeps the shape.\<close>

lemma chain_shape_update:
  assumes shape: "chain_shape c" and i: "i < ch_count c" and r: "ref_good r"
  shows "chain_shape (ch_set_data ((ch_data c)[ch_head c + i := r]) c)"
    and "ch_live (ch_set_data ((ch_data c)[ch_head c + i := r]) c) = (ch_live c)[i := r]"
proof -
  note p = chain_shape_parts [OF shape]
  let ?d = "(ch_data c)[ch_head c + i := r]"
  have live: "take (ch_count c) (drop (ch_head c) ?d) = (ch_live c)[i := r]"
    using p(5) i by (simp add: ch_live_def drop_update_swap take_update_swap)
  have "\<forall>q\<in>set ((ch_live c)[i := r]). ref_good q"
    using p(8) r by (auto dest: set_update_subset_insert [THEN subsetD])
  then have "chain_shape ((ch_set_data ?d c)\<lparr>ch_head := ch_head c, ch_count := ch_count c, ch_size := ch_size c\<rparr>)"
    using p i live by (intro chain_shape_intro) auto
  moreover have "(ch_set_data ?d c)\<lparr>ch_head := ch_head c, ch_count := ch_count c, ch_size := ch_size c\<rparr>
      = ch_set_data ?d c"
    by (simp add: ch_set_data_def split: option.splits prod.splits)
  ultimately show "chain_shape (ch_set_data ?d c)" by simp
  show "ch_live (ch_set_data ?d c) = (ch_live c)[i := r]"
    unfolding ch_live_def [of "ch_set_data ?d c"] ch_set_data_simps live ..
qed

lemma chain_shape_size [simp]:
  "chain_shape (c\<lparr>ch_size := k\<rparr>) = chain_shape c" "ch_live (c\<lparr>ch_size := k\<rparr>) = ch_live c"
  by (simp_all add: chain_shape_def ch_live_def ch_capacity_def chain_simps)

lemma set_data_size: "ch_set_data d (c\<lparr>ch_size := k\<rparr>) = (ch_set_data d c)\<lparr>ch_size := k\<rparr>"
  by (simp add: ch_set_data_def split: option.splits prod.splits)

lemma chain_append_correct:
  assumes ok: "chain_ok c"
    and inv: "heap_inv h (add_mset r (mset (ch_live c) + R)) (chain_units c + X)"
    and app: "chain_append r (h, c) = (res, h', c')"
  shows "chain_shape c' \<and> ch_live c' = (if res then append_refs (ch_live c) r else ch_live c) \<and>
      (res \<longrightarrow> chain_ok c') \<and> (\<not> res \<longrightarrow> ch_size c' = ch_size c + ref_size r \<and> 0 < ref_size r) \<and>
      heap_inv h' (mset (ch_live c') + R) (chain_units c' + X) \<and>
      keeps (mset (ch_live c') + R) h h'"
proof -
  have shape: "chain_shape c" and size: "ch_size c = refs_size (ch_live c)"
    using ok by (simp_all add: chain_ok_def)
  note p = chain_shape_parts [OF shape]
  show ?thesis
  proof (cases "\<not> ref_valid r \<or> ref_empty r")
    case True
    then have "res" "h' = ref_drop r h" "c' = c"
      using app by (simp_all add: chain_append_def)
    moreover have "append_refs (ch_live c) r = ch_live c"
      using True by (simp add: append_refs_def)
    ultimately show ?thesis
      using ok shape heap_inv_ref_drop [OF inv] by simp
  next
    case False
    have "ref_fits h r"
      using heap_inv_ref_fits [OF inv, of r] False by (auto simp: ref_valid_def)
    then have good: "ref_good r"
      using False by (auto simp: ref_fits_def ref_good_def ref_empty_def)
    let ?i = "ch_count c - 1"
    let ?l = "ch_data c ! (ch_head c + ch_count c - 1)"
    let ?merge = "0 < ch_count c \<and> br_blk ?l = br_blk r \<and> br_end ?l = br_begin r"
    have last: "0 < ch_count c \<Longrightarrow> last (ch_live c) = ?l \<and> ch_live c \<noteq> []"
      using length_ch_live [OF shape] ch_live_nth [OF shape, of ?i]
      by (cases "ch_live c = []") (auto simp: last_conv_nth)
    show ?thesis
    proof (cases ?merge)
      case True
      let ?l' = "set_range (br_begin ?l) (br_end r) ?l"
      let ?c = "ch_set_data ((ch_data c)[ch_head c + ?i := ?l']) c"
      have i: "?i < ch_count c" "ch_head c + ch_count c - 1 = ch_head c + ?i"
        using True by auto
      obtain ss where ss: "ch_live c = ss @ [?l]"
        using last True by (metis append_butlast_last_id)
      have l: "ref_good ?l" using p(8) ss by simp
      have len: "length ss = ?i"
        using length_ch_live [OF shape] ss by simp
      have live': "ch_live ?c = ss @ [?l']" "chain_shape ?c"
        using chain_shape_update [OF shape i(1), of ?l'] l good ss len True
        by (auto simp: ref_good_def set_range_def list_update_append)
      have res: "res" "h' = ref_drop r h" "c' = ?c\<lparr>ch_size := ch_size c + ref_size r\<rparr>"
        using app False True i(2) by (simp_all add: chain_append_def Let_def set_data_size)
      have inv2: "heap_inv h (add_mset r (mset (ch_live ?c) + R)) (chain_units c + X)"
      proof -
        have "ref_fits h ?l'"
          using \<open>ref_fits h r\<close> True l good by (auto simp: ref_fits_def set_range_def ref_good_def)
        moreover have "heap_inv h (add_mset ?l (add_mset r (mset ss + R))) (chain_units c + X)"
          using inv ss by (simp add: add_mset_commute)
        ultimately have "heap_inv h (add_mset ?l' (add_mset r (mset ss + R))) (chain_units c + X)"
          using heap_inv_window [of h ?l _ _ ?l'] window_okI by (simp add: set_range_def)
        then show ?thesis using live'(1) by (simp add: add_mset_commute)
      qed
      have refs: "append_refs (ch_live c) r = ss @ [?l']"
        using ss False True by (simp add: append_refs_def)
      have "refs_size (ss @ [?l']) = ch_size c + ref_size r"
        using size ss True l good by (auto simp: set_range_def ref_size_def ref_good_def)
      moreover have "chain_units c' = chain_units c"
        using res(3) by (simp add: chain_simps ch_capacity_def)
      ultimately show ?thesis
        using res live' refs heap_inv_ref_drop [OF inv2] by (simp add: chain_ok_def)
    next
      case nomerge: False
      let ?c = "c\<lparr>ch_size := ch_size c + ref_size r\<rparr>"
      have push: "chain_push_back r (h, ?c) = (res, h', c')"
        using app False nomerge by (auto simp: chain_append_def Let_def)
      have "append_refs (ch_live c) r = ch_live c @ [r]"
        using False nomerge last length_ch_live [OF shape]
        by (cases "0 < ch_count c") (auto simp: append_refs_def)
      moreover have "ref_size r > 0"
        using good by (simp add: ref_size_def ref_good_def)
      ultimately show ?thesis
        using chain_push_back_correct [OF _ good _ push, of R X] shape inv size
        by (auto simp: chain_ok_def chain_simps)
    qed
  qed
qed

section \<open>Consuming\<close>

lemma chain_shape_pop:
  assumes shape: "chain_shape c" and pos: "0 < ch_count c"
  defines "c1 \<equiv> (ch_set_data ((ch_data c)[ch_head c := ref_null]) c)
                  \<lparr>ch_head := Suc (ch_head c), ch_count := ch_count c - 1\<rparr>"
  shows "chain_shape c1" and "ch_live c = ch_data c ! ch_head c # ch_live c1"
    and "ch_size c1 = ch_size c" and "chain_units c1 = chain_units c"
proof -
  note p = chain_shape_parts [OF shape]
  let ?d = "(ch_data c)[ch_head c := ref_null]"
  have lt: "ch_head c < length (ch_data c)" using p(5) pos by simp
  have live1: "take (ch_count c - 1) (drop (Suc (ch_head c)) ?d) = tl (ch_live c)"
    using lt pos by (cases "ch_count c") (simp_all add: ch_live_def take_drop_Cons)
  have t: "take (Suc (ch_head c)) ?d = take (ch_head c) (ch_data c) @ [ref_null]"
    using lt by (simp add: take_Suc_conv_app_nth)
  have e: "Suc (ch_head c) + (ch_count c - 1) = ch_head c + ch_count c"
    using pos by simp
  have "drop (ch_head c + ch_count c) ?d = drop (ch_head c + ch_count c) (ch_data c)"
    using pos by simp
  moreover have "\<forall>r\<in>set (tl (ch_live c)). ref_good r"
    using p(8) by (cases "ch_live c") auto
  ultimately have "chain_shape ((ch_set_data ?d c)\<lparr>ch_head := Suc (ch_head c),
      ch_count := ch_count c - 1, ch_size := ch_size c\<rparr>)"
    using p t live1 e pos by (intro chain_shape_intro) auto
  moreover have eq: "(ch_set_data ?d c)\<lparr>ch_head := Suc (ch_head c), ch_count := ch_count c - 1,
      ch_size := ch_size c\<rparr> = c1"
    by (simp add: c1_def ch_set_data_def split: option.splits prod.splits)
  ultimately show "chain_shape c1" by (simp only:)
  have f: "ch_data c1 = ?d" "ch_head c1 = Suc (ch_head c)" "ch_count c1 = ch_count c - 1"
    by (simp_all add: c1_def chain_simps)
  have "ch_live c1 = tl (ch_live c)"
    unfolding ch_live_def [of c1] f by (rule live1)
  then show "ch_live c = ch_data c ! ch_head c # ch_live c1"
    using chain_ok_head_first [OF shape pos] by simp
  show "ch_size c1 = ch_size c" "chain_units c1 = chain_units c"
    by (simp_all add: c1_def chain_simps ch_capacity_def)
qed

lemma ref_good_size: "ref_good r \<Longrightarrow> 0 < ref_size r"
  by (simp add: ref_good_def ref_size_def)

lemma consume_loop_correct:
  assumes "chain_shape c" and "n \<le> refs_size (ch_live c)"
    and "heap_inv h (mset (ch_live c) + R) X"
  shows "\<exists>h' c'. consume_loop n (h, c) = Some (h', c') \<and> chain_shape c' \<and>
      ch_live c' = consume_refs n (ch_live c) \<and> ch_size c' = ch_size c \<and>
      chain_units c' = chain_units c \<and> heap_inv h' (mset (ch_live c') + R) X \<and>
      keeps (mset (ch_live c') + R) h h'"
  using assms
proof (induction n "(h, c)" arbitrary: h c rule: consume_loop.induct)
  case (1 n h c)
  show ?case
  proof (cases "n = 0")
    case True
    then show ?thesis using "1.prems" by (cases "ch_live c") simp_all
  next
    case False
    then have "ch_live c \<noteq> []" using "1.prems"(2) by auto
    then have pos: "0 < ch_count c"
      using length_ch_live [OF "1.prems"(1)] by (metis length_greater_0_conv)
    let ?f = "ch_data c ! ch_head c"
    let ?c1 = "(ch_set_data ((ch_data c)[ch_head c := ref_null]) c)
                 \<lparr>ch_head := Suc (ch_head c), ch_count := ch_count c - 1\<rparr>"
    note pop = chain_shape_pop [OF "1.prems"(1) pos]
    have f: "ref_good ?f"
      using chain_shape_parts(8) [OF "1.prems"(1)] pop(2) by simp
    have guard: "\<not> (ch_count c = 0 \<or> ch_capacity c \<le> ch_head c)"
      using pos chain_shape_parts(5) [OF "1.prems"(1)] by (simp add: ch_capacity_def)
    show ?thesis
    proof (cases "n < ref_size ?f")
      case True
      let ?a = "advance_begin n ?f"
      let ?c = "ch_set_data ((ch_data c)[ch_head c + 0 := ?a]) c"
      have a: "ref_good ?a"
        using f True by (auto simp: ref_good_def advance_begin_def ref_size_def)
      have live: "ch_live ?c = ?a # ch_live ?c1"
        using chain_shape_update(2) [OF "1.prems"(1) pos a] pop(2) by simp
      have "ref_fits h ?a"
        using heap_inv_ref_fits [OF "1.prems"(3), of ?f] pop(2) f True
        by (auto simp: ref_fits_def advance_begin_def ref_size_def ref_good_def)
      then have "heap_inv h (add_mset ?a (mset (ch_live ?c1) + R)) X"
        using "1.prems"(3) pop(2) heap_inv_window [of h ?f _ X ?a] window_okI
        by (simp add: advance_begin_def)
      moreover have "consume_loop n (h, c) = Some (h, ?c)"
        using False guard True by (subst consume_loop.simps) (simp add: Let_def)
      ultimately show ?thesis
        using chain_shape_update(1) [OF "1.prems"(1) pos a] live pop(2) True False
        by (intro exI [of _ h] exI [of _ ?c]) (simp add: chain_simps ch_capacity_def)
    next
      case more: False
      have inv: "heap_inv h (add_mset ?f (mset (ch_live ?c1) + R)) X"
        using "1.prems"(3) pop(2) by simp
      note drop = heap_inv_ref_drop [OF inv]
      have rs: "(ref_null, ref_drop ?f h) = ref_reset ?f h"
        by (simp add: ref_reset_def)
      have le: "n - ref_size ?f \<le> refs_size (ch_live ?c1)"
        using "1.prems"(2) pop(2) by simp
      obtain h' c' where rec: "consume_loop (n - ref_size ?f) (ref_drop ?f h, ?c1) = Some (h', c')"
        "chain_shape c'" "ch_live c' = consume_refs (n - ref_size ?f) (ch_live ?c1)"
        "ch_size c' = ch_size ?c1" "chain_units c' = chain_units ?c1"
        "heap_inv h' (mset (ch_live c') + R) X" "keeps (mset (ch_live c') + R) (ref_drop ?f h) h'"
        using "1.hyps" [OF False guard refl refl more rs pop(1) le drop(1)] by auto
      have "consume_loop n (h, c) = Some (h', c')"
        using rec(1) False guard more by (subst consume_loop.simps) (simp add: Let_def ref_reset_def)
      moreover have "keeps (mset (ch_live c') + R) h (ref_drop ?f h)"
        unfolding keeps_def
      proof (intro ballI allI impI)
        fix q b assume q: "q \<in># mset (ch_live c') + R" "br_blk q = Some b"
        have "\<exists>q'. q' \<in># mset (ch_live ?c1) + R \<and> br_blk q' = br_blk q"
          using q(1) rec(3) consume_refs_blk by fastforce
        then show "block_data (ref_drop ?f h) b = block_data h b"
          using drop(2) q(2) unfolding keeps_def by metis
      qed
      ultimately show ?thesis
        using rec pop more False keeps_trans by auto
    qed
  qed
qed

lemma chain_shape_rewind:
  assumes "chain_shape c" and "ch_count c = 0"
  shows "chain_shape (c\<lparr>ch_head := 0\<rparr>)" and "ch_live (c\<lparr>ch_head := 0\<rparr>) = ch_live c"
proof -
  note p = chain_shape_parts [OF assms(1)]
  have "all_null (take (ch_head c) (ch_data c))" and "all_null (drop (ch_head c) (ch_data c))"
    using p(6,7) assms(2) by simp_all
  then have "all_null (ch_data c)"
    by (metis all_null_simps(3) append_take_drop_id)
  then show "chain_shape (c\<lparr>ch_head := 0\<rparr>)"
    using p assms(2) by (simp add: chain_shape_def ch_live_def ch_capacity_def chain_simps)
  show "ch_live (c\<lparr>ch_head := 0\<rparr>) = ch_live c"
    using assms(2) by (simp add: ch_live_def)
qed

lemma consume_front_correct:
  assumes ok: "chain_ok c" and inv: "heap_inv h (mset (ch_live c) + R) X"
  shows "\<exists>h' c'. consume_front n (h, c) = Some (h', c') \<and> chain_ok c' \<and>
      ch_live c' = consume_refs (min n (ch_size c)) (ch_live c) \<and> ch_size c' = ch_size c - n \<and>
      chain_units c' = chain_units c \<and> heap_inv h' (mset (ch_live c') + R) X \<and>
      keeps (mset (ch_live c') + R) h h'"
proof -
  let ?n = "min n (ch_size c)"
  let ?c = "c\<lparr>ch_size := ch_size c - ?n\<rparr>"
  have le: "?n \<le> refs_size (ch_live ?c)" and shape: "chain_shape ?c"
    using ok by (simp_all add: chain_ok_def)
  obtain h' c' where l: "consume_loop ?n (h, ?c) = Some (h', c')" "chain_shape c'"
      "ch_live c' = consume_refs ?n (ch_live c)" "ch_size c' = ch_size c - ?n"
      "chain_units c' = chain_units c" "heap_inv h' (mset (ch_live c') + R) X"
      "keeps (mset (ch_live c') + R) h h'"
    using consume_loop_correct [OF shape le, of h R X] inv by (auto simp: chain_simps)
  let ?c' = "if ch_count c' = 0 then c'\<lparr>ch_head := 0\<rparr> else c'"
  have "chain_shape ?c' \<and> ch_live ?c' = ch_live c' \<and> ch_size ?c' = ch_size c' \<and>
      chain_units ?c' = chain_units c'"
    using chain_shape_rewind [OF l(2)] l(2) by (simp add: chain_simps)
  moreover have "refs_size (ch_live c') = ch_size c - ?n"
    using l(3) ok refs_size_consume_refs [OF le] by (simp add: chain_ok_def)
  moreover have "consume_front n (h, c) = Some (h', ?c')"
    using l(1) by (simp add: consume_front_def Let_def)
  ultimately show ?thesis
    using l by (intro exI [of _ h'] exI [of _ ?c']) (auto simp: chain_ok_def)
qed

text \<open>Every live handle of a chain fits its block.\<close>

lemma chain_live_fits:
  assumes "chain_shape c" and "heap_inv h (mset (ch_live c) + R) X" and "r \<in> set (ch_live c)"
  shows "ref_fits h r" and "ref_good r"
proof -
  show "ref_good r" using chain_shape_parts(8) [OF assms(1)] assms(3) by blast
  then show "ref_fits h r"
    using heap_inv_ref_fits [OF assms(2)] assms(3) by (auto simp: ref_good_def)
qed

lemma chain_bytes_length:
  "chain_ok c \<Longrightarrow> heap_inv h (mset (ch_live c) + R) X \<Longrightarrow> length (chain_bytes h c) = ch_size c"
  unfolding chain_ok_def chain_bytes_def
  by (metis refs_bytes_length chain_live_fits(1))

lemma refs_bytes_keeps_set:
  "keeps R h h' \<Longrightarrow> set rs \<subseteq> set_mset R \<Longrightarrow> refs_bytes h' rs = refs_bytes h rs"
  by (rule refs_bytes_keeps) auto

lemma consume_front_bytes:
  assumes ok: "chain_ok c" and inv: "heap_inv h (mset (ch_live c) + R) X"
    and run: "consume_front n (h, c) = Some (h', c')"
  shows "chain_bytes h' c' = drop n (chain_bytes h c)"
proof -
  have live: "ch_live c' = consume_refs (min n (ch_size c)) (ch_live c)"
    and keep: "keeps (mset (ch_live c')) h h'"
    using consume_front_correct [OF ok inv, of n] run by auto
  have "chain_bytes h' c' = refs_bytes h (ch_live c')"
    unfolding chain_bytes_def using keep by (rule refs_bytes_keeps_set) simp
  also have "\<dots> = drop (min n (ch_size c)) (chain_bytes h c)"
    unfolding live chain_bytes_def
    using chain_live_fits(1) [OF _ inv] ok by (intro refs_bytes_consume_refs) (auto simp: chain_ok_def)
  also have "\<dots> = drop n (chain_bytes h c)"
    using chain_bytes_length [OF ok inv] by (simp add: min_def)
  finally show ?thesis .
qed

lemma chain_append_bytes:
  assumes ok: "chain_ok c"
    and inv: "heap_inv h (add_mset r (mset (ch_live c) + R)) (chain_units c + X)"
    and app: "chain_append r (h, c) = (True, h', c')"
  shows "chain_bytes h' c' = chain_bytes h c @ ref_bytes h r"
proof -
  have "ch_live c' = append_refs (ch_live c) r" and keep: "keeps (mset (ch_live c')) h h'"
    using chain_append_correct [OF ok inv app] by auto
  moreover have "chain_bytes h' c' = refs_bytes h (ch_live c')"
    unfolding chain_bytes_def using keep by (rule refs_bytes_keeps_set) simp
  moreover have "refs_bytes h (append_refs (ch_live c) r) = refs_bytes h (ch_live c) @ ref_bytes h r"
  proof (cases "ref_valid r")
    case True
    then have "ref_fits h r"
      using heap_inv_ref_fits [OF inv, of r] by (simp add: ref_valid_def)
    then show ?thesis
      using True ok by (intro refs_bytes_append_refs)
        (auto simp: chain_ok_def ref_fits_def dest: chain_shape_parts(8))
  next
    case False
    then show ?thesis by (simp add: append_refs_def ref_valid_def ref_bytes_def)
  qed
  ultimately show ?thesis by (simp add: chain_bytes_def)
qed

section \<open>Clearing and destroying\<close>

lemma chain_clear_correct:
  assumes shape: "chain_shape c" and inv: "heap_inv h (mset (ch_live c) + R) X"
    and clear: "chain_clear (h, c) = (h', c')"
  shows "chain_ok c' \<and> ch_live c' = [] \<and> ch_size c' = 0 \<and> ch_head c' = 0 \<and> ch_count c' = 0 \<and>
    all_null (ch_data c') \<and> chain_units c' = chain_units c \<and>
    inline_storage c' = inline_storage c \<and> heap_inv h' R X \<and> keeps R h h'"
proof -
  note p = chain_shape_parts [OF shape]
  obtain h1 d where r: "reset_slots (ch_head c) (ch_count c) (h, ch_data c) = (h1, d)"
    by fastforce
  have inv': "heap_inv h (mset (take (ch_count c) (drop (ch_head c) (ch_data c))) + R) X"
    using inv by (simp add: ch_live_def)
  note rc = reset_slots_correct [OF r p(5) inv']
  have null: "all_null d" and len: "length d = length (ch_data c)"
    using rc(3) p(5,6,7) by simp_all
  have c': "h' = h1" "c' = (ch_set_data d c)\<lparr>ch_head := 0, ch_count := 0, ch_size := 0\<rparr>"
    using clear r by (simp_all add: chain_clear_def)
  have "chain_shape c'"
    unfolding c'(2) using p null len by (intro chain_shape_intro) auto
  then show ?thesis
    using c' rc(1,2) null len
    by (simp add: chain_ok_def ch_live_def chain_simps ch_capacity_def)
qed

lemma chain_release_all:
  assumes shape: "chain_shape c" and inv: "heap_inv h (mset (ch_live c) + R) (chain_units c + X)"
  shows "\<exists>h1 c1. release_storage (chain_clear (h, c)) = (h1, c1) \<and> all_null (ch_slots c1) \<and>
    length (ch_slots c1) = kInline \<and> ch_ext c1 = None \<and> ch_head c1 = 0 \<and> ch_count c1 = 0 \<and>
    ch_size c1 = 0 \<and> heap_inv h1 R X \<and> keeps R h h1"
proof -
  obtain h' c' where clear: "chain_clear (h, c) = (h', c')" by fastforce
  have cl: "chain_ok c' \<and> ch_live c' = [] \<and> ch_size c' = 0 \<and> ch_head c' = 0 \<and> ch_count c' = 0 \<and>
    all_null (ch_data c') \<and> chain_units c' = chain_units c \<and>
    inline_storage c' = inline_storage c \<and> heap_inv h' R (chain_units c + X) \<and> keeps R h h'"
    by (rule chain_clear_correct [OF shape inv clear])
  obtain h1 where rel: "release_storage (h', c') = (h1, c'\<lparr>ch_ext := None\<rparr>)" "heap_inv h1 R X"
      "keeps R h' h1"
    using release_storage_correct [of c' h' R X] cl by auto
  have sh: "chain_shape c'" using cl by (simp add: chain_ok_def)
  have "all_null (ch_slots c')"
    using chain_shape_parts(4) [OF sh] cl by (cases "inline_storage c'") (simp_all add: inline_data)
  then show ?thesis
    using clear rel cl chain_shape_parts(1) [OF sh] keeps_trans by auto
qed

text \<open>Destroying a chain gives every handle and its storage back.\<close>

lemma chain_destroy_correct:
  assumes "chain_shape c" and "heap_inv h (mset (ch_live c) + R) (chain_units c + X)"
  shows "heap_inv (chain_destroy (h, c)) R X" and "keeps R h (chain_destroy (h, c))"
  using chain_release_all [OF assms]
  by (auto simp: chain_destroy_def fold_ref_drop_null)

section \<open>Slices, copies and moves\<close>

text \<open>
  The loop of \<open>first()\<close>: \<open>out\<close> collects a shared handle on every entry it passes. The source
  handles are among \<open>R\<close>; fewer than \<open>2 ^ 32\<close> handles exist while it runs.
\<close>

lemma first_loop_correct:
  assumes "chain_ok out" and "heap_inv h (mset (ch_live out) + R) (chain_units out + X)"
    and "set rs \<subseteq> set_mset R" and "\<And>r. r \<in> set rs \<Longrightarrow> ref_good r"
    and "size R + ch_count out + length rs < 2 ^ 32"
    and "first_loop rs len (h, out) = (h', res)"
  shows "keeps R h h' \<and>
    (case res of
       None \<Rightarrow> heap_inv h' R X
     | Some c \<Rightarrow> chain_ok c \<and> ch_live c = first_refs (ch_live out) len rs \<and>
         heap_inv h' (mset (ch_live c) + R) (chain_units c + X))"
  using assms
proof (induction rs arbitrary: len h out)
  case Nil
  then show ?case by auto
next
  case (Cons r rs)
  show ?case
  proof (cases "len = 0")
    case True
    then show ?thesis using Cons.prems by auto
  next
    case False
    let ?tk = "min (ref_size r) len"
    let ?p = "set_range (br_begin r) (br_begin r + ?tk) r"
    let ?h1 = "snd (ref_copy r h)"
    have r: "ref_good r" "r \<in># R" using Cons.prems(3,4) by auto
    have fits: "ref_fits h r"
      using heap_inv_ref_fits [OF Cons.prems(2), of r] r by (auto simp: ref_good_def)
    then have win: "window_ok (h_blocks h) ?p"
      by (intro window_okI) (auto simp: ref_fits_def set_range_def ref_size_def)
    have "size (mset (ch_live out) + R) + 1 < 2 ^ 32"
      using Cons.prems(1,5) length_ch_live [of out] by (simp add: chain_ok_def)
    then have inv1: "heap_inv ?h1 (add_mset ?p (mset (ch_live out) + R)) (chain_units out + X)"
      using heap_inv_ref_copy [OF Cons.prems(2) _ _ _ win] r by (simp add: set_range_def)
    have keep1: "keeps R h ?h1"
      by (simp add: keeps_def block_data_ref_copy)
    obtain ok h2 out2 where app: "chain_append ?p (?h1, out) = (ok, h2, out2)"
      by (metis prod.exhaust)
    have two: "chain_shape out2 \<and>
        ch_live out2 = (if ok then append_refs (ch_live out) ?p else ch_live out) \<and>
        (ok \<longrightarrow> chain_ok out2) \<and> (\<not> ok \<longrightarrow> ch_size out2 = ch_size out + ref_size ?p \<and> 0 < ref_size ?p) \<and>
        heap_inv h2 (mset (ch_live out2) + R) (chain_units out2 + X) \<and>
        keeps (mset (ch_live out2) + R) ?h1 h2"
      by (rule chain_append_correct [OF Cons.prems(1) inv1 app])
    have keep2: "keeps R h h2"
      using two keeps_trans [OF keep1, of h2] by simp
    show ?thesis
    proof (cases ok)
      case True
      have "ch_count out2 \<le> Suc (ch_count out)"
        using two True length_ch_live [of out2] length_ch_live [of out] Cons.prems(1)
        by (auto simp: append_refs_def chain_ok_def split: if_splits)
      then have rec: "keeps R h2 h' \<and>
        (case res of
           None \<Rightarrow> heap_inv h' R X
         | Some c \<Rightarrow> chain_ok c \<and> ch_live c = first_refs (ch_live out2) (len - ?tk) rs \<and>
             heap_inv h' (mset (ch_live c) + R) (chain_units c + X))"
        using two True Cons.prems False app
        by (intro Cons.IH) (auto simp: Let_def ref_copy_def)
      then show ?thesis
        using two True False keeps_trans [OF keep2] by (auto simp: Let_def split: option.splits)
    next
      case False
      then have "h' = chain_destroy (h2, out2)" "res = None"
        using Cons.prems(6) \<open>len \<noteq> 0\<close> app by (simp_all add: Let_def ref_copy_def)
      then show ?thesis
        using chain_destroy_correct [of out2 h2 R X] two keeps_trans [OF keep2] by auto
    qed
  qed
qed

lemma chain_first_correct:
  assumes ok: "chain_ok c" and inv: "heap_inv h (mset (ch_live c) + R) X"
    and room: "size R + 2 * ch_count c < 2 ^ 32"
    and run: "chain_first len (h, c) = (h', res)"
  shows "keeps (mset (ch_live c) + R) h h' \<and>
    (case res of
       None \<Rightarrow> heap_inv h' (mset (ch_live c) + R) X
     | Some out \<Rightarrow> chain_ok out \<and> ch_live out = first_refs [] (min len (ch_size c)) (ch_live c) \<and>
         heap_inv h' (mset (ch_live out) + (mset (ch_live c) + R)) (chain_units out + X) \<and>
         chain_bytes h' out = take len (chain_bytes h c))"
proof -
  have len: "length (ch_live c) = ch_count c"
    using ok length_ch_live by (simp add: chain_ok_def)
  have good: "r \<in> set (ch_live c) \<Longrightarrow> ref_good r" for r
    using ok chain_shape_parts(8) by (auto simp: chain_ok_def)
  let ?R = "mset (ch_live c) + R"
  have inv': "heap_inv h (mset (ch_live empty_chain) + ?R) (chain_units empty_chain + X)"
    using inv by simp
  have loop: "keeps ?R h h' \<and>
    (case res of
       None \<Rightarrow> heap_inv h' ?R X
     | Some out \<Rightarrow> chain_ok out \<and> ch_live out = first_refs (ch_live empty_chain) (min len (ch_size c)) (ch_live c) \<and>
         heap_inv h' (mset (ch_live out) + ?R) (chain_units out + X))"
    using run room len good
    by (intro first_loop_correct [OF _ inv']) (auto simp: chain_first_def)
  moreover have "chain_bytes h' out = take len (chain_bytes h c)" if out: "res = Some out" for out
  proof -
    have live: "ch_live out = first_refs [] (min len (ch_size c)) (ch_live c)"
      using loop out by simp
    have "refs_bytes h' (ch_live out) = refs_bytes h (ch_live out)"
    proof (rule refs_bytes_keeps)
      show "keeps ?R h h'" using loop by simp
      fix q assume "q \<in> set (ch_live out)"
      then obtain p where "p \<in> set (ch_live c)" "br_blk q = br_blk p"
        using first_refs_blk live by fastforce
      then show "\<exists>p. p \<in># ?R \<and> br_blk p = br_blk q" by auto
    qed
    also have "\<dots> = take (min len (ch_size c)) (refs_bytes h (ch_live c))"
      unfolding live using good chain_live_fits [OF _ inv] ok
      by (subst refs_bytes_first_refs) (auto simp: chain_ok_def)
    finally show ?thesis
      using chain_bytes_length [OF ok inv] by (simp add: chain_bytes_def min_def)
  qed
  ultimately show ?thesis by (auto split: option.splits)
qed

lemma copy_loop_correct:
  "off + length (refs_bytes h rs) \<le> length out \<Longrightarrow>
    copy_loop h rs off out = (overwrite off (refs_bytes h rs) out, off + length (refs_bytes h rs))"
proof (induction rs arbitrary: off out)
  case Nil
  then show ?case by simp
next
  case (Cons r rs)
  let ?b = "ref_bytes h r"
  have "overwrite (off + length ?b) (refs_bytes h rs) (overwrite off ?b out)
      = overwrite off (?b @ refs_bytes h rs) out"
    using Cons.prems by (simp add: overwrite_def drop_drop add.commute add.left_commute)
  then show ?case
    using Cons by (simp add: add.assoc)
qed

lemma copy_to_correct:
  "length (chain_bytes h c) \<le> length out \<Longrightarrow>
    copy_to h c out = (chain_bytes h c @ drop (length (chain_bytes h c)) out, length (chain_bytes h c))"
  by (simp add: copy_to_def chain_bytes_def copy_loop_correct) (simp add: overwrite_def)

text \<open>
  Move assignment: the new chain has what the other had, the other is left empty, and what the
  target held before is released. With inline entries each is moved; external storage is taken over.
\<close>

lemma move_entries_correct:
  "all_null (drop i dst) \<Longrightarrow> i + n \<le> length dst \<Longrightarrow> h0 + i + n \<le> length src \<Longrightarrow>
    move_entries h0 i n (h, dst, src) =
      (h, take i dst @ take n (drop (h0 + i) src) @ drop (i + n) dst,
       take (h0 + i) src @ map ref_moved (take n (drop (h0 + i) src)) @ drop (h0 + i + n) src)"
proof (induction n arbitrary: i dst src)
  case 0
  then show ?case by simp
next
  case (Suc n)
  let ?j = "h0 + i"
  let ?dst = "dst[i := src ! ?j]"
  let ?src = "src[?j := ref_moved (src ! ?j)]"
  have "drop i dst = dst ! i # drop (Suc i) dst"
    using Suc.prems(2) by (simp add: Cons_nth_drop_Suc)
  then have null: "br_blk (dst ! i) = None" "all_null (drop (Suc i) ?dst)"
    using Suc.prems(1) by simp_all
  have "move_entries h0 (Suc i) n (h, ?dst, ?src) =
      (h, take (Suc i) ?dst @ take n (drop (h0 + Suc i) ?src) @ drop (Suc i + n) ?dst,
       take (h0 + Suc i) ?src @ map ref_moved (take n (drop (h0 + Suc i) ?src))
         @ drop (h0 + Suc i + n) ?src)"
    using Suc.prems null(2) by (intro Suc.IH) simp_all
  moreover have "take (Suc i) ?dst = take i dst @ [src ! ?j]"
    "take (Suc ?j) ?src = take ?j src @ [ref_moved (src ! ?j)]"
    using Suc.prems by (simp_all add: take_Suc_conv_app_nth)
  moreover have "take (Suc n) (drop ?j src) = src ! ?j # take n (drop (Suc ?j) src)"
    using Suc.prems by (intro take_drop_Cons) simp
  ultimately show ?case
    using null(1) by (simp add: ref_assign_move_def)
qed

lemma chain_ok_cleared:
  "length (ch_slots c) = kInline \<Longrightarrow> all_null (ch_slots c) \<Longrightarrow> ch_ext c = None \<Longrightarrow> ch_head c = 0 \<Longrightarrow>
    ch_count c = 0 \<Longrightarrow> ch_size c = 0 \<Longrightarrow> chain_ok c \<and> ch_live c = [] \<and> chain_units c = {#}"
  by (simp add: chain_ok_def chain_shape_def ch_live_def ch_capacity_def ch_data_def
      inline_storage_def chain_units_def)

lemma chain_move_assign_correct:
  assumes tgt: "chain_shape this" and other: "chain_shape other"
    and inv: "heap_inv h (mset (ch_live this) + (mset (ch_live other) + R))
                (chain_units this + (chain_units other + X))"
    and run: "chain_move_assign this (h, other) = (h', c', left)"
  shows "chain_shape c' \<and> ch_live c' = ch_live other \<and> ch_size c' = ch_size other \<and>
    chain_ok left \<and> ch_live left = [] \<and> chain_units left = {#} \<and>
    heap_inv h' (mset (ch_live other) + R) (chain_units c' + X) \<and>
    keeps (mset (ch_live other) + R) h h'"
proof -
  note p = chain_shape_parts [OF other]
  obtain h1 c1 where rel: "release_storage (chain_clear (h, this)) = (h1, c1)" "all_null (ch_slots c1)"
    "length (ch_slots c1) = kInline" "ch_ext c1 = None" "ch_head c1 = 0" "ch_count c1 = 0"
    "ch_size c1 = 0"
    "heap_inv h1 (mset (ch_live other) + R) (chain_units other + X)" "keeps (mset (ch_live other) + R) h h1"
    using chain_release_all [OF tgt inv] by blast
  show ?thesis
  proof (cases "ch_ext other")
    case None
    let ?n = "ch_count other" and ?src = "ch_slots other"
    have data: "ch_data other = ?src" and inl: "inline_storage other"
      using None by (simp_all add: ch_data_def inline_storage_def)
    have le: "?n \<le> length (ch_slots c1)" "ch_head other + ?n \<le> length ?src"
      using p(1,5) rel(3) data by simp_all
    let ?dst' = "ch_live other @ drop ?n (ch_slots c1)"
    let ?src' = "take (ch_head other) ?src @ map ref_moved (ch_live other) @ drop (ch_head other + ?n) ?src"
    have mv: "move_entries (ch_head other) 0 ?n (h1, ch_slots c1, ?src) = (h1, ?dst', ?src')"
      using move_entries_correct [of 0 "ch_slots c1" ?n "ch_head other" ?src h1] rel(2) le
      by (simp add: ch_live_def data)
    let ?o = "other\<lparr>ch_size := 0, ch_slots := ?src'\<rparr>"
    have len': "length ?src' = length ?src"
      using le(2) length_ch_live [OF other] by simp
    have null': "all_null ?src'"
      using p(6,7) data by simp
    have reset: "reset_slots (ch_head other) ?n (h1, ?src')
        = (h1, take (ch_head other) ?src' @ replicate ?n ref_null @ drop (ch_head other + ?n) ?src')"
      using null' le(2) len' by (intro reset_slots_null) (auto simp: all_null_def dest: in_set_takeD in_set_dropD)
    let ?d = "take (ch_head other) ?src' @ replicate ?n ref_null @ drop (ch_head other + ?n) ?src'"
    have cl: "chain_clear (h1, ?o) = (h1, ?o\<lparr>ch_slots := ?d, ch_head := 0, ch_count := 0, ch_size := 0\<rparr>)"
      using reset None by (simp add: chain_clear_def ch_data_def ch_set_data_def)
    have res: "h' = h1" "c' = c1\<lparr>ch_slots := ?dst', ch_count := ?n, ch_size := ch_size other\<rparr>"
      "left = ?o\<lparr>ch_slots := ?d, ch_head := 0, ch_count := 0, ch_size := 0\<rparr>"
      using run rel(1) None mv cl by (simp_all add: chain_move_assign_def Let_def)
    have d: "length ?d = kInline" "all_null ?d"
      using le(2) len' p(1) null' by (auto simp: all_null_def dest: in_set_takeD in_set_dropD)
    have f: "ch_ext c' = None" "ch_slots c' = ?dst'" "ch_head c' = 0" "ch_count c' = ?n"
      "ch_size c' = ch_size other" "ch_slots left = ?d" "ch_ext left = None" "ch_head left = 0"
      "ch_count left = 0" "ch_size left = 0"
      using rel(4,5) None by (simp_all add: res(2,3))
    have null1: "all_null (drop ?n (ch_slots c1))"
      using rel(2) by (auto simp: all_null_def dest: in_set_dropD)
    have data': "ch_data c' = ?dst'" "inline_storage c'"
      using f(1,2) by (simp_all add: ch_data_def inline_storage_def)
    have len1: "length ?dst' = kInline"
      using rel(3) le(1) length_ch_live [OF other] by simp
    have live': "ch_live c' = ch_live other"
      unfolding ch_live_def [of c'] data' f using length_ch_live [OF other] by simp
    have "chain_shape c'"
      unfolding chain_shape_def ch_capacity_def data'(1) live' f(2,3,4)
      using len1 data'(2) null1 length_ch_live [OF other] p(8) le(1) rel(3) by simp
    with live' have "chain_shape c' \<and> ch_live c' = ch_live other" by simp
    moreover have "chain_ok left \<and> ch_live left = [] \<and> chain_units left = {#}"
      by (rule chain_ok_cleared [OF d [folded f(6)] f(7-10)])
    moreover have "chain_units c' = {#}" "chain_units other = {#}"
      using f(1) None by (simp_all add: chain_units_def)
    ultimately show ?thesis
      using rel(8,9) res(1) f(5) by simp
  next
    case (Some e)
    then obtain q d where e: "ch_ext other = Some (q, d)" by (cases e) auto
    have res: "h' = h1"
      "c' = c1\<lparr>ch_ext := Some (q, d), ch_head := ch_head other, ch_count := ch_count other,
               ch_size := ch_size other\<rparr>"
      "left = other\<lparr>ch_size := 0, ch_ext := None, ch_head := 0, ch_count := 0\<rparr>"
      using run rel(1) e by (simp_all add: chain_move_assign_def Let_def)
    have data: "ch_data other = d" "\<not> inline_storage other"
      using e by (simp_all add: ch_data_def inline_storage_def)
    have f: "ch_ext c' = Some (q, d)" "ch_slots c' = ch_slots c1" "ch_head c' = ch_head other"
      "ch_count c' = ch_count other" "ch_size c' = ch_size other" "ch_slots left = ch_slots other"
      "ch_ext left = None" "ch_head left = 0" "ch_count left = 0" "ch_size left = 0"
      by (simp_all add: res(2,3))
    have data': "ch_data c' = ch_data other" "\<not> inline_storage c'"
      using f(1) data by (simp_all add: ch_data_def inline_storage_def)
    have live': "ch_live c' = ch_live other"
      unfolding ch_live_def data' f ..
    have "chain_shape c'"
      unfolding chain_shape_def ch_capacity_def data'(1) live' f(2,3,4)
      using rel(2,3) p data' by simp
    with live' have "chain_shape c' \<and> ch_live c' = ch_live other" by simp
    moreover have "chain_ok left \<and> ch_live left = [] \<and> chain_units left = {#}"
      using p(1) p(4) [OF data(2)] f(6-10) by (intro chain_ok_cleared) simp_all
    moreover have "chain_units c' = chain_units other"
      using e f(1) by (simp add: chain_units_def)
    ultimately show ?thesis
      using rel(8,9) res(1) f(5) by simp
  qed
qed

section \<open>Copying\<close>

lemma heap_inv_nulls: "all_null d \<Longrightarrow> heap_inv h (mset d + R) X \<longleftrightarrow> heap_inv h R X"
  by (induction d) simp_all

lemma fold_ref_drop_correct:
  "heap_inv h (mset d + R) X \<Longrightarrow> heap_inv (fold ref_drop d h) R X \<and> keeps R h (fold ref_drop d h)"
proof (induction d arbitrary: h)
  case Nil
  then show ?case by simp
next
  case (Cons r d)
  have inv: "heap_inv h (add_mset r (mset d + R)) X" using Cons.prems by simp
  have "heap_inv (ref_drop r h) (mset d + R) X" and k: "keeps R h (ref_drop r h)"
    using heap_inv_ref_drop [OF inv] by simp_all
  then show ?case using Cons.IH [of "ref_drop r h"] keeps_trans [OF k] by simp
qed

lemma copy_entries_correct:
  assumes "chain_shape c" and "heap_inv h (mset (ch_live c) + R) (chain_units c + X)"
    and "set rs \<subseteq> set_mset R" and "\<And>r. r \<in> set rs \<Longrightarrow> ref_good r"
    and "size R + ch_count c + length rs < 2 ^ 32"
    and "copy_entries rs (h, c) = (ok, h', c')"
  shows "chain_shape c' \<and> (ok \<longrightarrow> ch_live c' = ch_live c @ rs) \<and>
    (\<not> ok \<longrightarrow> (\<exists>k. ch_live c' = ch_live c @ take k rs)) \<and>
    heap_inv h' (mset (ch_live c') + R) (chain_units c' + X) \<and> keeps R h h'"
  using assms
proof (induction rs arbitrary: h c)
  case Nil
  then show ?case by auto
next
  case (Cons r rs)
  let ?h1 = "snd (ref_copy r h)"
  have r: "ref_good r" "r \<in># R" using Cons.prems(3,4) by auto
  have win: "window_ok (h_blocks h) r"
    using heap_inv_ref_fits [OF Cons.prems(2), of r] r by (intro window_okI) (auto simp: ref_good_def)
  have "size (mset (ch_live c) + R) + 1 < 2 ^ 32"
    using Cons.prems(1,5) length_ch_live [of c] by simp
  then have inv1: "heap_inv ?h1 (add_mset r (mset (ch_live c) + R)) (chain_units c + X)"
    using heap_inv_ref_copy [OF Cons.prems(2) _ _ _ win] r by simp
  have keep1: "keeps R h ?h1"
    by (simp add: keeps_def block_data_ref_copy)
  obtain g h2 c2 where push: "chain_push_back r (?h1, c) = (g, h2, c2)"
    by (metis prod.exhaust)
  have two: "chain_shape c2 \<and> ch_live c2 = ch_live c @ (if g then [r] else []) \<and> ch_size c2 = ch_size c \<and>
      heap_inv h2 (mset (ch_live c2) + R) (chain_units c2 + X) \<and>
      keeps (mset (ch_live c2) + R) ?h1 h2"
    by (rule chain_push_back_correct [OF Cons.prems(1) r(1) inv1 push])
  have keep2: "keeps R h h2"
    using two keeps_trans [OF keep1, of h2] by simp
  show ?case
  proof (cases g)
    case True
    have run: "copy_entries rs (h2, c2) = (ok, h', c')"
      using Cons.prems(6) push True by (simp add: ref_copy_def)
    have "ch_count c2 = Suc (ch_count c)"
      using two True length_ch_live [of c2] length_ch_live [of c] Cons.prems(1) by simp
    then have rec: "chain_shape c' \<and> (ok \<longrightarrow> ch_live c' = ch_live c2 @ rs) \<and>
        (\<not> ok \<longrightarrow> (\<exists>k. ch_live c' = ch_live c2 @ take k rs)) \<and>
        heap_inv h' (mset (ch_live c') + R) (chain_units c' + X) \<and> keeps R h2 h'"
      using two Cons.prems by (intro Cons.IH [OF _ _ _ _ _ run]) auto
    moreover have "\<exists>k. ch_live c' = ch_live c @ take k (r # rs)" if "\<not> ok"
    proof -
      obtain k where "ch_live c' = ch_live c2 @ take k rs" using rec \<open>\<not> ok\<close> by blast
      then have "ch_live c' = ch_live c @ take (Suc k) (r # rs)" using two True by simp
      then show ?thesis by blast
    qed
    ultimately show ?thesis using two True keeps_trans [OF keep2, of h'] by simp
  next
    case False
    then have "ok = False" "h' = h2" "c' = c2"
      using Cons.prems(6) push by (simp_all add: ref_copy_def)
    then show ?thesis using two False keep2 by (auto intro: exI [of _ 0])
  qed
qed

text \<open>
  A copy shares the blocks. When an allocation throws the source is as it was; the handles the copy
  already has in external storage, and that storage, are then owned by nothing.
\<close>

lemma chain_copy_correct:
  assumes ok: "chain_ok c" and inv: "heap_inv h (mset (ch_live c) + R) X"
    and room: "size R + 2 * ch_count c < 2 ^ 32"
    and run: "chain_copy (h, c) = (h', res)"
  shows "keeps (mset (ch_live c) + R) h h' \<and>
    (case res of
       Some out \<Rightarrow> chain_ok out \<and> ch_live out = ch_live c \<and>
         heap_inv h' (mset (ch_live out) + (mset (ch_live c) + R)) (chain_units out + X)
     | None \<Rightarrow> \<exists>lost. chain_shape lost \<and> (\<exists>k. ch_live lost = take k (ch_live c)) \<and>
         (if inline_storage lost then heap_inv h' (mset (ch_live c) + R) X
          else heap_inv h' (mset (ch_live lost) + (mset (ch_live c) + R)) (chain_units lost + X)))"
proof -
  have shape: "chain_shape c" using ok by (simp add: chain_ok_def)
  have good: "r \<in> set (ch_live c) \<Longrightarrow> ref_good r" for r
    using shape chain_shape_parts(8) by auto
  let ?R = "mset (ch_live c) + R"
  obtain g h1 c1 where ent: "copy_entries (ch_live c) (h, empty_chain) = (g, h1, c1)"
    by (metis prod.exhaust)
  have inv': "heap_inv h (mset (ch_live empty_chain) + ?R) (chain_units empty_chain + X)"
    using inv by simp
  have one: "chain_shape c1 \<and> (g \<longrightarrow> ch_live c1 = ch_live empty_chain @ ch_live c) \<and>
    (\<not> g \<longrightarrow> (\<exists>k. ch_live c1 = ch_live empty_chain @ take k (ch_live c))) \<and>
    heap_inv h1 (mset (ch_live c1) + ?R) (chain_units c1 + X) \<and> keeps ?R h h1"
    using good room length_ch_live [OF shape] by (intro copy_entries_correct [OF _ inv' _ _ _ ent]) auto
  show ?thesis
  proof (cases g)
    case True
    then have "h' = h1" "res = Some (c1\<lparr>ch_size := ch_size c\<rparr>)"
      using run ent by (simp_all add: chain_copy_def)
    then show ?thesis
      using one True ok by (auto simp: chain_ok_def chain_units_update)
  next
    case False
    then have h': "h' = fold ref_drop (ch_slots c1) h1" "res = None"
      using run ent by (simp_all add: chain_copy_def)
    have lost: "chain_shape c1" "\<exists>k. ch_live c1 = take k (ch_live c)"
      using one False by simp_all
    show ?thesis
    proof (cases "inline_storage c1")
      case True
      note p = chain_shape_parts [OF lost(1)]
      have split: "ch_slots c1 = take (ch_head c1) (ch_data c1) @ ch_live c1 @ drop (ch_head c1 + ch_count c1) (ch_data c1)"
        using inline_data [OF True] by (simp add: ch_live_def add.commute flip: drop_drop)
      have "heap_inv h1 (mset (ch_slots c1) + ?R) X"
      proof -
        have "heap_inv h1 (mset (ch_live c1) + ?R) X"
          using one True by (simp add: chain_units_def inline_storage_def)
        then have "heap_inv h1 (mset (drop (ch_head c1 + ch_count c1) (ch_data c1)) + (mset (ch_live c1) + ?R)) X"
          using p(7) by (simp only: heap_inv_nulls)
        then have "heap_inv h1 (mset (take (ch_head c1) (ch_data c1)) +
            (mset (drop (ch_head c1 + ch_count c1) (ch_data c1)) + (mset (ch_live c1) + ?R))) X"
          using p(6) by (simp only: heap_inv_nulls)
        then show ?thesis by (subst split) (simp add: ac_simps)
      qed
      then have "heap_inv h' ?R X \<and> keeps ?R h1 h'"
        unfolding h' by (rule fold_ref_drop_correct)
      then show ?thesis using one h'(2) lost True keeps_trans [of ?R h h1 h'] by auto
    next
      case False
      then have "h' = h1"
        using h'(1) chain_shape_parts(4) [OF lost(1)] by (simp add: fold_ref_drop_null)
      then show ?thesis using one h'(2) lost False by auto
    qed
  qed
qed

section \<open>Properties\<close>

text \<open>For the witnesses: two separate windows of the demo block, in the inline storage.\<close>

definition demo_chain :: chain where
  "demo_chain = \<lparr>ch_slots = [demo_ref 0 2, demo_ref 3 5], ch_ext = None, ch_head = 0, ch_count = 2,
                 ch_size = 4\<rparr>"

definition demo_handles :: "block_ref multiset" where
  "demo_handles = {#demo_ref 0 2, demo_ref 3 5#}"

lemma demo_chain_facts [simp]:
  "ch_live demo_chain = [demo_ref 0 2, demo_ref 3 5]" "chain_units demo_chain = {#}"
  "ch_size demo_chain = 4" "ch_count demo_chain = 2" "ch_head demo_chain = 0"
  "ch_data demo_chain = [demo_ref 0 2, demo_ref 3 5]"
  by (simp_all add: demo_chain_def ch_live_def ch_data_def chain_units_def)

lemma demo_chain_ok: "chain_ok demo_chain" "chain_shape demo_chain"
  by (simp_all add: chain_ok_def chain_shape_def kInline_def ch_capacity_def inline_storage_def
      ref_good_def ref_size_def) (simp_all add: demo_chain_def)

lemma demo_chain_inv:
  "heap_inv (demo_heap demo_handles X gs) (mset (ch_live demo_chain) + {#}) (chain_units demo_chain + X)"
proof -
  have "heap_inv (demo_heap demo_handles X gs) demo_handles X"
    by (rule demo_heap_inv) (auto simp: demo_handles_def)
  then show ?thesis by (simp add: demo_handles_def)
qed

lemma demo_bytes:
  "chain_bytes (demo_heap R X gs) demo_chain = [10, 11, 13, 14]"
  "ref_bytes (demo_heap R X gs) (demo_ref 5 8) = [15, 16, 17]"
  by (simp_all add: chain_bytes_def ref_bytes_def block_data_def demo_heap_def slice_def)

text \<open>
  \<open>append\<close> adds the handle's bytes at the end of the chain and keeps everything consistent,
  whether it extends the last entry, uses a free slot, slides the entries down or grows the storage.
  If the storage cannot grow, the exception leaves the bytes as they were and leaks nothing, but
  \<open>size()\<close> has already been increased.
\<close>

lemma append_contract:
  assumes "chain_ok c"
    and "heap_inv h (add_mset r (mset (ch_live c) + R)) (chain_units c + X)"
    and "chain_append r (h, c) = (res, h', c')"
  shows "heap_inv h' (mset (ch_live c') + R) (chain_units c' + X) \<and>
    (if res then chain_ok c' \<and> chain_bytes h' c' = chain_bytes h c @ ref_bytes h r
     else chain_bytes h' c' = chain_bytes h c \<and>
       ch_size c' = length (chain_bytes h' c') + ref_size r \<and> \<not> chain_ok c')"
proof (cases res)
  case True
  then show ?thesis
    using chain_append_correct [OF assms] chain_append_bytes [OF assms(1,2)] assms(3) by auto
next
  case False
  have a: "chain_shape c'" "ch_live c' = ch_live c" "ch_size c' = ch_size c + ref_size r" "0 < ref_size r"
    "heap_inv h' (mset (ch_live c') + R) (chain_units c' + X)" "keeps (mset (ch_live c')) h h'"
    using chain_append_correct [OF assms] False by auto
  have inv: "heap_inv h (mset (ch_live c) + add_mset r R) (chain_units c + X)" using assms(2) by simp
  have "chain_bytes h' c' = chain_bytes h c"
    unfolding chain_bytes_def a(2) using a(6) by (rule refs_bytes_keeps_set) (simp add: a(2))
  then show ?thesis
    using a False assms(1) chain_bytes_length [OF assms(1) inv] by (simp add: chain_ok_def)
qed

text \<open>
  C20. \<open>consume_front(n)\<close> always returns (it never touches an entry that is not live), drops exactly
  the first \<open>n\<close> bytes (all of them if there are fewer), and releases the blocks it has passed.
\<close>

theorem consume_front_contract:
  assumes "chain_ok c" and "heap_inv h (mset (ch_live c) + R) X"
  shows "\<exists>h' c'. consume_front n (h, c) = Some (h', c') \<and> chain_ok c' \<and>
    chain_bytes h' c' = drop n (chain_bytes h c) \<and> ch_size c' = ch_size c - n \<and>
    heap_inv h' (mset (ch_live c') + R) X \<and> keeps R h h'"
  using consume_front_correct [OF assms, of n] consume_front_bytes [OF assms, of n] by auto

lemma consume_front_contract_witness:
  "\<exists>h' c'. consume_front 3 (demo_heap demo_handles {#} [], demo_chain) = Some (h', c') \<and>
    chain_bytes h' c' = [14]"
  using consume_front_contract [OF demo_chain_ok(1) demo_chain_inv [of "{#}" "[]"], of 3]
  by (auto simp: demo_bytes)

text \<open>
  \<open>first(len)\<close> copies no byte: it yields a chain with the first \<open>len\<close> bytes that shares the
  blocks, and the source is unchanged; if an allocation throws, everything is as before.
\<close>

lemma first_contract:
  assumes "chain_ok c" and "heap_inv h (mset (ch_live c) + R) X" and "size R + 2 * ch_count c < 2 ^ 32"
    and "chain_first len (h, c) = (h', res)"
  shows "chain_bytes h' c = chain_bytes h c \<and>
    (case res of
       None \<Rightarrow> heap_inv h' (mset (ch_live c) + R) X
     | Some out \<Rightarrow> chain_ok out \<and> chain_bytes h' out = take len (chain_bytes h c) \<and>
         (\<forall>r\<in>set (ch_live out). \<exists>q\<in>set (ch_live c). br_blk r = br_blk q) \<and>
         heap_inv h' (mset (ch_live out) + (mset (ch_live c) + R)) (chain_units out + X))"
proof -
  have "chain_bytes h' c = chain_bytes h c"
    using chain_first_correct [OF assms] unfolding chain_bytes_def
    by (intro refs_bytes_keeps_set [where R = "mset (ch_live c)"]) simp_all
  then show ?thesis
    using chain_first_correct [OF assms] first_refs_blk [of _ "[]"]
    by (auto split: option.splits)
qed

text \<open>
  Copying shares the blocks and yields the same bytes. When an allocation throws after the copy
  has outgrown its inline entries, the storage it had obtained and the handles in it stay behind.
\<close>

lemma copy_contract:
  assumes "chain_ok c" and "heap_inv h (mset (ch_live c) + R) X" and "size R + 2 * ch_count c < 2 ^ 32"
    and "chain_copy (h, c) = (h', res)"
  shows "chain_bytes h' c = chain_bytes h c \<and>
    (case res of
       Some out \<Rightarrow> chain_ok out \<and> chain_bytes h' out = chain_bytes h c \<and>
         heap_inv h' (mset (ch_live out) + (mset (ch_live c) + R)) (chain_units out + X)
     | None \<Rightarrow> heap_inv h' (mset (ch_live c) + R) X \<or>
         (\<exists>lost. chain_units lost \<noteq> {#} \<and>
            heap_inv h' (mset (ch_live lost) + (mset (ch_live c) + R)) (chain_units lost + X)))"
proof -
  have b: "chain_bytes h' c = chain_bytes h c"
    using chain_copy_correct [OF assms] unfolding chain_bytes_def
    by (intro refs_bytes_keeps_set [where R = "mset (ch_live c)"]) simp_all
  have "chain_units lost \<noteq> {#}" if "\<not> inline_storage lost" for lost
    using that by (auto simp: chain_units_def inline_storage_def split: option.splits)
  with b show ?thesis
    using chain_copy_correct [OF assms]
    by (auto simp: chain_bytes_def split: option.splits if_splits)
qed

text \<open>
  Move assignment transfers: the target then has the other chain's handles and size, the other
  is empty, what the target held has been released, and no block is touched otherwise.
\<close>

lemma move_assign_contract:
  assumes "chain_shape this" and "chain_ok other"
    and "heap_inv h (mset (ch_live this) + (mset (ch_live other) + R))
           (chain_units this + (chain_units other + X))"
    and "chain_move_assign this (h, other) = (h', c', left)"
  shows "chain_ok c' \<and> chain_bytes h' c' = chain_bytes h other \<and> chain_ok left \<and> chain_empty left \<and>
    heap_inv h' (mset (ch_live c') + R) (chain_units c' + X)"
proof -
  note m = chain_move_assign_correct [OF assms(1) _ assms(3,4)]
  have "chain_bytes h' c' = chain_bytes h other"
    using m assms(2) unfolding chain_bytes_def
    by (auto simp: chain_ok_def intro: refs_bytes_keeps_set [where R = "mset (ch_live other)"])
  then show ?thesis
    using m assms(2) by (auto simp: chain_ok_def chain_empty_def)
qed

lemma move_contract:
  assumes "chain_ok other" and "heap_inv h (mset (ch_live other) + R) (chain_units other + X)"
    and "chain_move (h, other) = (h', c', left)"
  shows "chain_ok c' \<and> chain_bytes h' c' = chain_bytes h other \<and> chain_ok left \<and> chain_empty left \<and>
    heap_inv h' (mset (ch_live c') + R) (chain_units c' + X)"
proof -
  have "chain_units empty_chain = {#}" by (simp add: chain_units_def empty_chain_def)
  then show ?thesis
    using move_assign_contract [of empty_chain other h R X h' c' left] assms chain_ok_empty
    by (simp add: chain_move_def chain_ok_def)
qed

end
