(* ===== verification/Framer.thy ===== *)
theory Framer
  imports Chain_Refine
begin

unbundle bit_operations_syntax

text \<open>
  The receive cursor and the message framers (include/taps/message_framer.h and
  src/message_framer.cpp). A cursor reads the received-but-unparsed bytes across the blocks of a
  chain. A framer looks at the cursor and either asks for more bytes or emits one record.

  Sizes in a \<open>ParseResult\<close> are \<open>std::size_t\<close>, hence 64-bit words: they come from the peer, and the
  additions on them wrap around. The endianness of the machine is a parameter \<open>native\<close>, as
  \<open>std::endian::native\<close> is.
\<close>

section \<open>ReceiveCursor\<close>

type_synonym cursor = "heap \<times> chain"

definition cursor_size :: "cursor \<Rightarrow> nat" where
  "cursor_size cur = ch_size (snd cur)"

text \<open>
  \<open>copy_out(off, dst)\<close>: \<open>pos\<close> is the logical offset of the current block's first byte; the result is
  \<open>dst\<close> afterwards.
\<close>

primrec copy_out_loop :: "heap \<Rightarrow> block_ref list \<Rightarrow> nat \<Rightarrow> nat \<Rightarrow> nat \<Rightarrow> nat \<Rightarrow> byte list \<Rightarrow> byte list" where
  "copy_out_loop h [] pos off out remaining dst = dst"
| "copy_out_loop h (r # rs) pos off out remaining dst =
    (let bsz = ref_size r in
     if pos + bsz \<le> off then copy_out_loop h rs (pos + bsz) off out remaining dst
     else
       (let local = (if off > pos then off - pos else 0);
            tk = min (bsz - local) remaining;
            dst' = overwrite out (take tk (drop local (ref_bytes h r))) dst
        in if remaining - tk = 0 then dst'
           else copy_out_loop h rs (pos + bsz) off (out + tk) (remaining - tk) dst'))"

definition copy_out :: "cursor \<Rightarrow> nat \<Rightarrow> byte list \<Rightarrow> byte list" where
  "copy_out cur off dst =
    (case cur of (h, c) \<Rightarrow> copy_out_loop h (ch_live c) 0 off 0 (length dst) dst)"

text \<open>\<open>try_contiguous(off, len)\<close>: the bytes of the view, if one block holds them all.\<close>

primrec try_contiguous_loop :: "heap \<Rightarrow> block_ref list \<Rightarrow> nat \<Rightarrow> nat \<Rightarrow> nat \<Rightarrow> byte list option" where
  "try_contiguous_loop h [] pos off len = None"
| "try_contiguous_loop h (r # rs) pos off len =
    (let bsz = ref_size r in
     if off < pos + bsz
     then (let local = off - pos
           in if local + len \<le> bsz then Some (slice local (local + len) (ref_bytes h r)) else None)
     else try_contiguous_loop h rs (pos + bsz) off len)"

definition try_contiguous :: "cursor \<Rightarrow> nat \<Rightarrow> nat \<Rightarrow> byte list option" where
  "try_contiguous cur off len =
    (case cur of (h, c) \<Rightarrow>
      if len = 0 then Some [] else try_contiguous_loop h (ch_live c) 0 off len)"

section \<open>Length fields\<close>

datatype endian = big | little

text \<open>
  The object representation of an integer: \<open>load_le\<close> reads it and \<open>store_le\<close> writes it, least
  significant byte first; \<open>memcpy\<close> to or from an integer uses the machine's order.
\<close>

primrec load_le :: "byte list \<Rightarrow> 'a::len word" where
  "load_le [] = 0"
| "load_le (b # bs) = ucast b OR push_bit 8 (load_le bs)"

definition store_le :: "nat \<Rightarrow> 'a::len word \<Rightarrow> byte list" where
  "store_le n w = map (\<lambda>i. ucast (drop_bit (8 * i) w)) [0..<n]"

definition memcpy_in :: "endian \<Rightarrow> byte list \<Rightarrow> 'a::len word" where
  "memcpy_in native bs = (if native = little then load_le bs else load_le (rev bs))"

definition memcpy_out :: "endian \<Rightarrow> nat \<Rightarrow> 'a::len word \<Rightarrow> byte list" where
  "memcpy_out native n w = (if native = little then store_le n w else rev (store_le n w))"

definition byteswap :: "nat \<Rightarrow> 'a::len word \<Rightarrow> 'a word" where
  "byteswap n w = load_le (rev (store_le n w))"

text \<open>\<open>decode_length\<close>: widths 2, 4 and 8 by \<open>memcpy\<close> and \<open>byteswap\<close>, other widths byte by byte.\<close>

definition decode_length :: "endian \<Rightarrow> byte list \<Rightarrow> nat \<Rightarrow> endian \<Rightarrow> u64" where
  "decode_length native hdr field_size order =
    (if field_size = 2 then
       (let v = (memcpy_in native (take 2 hdr) :: u16);
            v' = (if order \<noteq> native then byteswap 2 v else v) in ucast v')
     else if field_size = 4 then
       (let v = (memcpy_in native (take 4 hdr) :: u32);
            v' = (if order \<noteq> native then byteswap 4 v else v) in ucast v')
     else if field_size = 8 then
       (let v = (memcpy_in native (take 8 hdr) :: u64);
            v' = (if order \<noteq> native then byteswap 8 v else v) in v')
     else if order = big then
       foldl (\<lambda>len i. push_bit 8 len OR ucast (hdr ! i)) 0 [0..<field_size]
     else
       foldl (\<lambda>len i. len OR push_bit (i * 8) (ucast (hdr ! i))) 0 [0..<field_size])"

text \<open>\<open>encode_length\<close>: the bytes it writes at the front of \<open>out\<close>.\<close>

definition encode_length :: "endian \<Rightarrow> u64 \<Rightarrow> nat \<Rightarrow> endian \<Rightarrow> byte list" where
  "encode_length native len field_size order =
    (if field_size = 2 then
       (let v = (ucast len :: u16);
            v' = (if order \<noteq> native then byteswap 2 v else v) in memcpy_out native 2 v')
     else if field_size = 4 then
       (let v = (ucast len :: u32);
            v' = (if order \<noteq> native then byteswap 4 v else v) in memcpy_out native 4 v')
     else if field_size = 8 then
       (let v = len;
            v' = (if order \<noteq> native then byteswap 8 v else v) in memcpy_out native 8 v')
     else if order = big then
       map (\<lambda>i. ucast (drop_bit ((field_size - 1 - i) * 8) len AND 0xFF)) [0..<field_size]
     else
       map (\<lambda>i. ucast (drop_bit (i * 8) len AND 0xFF)) [0..<field_size])"

section \<open>ParseResult and the framers\<close>

datatype parse_action = NeedMore | Emit

record parse_result =
  pr_action :: parse_action
  pr_discard_before :: size_t
  pr_deliver :: size_t
  pr_end_of_message :: bool
  pr_gather :: bool
  pr_min_bytes_needed :: size_t

definition need_more :: "size_t \<Rightarrow> parse_result" where
  "need_more hint =
    \<lparr>pr_action = NeedMore, pr_discard_before = 0, pr_deliver = 0, pr_end_of_message = True,
     pr_gather = False, pr_min_bytes_needed = hint\<rparr>"

definition emit :: "size_t \<Rightarrow> bool \<Rightarrow> size_t \<Rightarrow> parse_result" where
  "emit dlv eom discard =
    \<lparr>pr_action = Emit, pr_discard_before = discard, pr_deliver = dlv, pr_end_of_message = eom,
     pr_gather = False, pr_min_bytes_needed = 0\<rparr>"

record lp_framer =
  lp_field_size :: nat
  lp_order :: endian

text \<open>The constructor clamps the field size to 1..8; by default it is 4 bytes, big-endian.\<close>

definition make_lp_framer :: "nat \<Rightarrow> endian \<Rightarrow> lp_framer" where
  "make_lp_framer n order = \<lparr>lp_field_size = min (max n 1) 8, lp_order = order\<rparr>"

definition default_lp_framer :: lp_framer where
  "default_lp_framer = make_lp_framer 4 big"

definition lp_parse :: "endian \<Rightarrow> lp_framer \<Rightarrow> cursor \<Rightarrow> bool \<Rightarrow> parse_result" where
  "lp_parse native f cur at_eof =
    (let avail = (of_nat (cursor_size cur) :: size_t);
         fs = (of_nat (lp_field_size f) :: size_t)
     in if avail < fs then need_more fs
        else
          (let hdr = copy_out cur 0 (replicate (lp_field_size f) 0);
               len = decode_length native hdr (lp_field_size f) (lp_order f);
               total = fs + len
           in if avail < total
              then if at_eof \<and> avail > fs then emit (avail - fs) False fs else need_more total
              else emit len True fs))"

definition lp_write_header :: "endian \<Rightarrow> lp_framer \<Rightarrow> nat \<Rightarrow> byte list" where
  "lp_write_header native f msg_size =
    encode_length native (of_nat msg_size) (lp_field_size f) (lp_order f)"

text \<open>\<open>PassthroughFramer\<close>: the whole stream is one Message; it has no header.\<close>

definition pass_parse :: "bool \<Rightarrow> cursor \<Rightarrow> bool \<Rightarrow> parse_result" where
  "pass_parse gather cur at_eof =
    (if \<not> at_eof \<or> cursor_size cur = 0 then need_more 0
     else (emit (of_nat (cursor_size cur)) True 0)\<lparr>pr_gather := gather\<rparr>)"

definition pass_write_header :: "nat \<Rightarrow> byte list" where
  "pass_write_header msg_size = []"

section \<open>The cursor reads the chain's bytes\<close>

lemma copy_out_loop_correct:
  assumes "\<And>r. r \<in> set rs \<Longrightarrow> ref_fits h r"
    and "remaining + (off - pos) \<le> length (refs_bytes h rs)" and "out + remaining \<le> length dst"
  shows "copy_out_loop h rs pos off out remaining dst
    = overwrite out (take remaining (drop (off - pos) (refs_bytes h rs))) dst"
  using assms
proof (induction rs arbitrary: pos out remaining dst)
  case Nil
  then show ?case by simp
next
  case (Cons r rs)
  have len: "length (ref_bytes h r) = ref_size r"
    using Cons.prems(1) by (simp add: ref_fits_length)
  show ?case
  proof (cases "pos + ref_size r \<le> off")
    case True
    then have "off - (pos + ref_size r) = off - pos - ref_size r" by simp
    then show ?thesis
      using True Cons.prems len Cons.IH [of remaining "pos + ref_size r" out dst]
      by (simp add: Let_def)
  next
    case False
    let ?l = "off - pos"
    let ?tk = "min (ref_size r - ?l) remaining"
    let ?a = "take ?tk (drop ?l (ref_bytes h r))"
    have l: "(if off > pos then off - pos else 0) = ?l" by simp
    have a: "length ?a = ?tk" using len by simp
    show ?thesis
    proof (cases "remaining - ?tk = 0")
      case True
      then have "remaining \<le> ref_size r - ?l" by simp
      then show ?thesis
        using False True len by (simp add: Let_def l)
    next
      case more: False
      then have tk: "?tk = ref_size r - ?l" by simp
      have z: "off - (pos + ref_size r) = 0" using False by simp
      have "copy_out_loop h rs (pos + ref_size r) off (out + ?tk) (remaining - ?tk) (overwrite out ?a dst)
          = overwrite (out + ?tk) (take (remaining - ?tk) (refs_bytes h rs)) (overwrite out ?a dst)"
        using Cons.prems len a z tk False
        by (subst Cons.IH) (auto simp: le_diff_conv)
      also have "\<dots> = overwrite out (?a @ take (remaining - ?tk) (refs_bytes h rs)) dst"
        using Cons.prems(3) a more by (simp add: overwrite_def drop_drop add.commute add.left_commute add.assoc)
      also have "?a @ take (remaining - ?tk) (refs_bytes h rs)
          = take remaining (drop ?l (refs_bytes h (r # rs)))"
        using len tk False more by simp
      finally show ?thesis
        using False more by (simp add: Let_def l)
    qed
  qed
qed

lemma copy_out_correct:
  assumes ok: "chain_shape c" and inv: "heap_inv h (mset (ch_live c) + R) X"
    and fits: "off + length dst \<le> length (chain_bytes h c)"
  shows "copy_out (h, c) off dst = take (length dst) (drop off (chain_bytes h c))"
  using chain_live_fits(1) [OF ok inv] fits
  by (simp add: copy_out_def chain_bytes_def copy_out_loop_correct) (simp add: overwrite_def)

lemma try_contiguous_loop_correct:
  "(\<And>r. r \<in> set rs \<Longrightarrow> ref_fits h r) \<Longrightarrow> pos \<le> off \<Longrightarrow> 0 < len \<Longrightarrow>
    try_contiguous_loop h rs pos off len = Some bs \<Longrightarrow>
    bs = take len (drop (off - pos) (refs_bytes h rs)) \<and> length bs = len"
proof (induction rs arbitrary: pos)
  case Nil
  then show ?case by simp
next
  case (Cons r rs)
  have size: "length (ref_bytes h r) = ref_size r"
    using Cons.prems(1) by (simp add: ref_fits_length)
  show ?case
  proof (cases "off < pos + ref_size r")
    case True
    then show ?thesis
      using Cons.prems size by (auto simp: Let_def slice_def split: if_splits)
  next
    case False
    then have "off - (pos + ref_size r) = off - pos - ref_size r" by simp
    then show ?thesis
      using False Cons.prems Cons.IH [of "pos + ref_size r"] size by (auto simp: Let_def)
  qed
qed

lemma try_contiguous_correct:
  assumes "chain_shape c" and "heap_inv h (mset (ch_live c) + R) X"
    and "try_contiguous (h, c) off len = Some bs"
  shows "bs = take len (drop off (chain_bytes h c)) \<and> length bs = len"
proof (cases "len = 0")
  case True
  then show ?thesis using assms(3) by (simp add: try_contiguous_def)
next
  case False
  then show ?thesis
    using assms(3) chain_live_fits(1) [OF assms(1,2)]
      try_contiguous_loop_correct [of "ch_live c" h 0 off len bs]
    by (auto simp: try_contiguous_def chain_bytes_def)
qed

text \<open>It answers exactly when the range lies in one block.\<close>

definition in_one_block :: "block_ref list \<Rightarrow> nat \<Rightarrow> nat \<Rightarrow> nat \<Rightarrow> bool" where
  "in_one_block rs pos off len \<longleftrightarrow>
    (\<exists>pre r post. rs = pre @ r # post \<and> pos + refs_size pre \<le> off \<and> off + len \<le> pos + refs_size pre + ref_size r)"

lemma in_one_block_Cons:
  "0 < len \<Longrightarrow> in_one_block (r # rs) pos off len \<longleftrightarrow>
    (if off < pos + ref_size r then pos \<le> off \<and> off + len \<le> pos + ref_size r
     else in_one_block rs (pos + ref_size r) off len)"
proof -
  assume len: "0 < len"
  have "in_one_block (r # rs) pos off len \<longleftrightarrow>
      pos \<le> off \<and> off + len \<le> pos + ref_size r \<or> in_one_block rs (pos + ref_size r) off len" (is "?l \<longleftrightarrow> ?here \<or> ?later")
  proof
    assume ?l
    then obtain pre q post where q: "r # rs = pre @ q # post" "pos + refs_size pre \<le> off"
      "off + len \<le> pos + refs_size pre + ref_size q"
      by (auto simp: in_one_block_def)
    show "?here \<or> ?later"
    proof (cases pre)
      case Nil
      then show ?thesis using q by simp
    next
      case (Cons p ps)
      then have "rs = ps @ q # post" "pos + ref_size r + refs_size ps \<le> off"
        "off + len \<le> pos + ref_size r + refs_size ps + ref_size q"
        using q by (simp_all add: add.assoc)
      then show ?thesis unfolding in_one_block_def by blast
    qed
  next
    assume "?here \<or> ?later"
    then show ?l
    proof
      assume ?here
      then show ?l unfolding in_one_block_def by (intro exI [of _ "[]"]) simp
    next
      assume ?later
      then obtain pre q post where "rs = pre @ q # post" "pos + ref_size r + refs_size pre \<le> off"
        "off + len \<le> pos + ref_size r + refs_size pre + ref_size q"
        by (auto simp: in_one_block_def)
      then show ?l unfolding in_one_block_def by (intro exI [of _ "r # pre"]) (simp add: add.assoc)
    qed
  qed
  moreover have "\<not> ?here" if "\<not> off < pos + ref_size r" using len that by simp
  moreover have "\<not> ?later" if "off < pos + ref_size r" using that by (auto simp: in_one_block_def)
  ultimately show ?thesis by auto
qed

lemma try_contiguous_loop_answers:
  "0 < len \<Longrightarrow> pos \<le> off \<Longrightarrow> try_contiguous_loop h rs pos off len \<noteq> None \<longleftrightarrow> in_one_block rs pos off len"
proof (induction rs arbitrary: pos)
  case (Cons r rs)
  then show ?case by (auto simp: in_one_block_Cons Let_def)
qed (simp add: in_one_block_def)

lemma try_contiguous_answers:
  "try_contiguous (h, c) off len \<noteq> None \<longleftrightarrow> len = 0 \<or> in_one_block (ch_live c) 0 off len"
  using try_contiguous_loop_answers [of len 0 off h "ch_live c"] by (simp add: try_contiguous_def)

section \<open>What the length fields hold\<close>

text \<open>Bit \<open>k\<close> of the loaded integer is bit \<open>k mod 8\<close> of byte \<open>k div 8\<close>.\<close>

lemma bit_load_le:
  "bit (load_le bs :: 'a::len word) k \<longleftrightarrow>
    k < LENGTH('a) \<and> k div 8 < length bs \<and> bit (bs ! (k div 8)) (k mod 8)"
proof (induction bs arbitrary: k)
  case Nil
  then show ?case by simp
next
  case (Cons b bs)
  show ?case
  proof (cases "k < 8")
    case True
    then show ?thesis by (auto simp: bit_simps)
  next
    case False
    then obtain j where j: "k = 8 + j" using le_Suc_ex by fastforce
    have b: "\<not> bit b (8 + j)" by (simp add: impossible_bit)
    have "(8 + j) div 8 = Suc (j div 8)" by simp
    then show ?thesis using Cons.IH [of j] b unfolding j by (auto simp: bit_simps)
  qed
qed

lemma length_store_le [simp]: "length (store_le n w) = n"
  by (simp add: store_le_def)

lemma store_le_nth: "i < n \<Longrightarrow> store_le n w ! i = ucast (drop_bit (8 * i) w)"
  by (simp add: store_le_def)

lemma load_store_le:
  "load_le (store_le n (w :: 'a::len word)) = take_bit (8 * n) (ucast w :: 'b::len word)"
proof (rule bit_word_eqI)
  fix k
  assume "k < LENGTH('b)"
  moreover have "8 * (k div 8) + k mod 8 = k" by simp
  moreover have "k div 8 < n \<longleftrightarrow> k < 8 * n" by auto
  moreover have "bit w k \<Longrightarrow> k < LENGTH('a)" by (rule bit_imp_le_length)
  ultimately show "bit (load_le (store_le n w) :: 'b word) k = bit (take_bit (8 * n) (ucast w :: 'b word)) k"
    by (auto simp: bit_load_le store_le_nth bit_simps)
qed

lemma store_load_le:
  assumes "8 * length bs \<le> LENGTH('a)"
  shows "store_le (length bs) (load_le bs :: 'a::len word) = bs"
proof (rule nth_equalityI)
  fix i
  assume "i < length (store_le (length bs) (load_le bs :: 'a word))"
  then have i: "i < length bs" by simp
  show "store_le (length bs) (load_le bs :: 'a word) ! i = bs ! i"
  proof (rule bit_word_eqI)
    fix k
    assume "k < LENGTH(8)"
    then have "k < 8" "(8 * i + k) div 8 = i" "(8 * i + k) mod 8 = k" by simp_all
    then show "bit (store_le (length bs) (load_le bs :: 'a word) ! i) k = bit (bs ! i) k"
      using i assms by (simp add: store_le_nth bit_simps bit_load_le)
  qed
qed simp

lemma ucast_load_le:
  "8 * length bs \<le> LENGTH('a) \<Longrightarrow>
    (ucast (load_le bs :: 'a::len word) :: 'b::len word) = load_le bs"
  by (rule bit_word_eqI) (auto simp: bit_simps bit_load_le)

lemma store_le_ucast:
  "8 * n \<le> LENGTH('b) \<Longrightarrow> store_le n (ucast w :: 'b::len word) = store_le n (w :: 'a::len word)"
  by (rule nth_equalityI) (auto simp: store_le_nth bit_simps intro!: bit_word_eqI dest: bit_imp_le_length)

lemma load_le_snoc:
  "load_le (bs @ [b]) = (load_le bs OR push_bit (length bs * 8) (ucast b) :: 'a::len word)"
  by (induction bs) (simp_all add: push_bit_or or.assoc add.commute)

lemma byteswap_load_le:
  "8 * length bs \<le> LENGTH('a) \<Longrightarrow> n = length bs \<Longrightarrow>
    byteswap n (load_le bs :: 'a::len word) = load_le (rev bs)"
  by (simp add: byteswap_def store_load_le)

lemma store_byteswap:
  "8 * n \<le> LENGTH('a) \<Longrightarrow> store_le n (byteswap n w :: 'a::len word) = rev (store_le n w)"
  using store_load_le [of "rev (store_le n w)", where 'a='a] by (simp add: byteswap_def)

lemma endian_neq: "order \<noteq> big \<longleftrightarrow> order = little" "little \<noteq> order \<longleftrightarrow> order = big"
  by (cases order; simp)+

text \<open>The value of a length field does not depend on the machine's byte order.\<close>

definition field_value :: "endian \<Rightarrow> byte list \<Rightarrow> u64" where
  "field_value order bs = (if order = little then load_le bs else load_le (rev bs))"

definition field_bytes :: "endian \<Rightarrow> nat \<Rightarrow> u64 \<Rightarrow> byte list" where
  "field_bytes order n len = (if order = little then store_le n len else rev (store_le n len))"

lemma memcpy_in_swapped:
  fixes native :: endian
  assumes "length bs = n" "8 * n \<le> LENGTH('a)"
  shows "(ucast (let v = (memcpy_in native bs :: 'a::len word)
             in if order \<noteq> native then byteswap n v else v) :: u64) = field_value order bs"
  using assms
  by (cases order; cases native)
     (simp_all add: memcpy_in_def field_value_def byteswap_load_le ucast_load_le)

lemma big_loop:
  "n \<le> length hdr \<Longrightarrow>
    foldl (\<lambda>len i. push_bit 8 len OR ucast (hdr ! i)) (0 :: u64) [0..<n] = load_le (rev (take n hdr))"
  by (induction n) (simp_all add: take_Suc_conv_app_nth or.commute)

lemma little_loop:
  "n \<le> length hdr \<Longrightarrow>
    foldl (\<lambda>len i. len OR push_bit (i * 8) (ucast (hdr ! i))) (0 :: u64) [0..<n] = load_le (take n hdr)"
  by (induction n) (simp_all add: take_Suc_conv_app_nth load_le_snoc)

lemma decode_length_field:
  assumes "n \<le> length hdr" "n \<le> 8"
  shows "decode_length native hdr n order = field_value order (take n hdr)"
proof -
  consider "n = 2" | "n = 4" | "n = 8" | "n \<noteq> 2" "n \<noteq> 4" "n \<noteq> 8" by blast
  then show ?thesis
  proof cases
    case 1
    then show ?thesis
      using assms memcpy_in_swapped [of "take 2 hdr" 2, where 'a=16]
      by (simp add: decode_length_def Let_def)
  next
    case 2
    then show ?thesis
      using assms memcpy_in_swapped [of "take 4 hdr" 4, where 'a=32]
      by (simp add: decode_length_def Let_def)
  next
    case 3
    then show ?thesis
      using assms memcpy_in_swapped [of "take 8 hdr" 8, where 'a=64]
      by (simp add: decode_length_def Let_def)
  next
    case 4
    then show ?thesis
      using assms big_loop [of n hdr] little_loop [of n hdr]
      by (cases order) (simp_all add: decode_length_def field_value_def)
  qed
qed

lemma memcpy_out_swapped:
  fixes native :: endian
  assumes "8 * n \<le> LENGTH('a)"
  shows "memcpy_out native n (let v = (ucast len :: 'a::len word)
             in if order \<noteq> native then byteswap n v else v) = field_bytes order n len"
  using assms
  by (cases order; cases native)
     (simp_all add: memcpy_out_def field_bytes_def store_byteswap store_le_ucast)

lemma ucast_low_byte: "(ucast (w AND 0xFF :: u64) :: byte) = ucast w"
proof -
  have "w AND 0xFF = take_bit 8 w"
    by (simp add: take_bit_eq_mask mask_eq_exp_minus_1)
  then show ?thesis by (auto intro!: bit_word_eqI simp: bit_simps)
qed

lemma length_field_bytes [simp]: "length (field_bytes order n len) = n"
  by (simp add: field_bytes_def)

lemma encode_length_field:
  assumes "n \<le> 8"
  shows "encode_length native len n order = field_bytes order n len"
proof -
  consider "n = 2" | "n = 4" | "n = 8" | "n \<noteq> 2" "n \<noteq> 4" "n \<noteq> 8" by blast
  then show ?thesis
  proof cases
    case 1
    then show ?thesis
      using memcpy_out_swapped [of 2, where 'a=16] by (simp add: encode_length_def Let_def)
  next
    case 2
    then show ?thesis
      using memcpy_out_swapped [of 4, where 'a=32] by (simp add: encode_length_def Let_def)
  next
    case 3
    then show ?thesis
      using memcpy_out_swapped [of 8, where 'a=64] by (simp add: encode_length_def Let_def)
  next
    case 4
    then show ?thesis
      by (auto simp: encode_length_def field_bytes_def endian_neq ucast_low_byte rev_nth store_le_nth
          mult.commute intro!: nth_equalityI)
  qed
qed

lemma length_encode_length [simp]: "n \<le> 8 \<Longrightarrow> length (encode_length native len n order) = n"
  by (simp add: encode_length_field)

lemma field_value_bytes: "field_value order (field_bytes order n len) = take_bit (8 * n) len"
  by (simp add: field_value_def field_bytes_def load_store_le)

lemma decode_encode_length:
  "n \<le> 8 \<Longrightarrow>
    decode_length native2 (encode_length native1 len n order @ rest) n order = take_bit (8 * n) len"
  by (simp add: decode_length_field encode_length_field field_value_bytes)

lemma field_value_bound:
  "length bs = n \<Longrightarrow> n \<le> 8 \<Longrightarrow> unat (field_value order bs) < 2 ^ (8 * n)"
proof -
  assume n: "length bs = n" "n \<le> 8"
  have "field_value order bs = take_bit (8 * n) (field_value order bs)"
    using n by (intro bit_word_eqI) (auto simp: field_value_def bit_simps bit_load_le)
  then show ?thesis
    by (metis take_bit_nat_less_exp unsigned_take_bit_eq)
qed

section \<open>What a deframer promises\<close>

text \<open>
  A parse result with its sizes as numbers, and the two contracts the receive path relies on. A
  \<open>deframer\<close> decides on the bytes the chain holds, however they are spread over blocks, and a record
  it emits consumes at least one byte and no more than there are. A \<open>stream_deframer\<close> also has a
  header for every payload that fits, recognises \<open>header @ payload\<close> at the front of the stream, and
  waits while only part of it has arrived.
\<close>

datatype deframe = More | Record nat nat bool bool

definition outcome :: "parse_result \<Rightarrow> deframe" where
  "outcome pr =
    (if pr_action pr = NeedMore then More
     else Record (unat (pr_discard_before pr)) (unat (pr_deliver pr)) (pr_end_of_message pr) (pr_gather pr))"

locale deframer =
  fixes parse :: "cursor \<Rightarrow> bool \<Rightarrow> parse_result"
    and spec :: "byte list \<Rightarrow> bool \<Rightarrow> deframe"
  assumes parse_spec:
      "chain_ok c \<Longrightarrow> heap_inv h (mset (ch_live c) + R) X \<Longrightarrow> ch_size c < 2 ^ 64 \<Longrightarrow>
        outcome (parse (h, c) eof) = spec (chain_bytes h c) eof"
    and record_bounds:
      "length bs < 2 ^ 64 \<Longrightarrow> spec bs eof = Record d k e g \<Longrightarrow> 0 < d + k \<and> d + k \<le> length bs"
    and spec_empty: "spec [] True = More"
begin

lemma parse_cases:
  assumes "chain_ok c" and "heap_inv h (mset (ch_live c) + R) X" and "ch_size c < 2 ^ 64"
  obtains (more) "pr_action (parse (h, c) eof) = NeedMore" "spec (chain_bytes h c) eof = More"
  | (emitted) d k e g where "pr_action (parse (h, c) eof) = Emit"
      "spec (chain_bytes h c) eof = Record d k e g"
      "unat (pr_discard_before (parse (h, c) eof)) = d" "unat (pr_deliver (parse (h, c) eof)) = k"
      "unat (pr_discard_before (parse (h, c) eof) + pr_deliver (parse (h, c) eof)) = d + k"
      "pr_end_of_message (parse (h, c) eof) = e" "pr_gather (parse (h, c) eof) = g"
      "0 < d + k" "d + k \<le> ch_size c"
proof (cases "pr_action (parse (h, c) eof)")
  case NeedMore
  then show ?thesis using parse_spec [OF assms, of eof] more by (simp add: outcome_def)
next
  case Emit
  let ?pr = "parse (h, c) eof"
  let ?d = "unat (pr_discard_before ?pr)" and ?k = "unat (pr_deliver ?pr)"
  have spec: "spec (chain_bytes h c) eof = Record ?d ?k (pr_end_of_message ?pr) (pr_gather ?pr)"
    using parse_spec [OF assms, of eof] Emit by (simp add: outcome_def)
  have len: "length (chain_bytes h c) = ch_size c"
    using assms by (intro chain_bytes_length)
  then have b: "0 < ?d + ?k" "?d + ?k \<le> ch_size c"
    using record_bounds [OF _ spec] assms(3) by simp_all
  then have "unat (pr_discard_before ?pr + pr_deliver ?pr) = ?d + ?k"
    using assms(3) by (simp add: unat_word_ariths)
  with b Emit spec show ?thesis by (intro emitted) simp_all
qed

end

locale stream_deframer = deframer +
  fixes header :: "byte list \<Rightarrow> byte list" and fits :: "byte list \<Rightarrow> bool"
  assumes spec_whole:
      "fits m \<Longrightarrow> spec (header m @ m @ rest) eof = Record (length (header m)) (length m) True False"
    and spec_part:
      "fits m \<Longrightarrow> length p < length (header m @ m) \<Longrightarrow> p = take (length p) (header m @ m) \<Longrightarrow>
        spec p False = More"
    and header_nonempty: "header m \<noteq> []"
begin

definition encode_all :: "byte list list \<Rightarrow> byte list" where
  "encode_all ms = concat (map (\<lambda>m. header m @ m) ms)"

lemma encode_all_simps [simp]:
  "encode_all [] = []" "encode_all (m # ms) = header m @ m @ encode_all ms"
  by (simp_all add: encode_all_def)

text \<open>A prefix of a stream of messages is asked for more, or its first message is emitted.\<close>

lemma spec_prefix_cases:
  assumes "\<And>m. m \<in> set ms \<Longrightarrow> fits m" and "encode_all ms = p @ q"
  shows "ms = [] \<and> p = [] \<or>
    (\<exists>m rest. ms = m # rest \<and>
      (spec p False = More \<and> length p < length (header m @ m) \<or>
       (\<exists>p'. p = header m @ m @ p' \<and> encode_all rest = p' @ q \<and>
          spec p eof = Record (length (header m)) (length m) True False)))"
proof (cases ms)
  case Nil
  then show ?thesis using assms(2) by simp
next
  case (Cons m rest)
  let ?f = "header m @ m"
  have m: "fits m" using assms(1) Cons by simp
  have eq: "?f @ encode_all rest = p @ q" using assms(2) Cons by simp
  show ?thesis
  proof (cases "length p < length ?f")
    case True
    then have "p = take (length p) ?f"
      using arg_cong [OF eq, of "take (length p)"] by simp
    with True spec_part [OF m] Cons show ?thesis by blast
  next
    case False
    then obtain p' where p': "p = ?f @ p'" "encode_all rest = p' @ q"
      using eq by (auto simp: append_eq_append_conv2)
    then show ?thesis using Cons spec_whole [OF m, of p' eof] by auto
  qed
qed

end

section \<open>Length-prefixed records\<close>

definition lp_spec :: "nat \<Rightarrow> endian \<Rightarrow> byte list \<Rightarrow> bool \<Rightarrow> deframe" where
  "lp_spec n order bs eof =
    (if length bs < n then More
     else
       (let len = unat (field_value order (take n bs))
        in if length bs < n + len
           then if eof \<and> n < length bs then Record n (length bs - n) False False else More
           else Record n len True False))"

definition lp_fits :: "nat \<Rightarrow> byte list \<Rightarrow> bool" where
  "lp_fits n m \<longleftrightarrow> length m < 2 ^ (8 * n)"

definition lp_header :: "nat \<Rightarrow> endian \<Rightarrow> byte list \<Rightarrow> byte list" where
  "lp_header n order m = field_bytes order n (of_nat (length m))"

lemma length_lp_header [simp]: "length (lp_header n order m) = n"
  by (simp add: lp_header_def)

lemma lp_write_header_field:
  "lp_field_size f \<le> 8 \<Longrightarrow> lp_write_header native f (length m) = lp_header (lp_field_size f) (lp_order f) m"
  by (simp add: lp_write_header_def lp_header_def encode_length_field)

lemma lp_header_value:
  assumes "n \<le> 8" "lp_fits n m"
  shows "unat (field_value order (lp_header n order m)) = length m"
proof -
  have "length m < 2 ^ 64"
  proof -
    have "(2 :: nat) ^ (8 * n) \<le> 2 ^ 64"
      using assms(1) by (intro power_increasing) simp_all
    then show ?thesis using assms(2) by (simp add: lp_fits_def)
  qed
  then show ?thesis
    using assms(2)
    by (simp add: lp_header_def field_value_bytes unsigned_take_bit_eq unat_of_nat lp_fits_def
        take_bit_nat_eq_self)
qed

text \<open>
  The parser decides on the bytes. The sum of the field size and the length is computed in
  \<open>std::size_t\<close>: this needs a field of at most 7 bytes, or a length below \<open>2 ^ 64 - n\<close>.
\<close>

lemma lp_parse_header:
  assumes ok: "chain_ok c" and inv: "heap_inv h (mset (ch_live c) + R) X"
    and n: "lp_field_size f = n" "n \<le> 8" "n \<le> ch_size c"
  shows "decode_length native (copy_out (h, c) 0 (replicate n 0)) n (lp_order f)
    = field_value (lp_order f) (take n (chain_bytes h c))"
proof -
  have "copy_out (h, c) 0 (replicate n 0) = take n (chain_bytes h c)"
    using copy_out_correct [of c h R X 0 "replicate n 0"] ok inv n chain_bytes_length [OF ok inv]
    by (simp add: chain_ok_def)
  then show ?thesis
    using n chain_bytes_length [OF ok inv] by (simp add: decode_length_field)
qed

lemma lp_parse_spec:
  assumes ok: "chain_ok c" and inv: "heap_inv h (mset (ch_live c) + R) X"
    and size: "ch_size c < 2 ^ 64" and n: "lp_field_size f = n" "n \<le> 8"
    and small: "n \<le> ch_size c \<Longrightarrow>
      n + unat (field_value (lp_order f) (take n (chain_bytes h c))) < 2 ^ 64"
  shows "outcome (lp_parse native f (h, c) eof) = lp_spec n (lp_order f) (chain_bytes h c) eof"
proof -
  have len: "length (chain_bytes h c) = ch_size c"
    using ok inv by (rule chain_bytes_length)
  have un: "unat (of_nat n :: size_t) = n" "unat (of_nat (ch_size c) :: size_t) = ch_size c"
    using size n by (simp_all add: unat_of_nat)
  show ?thesis
  proof (cases "ch_size c < n")
    case True
    then show ?thesis
      using un n len
      by (simp add: outcome_def lp_parse_def cursor_size_def lp_spec_def Let_def word_less_nat_alt need_more_def)
  next
    case False
    define v where "v = field_value (lp_order f) (take n (chain_bytes h c))"
    have dec: "decode_length native (copy_out (h, c) 0 (replicate n 0)) n (lp_order f) = v"
      unfolding v_def using ok inv n False by (intro lp_parse_header) simp_all
    have tot: "unat (of_nat n + v) = n + unat v"
      using small False un by (simp add: v_def unat_word_ariths)
    have sub: "unat ((of_nat (ch_size c) :: size_t) - of_nat n) = ch_size c - n"
      using un False by (simp add: unat_sub word_le_nat_alt)
    show ?thesis
      using False un n len tot sub
      by (simp add: outcome_def lp_parse_def cursor_size_def lp_spec_def Let_def word_less_nat_alt need_more_def
          emit_def dec flip: v_def)
  qed
qed

lemma lp_no_wrap:
  assumes "n \<le> 7" "length bs = n"
  shows "n + unat (field_value order bs) < 2 ^ 64"
proof -
  have "unat (field_value order bs) < 2 ^ (8 * n)"
    using assms by (intro field_value_bound) simp_all
  also have "\<dots> \<le> 2 ^ 56"
    using assms by (intro power_increasing) simp_all
  finally show ?thesis using assms by simp
qed

lemma lp_spec_bounds:
  "1 \<le> n \<Longrightarrow> lp_spec n order bs eof = Record d k e g \<Longrightarrow> 0 < d + k \<and> d + k \<le> length bs"
  by (auto simp: lp_spec_def Let_def split: if_splits)

lemma lp_spec_whole:
  "n \<le> 8 \<Longrightarrow> lp_fits n m \<Longrightarrow>
    lp_spec n order (lp_header n order m @ m @ rest) eof = Record n (length m) True False"
  by (simp add: lp_spec_def lp_header_value)

lemma lp_spec_part:
  assumes "n \<le> 8" "lp_fits n m" "length p < length (lp_header n order m @ m)"
    and p: "p = take (length p) (lp_header n order m @ m)"
  shows "lp_spec n order p False = More"
proof (cases "length p < n")
  case False
  then have "take n p = lp_header n order m"
    by (subst p) simp
  then show ?thesis using assms False by (simp add: lp_spec_def lp_header_value)
qed (simp add: lp_spec_def)

lemma make_lp_framer_sel [simp]:
  "lp_field_size (make_lp_framer n order) = min (max n 1) 8" "lp_order (make_lp_framer n order) = order"
  by (simp_all add: make_lp_framer_def)

text \<open>
  Every framer with a field of at most 7 bytes, whatever its and the machine's byte order; and the
  default one, with 4 bytes in network order.
\<close>

lemma lp_stream_deframer:
  assumes "1 \<le> n" "n \<le> 7" "lp_field_size f = n" "lp_order f = order"
  shows "stream_deframer (lp_parse native f) (lp_spec n order) (lp_header n order) (lp_fits n)"
proof
  show "outcome (lp_parse native f (h, c) eof) = lp_spec n order (chain_bytes h c) eof"
    if "chain_ok c" "heap_inv h (mset (ch_live c) + R) X" "ch_size c < 2 ^ 64" for c h R X eof
    using lp_parse_spec [OF that assms(3)] lp_no_wrap [of n "take n (chain_bytes h c)"]
      chain_bytes_length [OF that(1,2)] assms by simp
  show "lp_header n order m \<noteq> []" for m
    using assms(1) length_lp_header [of n order m] by (auto simp del: length_lp_header)
qed (use assms lp_spec_bounds lp_spec_part in \<open>auto simp: lp_spec_whole\<close>,
     simp_all add: lp_spec_def)

interpretation lp: stream_deframer
  "lp_parse native (make_lp_framer (min n 7) order)" "lp_spec (max 1 (min n 7)) order"
  "lp_header (max 1 (min n 7)) order" "lp_fits (max 1 (min n 7))"
  for native n order
  by (rule lp_stream_deframer) (auto simp: max_def)

interpretation lp4: stream_deframer
  "lp_parse native default_lp_framer" "lp_spec 4 big" "lp_header 4 big" "lp_fits 4"
  for native
  by (rule lp_stream_deframer) (simp_all add: default_lp_framer_def)

section \<open>The whole stream as one message\<close>

definition pass_spec :: "bool \<Rightarrow> byte list \<Rightarrow> bool \<Rightarrow> deframe" where
  "pass_spec gather bs eof =
    (if \<not> eof \<or> bs = [] then More else Record 0 (length bs) True gather)"

lemma pass_parse_spec:
  assumes "chain_ok c" "heap_inv h (mset (ch_live c) + R) X" "ch_size c < 2 ^ 64"
  shows "outcome (pass_parse g (h, c) eof) = pass_spec g (chain_bytes h c) eof"
proof -
  have len: "length (chain_bytes h c) = ch_size c"
    using assms by (intro chain_bytes_length)
  moreover have "chain_bytes h c = [] \<longleftrightarrow> ch_size c = 0"
    using len by (metis length_0_conv)
  ultimately show ?thesis
    using assms(3)
    by (simp add: outcome_def pass_parse_def pass_spec_def cursor_size_def need_more_def emit_def unat_of_nat)
qed

interpretation pass: deframer "pass_parse g" "pass_spec g" for g
  by unfold_locales (erule (2) pass_parse_spec, auto simp: pass_spec_def split: if_splits)

section \<open>Properties\<close>

text \<open>
  C21. The receive cursor hides the block structure: \<open>copy_out\<close> fills its destination with the requested range of
  the chain's bytes, and \<open>try_contiguous\<close> answers with it exactly when the range is empty or lies in one block.
\<close>

theorem cursor_reads_the_stream:
  assumes "chain_shape c" and "heap_inv h (mset (ch_live c) + R) X"
  shows "(off + length dst \<le> length (chain_bytes h c) \<longrightarrow>
      copy_out (h, c) off dst = slice off (off + length dst) (chain_bytes h c)) \<and>
    (\<forall>len bs. try_contiguous (h, c) off len = Some bs \<longrightarrow>
      bs = slice off (off + len) (chain_bytes h c) \<and> length bs = len) \<and>
    (\<forall>len. try_contiguous (h, c) off len \<noteq> None \<longleftrightarrow> len = 0 \<or>
      (\<exists>pre r post. ch_live c = pre @ r # post \<and> refs_size pre \<le> off \<and> off + len \<le> refs_size pre + ref_size r))"
  using copy_out_correct [OF assms] try_contiguous_correct [OF assms] try_contiguous_answers [of h c off]
  by (auto simp: slice_def in_one_block_def)

lemma cursor_reads_the_stream_witness:
  "copy_out (demo_heap demo_handles {#} [], demo_chain) 1 [0, 0] = [11, 13]"
  using cursor_reads_the_stream [OF demo_chain_ok(2) demo_chain_inv [of "{#}" "[]"], of 1 "[0, 0]"]
  by (simp add: demo_bytes slice_def)

text \<open>
  C22. A length field read back gives the number written, modulo what the field can hold, for every
  width and byte order, whatever the byte orders of the two machines. A message of 256^n bytes or
  more is therefore announced with a wrong length.
\<close>

theorem length_field_roundtrip:
  assumes "n \<le> 8" and "m < 2 ^ 64"
  shows "unat (decode_length native2 (encode_length native1 (of_nat m) n order @ rest) n order)
    = m mod 256 ^ n"
proof -
  have "(2 :: nat) ^ (8 * n) = 256 ^ n" by (simp add: power_mult)
  moreover have "unat (of_nat m :: u64) = m" using assms(2) by (simp add: unat_of_nat)
  moreover have "take_bit (8 * n) m = m mod 2 ^ (8 * n)" by (rule take_bit_eq_mod)
  ultimately show ?thesis
    using assms(1) by (simp add: decode_encode_length unsigned_take_bit_eq)
qed

lemma length_field_roundtrip_witness:
  "unat (decode_length big (encode_length little (of_nat 70000) 2 big @ []) 2 big) = 4464"
  using length_field_roundtrip [of 2 70000 big little big "[]"] by simp

text \<open>
  C23. The length-prefixed parser sees only the bytes, not the blocks they are spread over, and for
  fields of up to 7 bytes decides exactly as the byte-level specification says.
\<close>

theorem lp_parse_refines:
  assumes "chain_ok c" and "heap_inv h (mset (ch_live c) + R) X" and "ch_size c < 2 ^ 64" and "n \<le> 7"
  shows "outcome (lp_parse native (make_lp_framer n order) (h, c) eof)
    = lp_spec (max 1 n) order (chain_bytes h c) eof"
  using lp.parse_spec [OF assms(1-3), of native n order eof] assms(4) by (simp add: min_def)

lemma lp_parse_refines_witness:
  "outcome (lp_parse little (make_lp_framer 1 big) (demo_heap demo_handles {#} [], demo_chain) True)
    = Record 1 3 False False"
  using lp_parse_refines [OF demo_chain_ok(1) demo_chain_inv [of "{#}" "[]"], of 1 little big True]
  by (simp add: demo_bytes lp_spec_def field_value_def)

text \<open>
  Framing preserves message boundaries: whatever follows on the stream, the default framer
  emits exactly the payload behind the header its sender wrote, as one complete record, and while any
  part of it is missing it asks for more.
\<close>

lemma lp_message_boundaries:
  assumes "chain_ok c" and "heap_inv h (mset (ch_live c) + R) X" and "ch_size c < 2 ^ 64"
    and "length m < 2 ^ 32"
  shows "(\<forall>rest. chain_bytes h c = lp_write_header native1 default_lp_framer (length m) @ m @ rest \<longrightarrow>
      outcome (lp_parse native2 default_lp_framer (h, c) eof) = Record 4 (length m) True False) \<and>
    (\<forall>k < 4 + length m. chain_bytes h c = take k (lp_write_header native1 default_lp_framer (length m) @ m) \<longrightarrow>
      outcome (lp_parse native2 default_lp_framer (h, c) False) = More)"
proof -
  have hdr: "lp_write_header native1 default_lp_framer (length m) = lp_header 4 big m"
    by (simp add: lp_write_header_field default_lp_framer_def)
  have fits: "lp_fits 4 m" using assms(4) by (simp add: lp_fits_def)
  have "lp_spec 4 big (take k (lp_header 4 big m @ m)) False = More" if "k < 4 + length m" for k
  proof -
    have "length (take k (lp_header 4 big m @ m)) = k" using that by simp
    then show ?thesis
      using that lp4.spec_part [OF fits, of "take k (lp_header 4 big m @ m)"]
      by (simp del: take_append length_take)
  qed
  then show ?thesis
    using lp4.parse_spec [OF assms(1-3)] lp4.spec_whole [OF fits] by (simp add: hdr)
qed

definition hello_heap :: heap where
  "hello_heap = fill_block 0 0 [0, 0, 0, 3, 104, 105, 33, 9] (demo_heap demo_handles {#} [])"

definition hello_chain :: chain where
  "hello_chain = \<lparr>ch_slots = [demo_ref 0 2, demo_ref 2 8], ch_ext = None, ch_head = 0, ch_count = 2,
                  ch_size = 8\<rparr>"

lemma hello_ok: "chain_ok hello_chain" "ch_live hello_chain = [demo_ref 0 2, demo_ref 2 8]"
  "ch_size hello_chain = 8"
  "chain_bytes hello_heap hello_chain = [0, 0, 0, 3, 104, 105, 33, 9]"
  by (simp_all add: hello_chain_def hello_heap_def chain_ok_def chain_shape_def kInline_def
      ch_capacity_def inline_storage_def ref_good_def ref_size_def ch_live_def ch_data_def
      chain_bytes_def ref_bytes_def block_data_def fill_block_def demo_heap_def db_capacity_def
      overwrite_def slice_def)

lemma hello_inv: "heap_inv hello_heap (mset (ch_live hello_chain) + {#}) {#}"
proof -
  have d: "h_blocks (demo_heap demo_handles {#} []) 0 = Some (the (h_blocks (demo_heap demo_handles {#} []) 0))"
    by (simp add: demo_heap_def)
  have eq: "hello_heap = demo_heap demo_handles {#} []\<lparr>h_blocks := (h_blocks (demo_heap demo_handles {#} []))
      (0 \<mapsto> (the (h_blocks (demo_heap demo_handles {#} []) 0))\<lparr>db_storage := [0, 0, 0, 3, 104, 105, 33, 9]\<rparr>)\<rparr>"
    by (simp add: hello_heap_def fill_block_def demo_heap_def db_capacity_def overwrite_def)
  have inv: "heap_inv (demo_heap demo_handles {#} []) demo_handles {#}"
    by (rule demo_heap_inv) (auto simp: demo_handles_def)
  have "heap_inv hello_heap (mset (ch_live hello_chain)) {#}"
    unfolding eq
    by (rule heap_inv_upd [OF inv d])
       (auto simp: hello_ok(2) demo_handles_def demo_heap_def db_capacity_def window_ok_def)
  then show ?thesis by simp
qed

text \<open>
  C24. With an 8-byte field the sum of field size and length wraps around: a peer that announces a
  length of 2^64 - 8 or more makes the parser emit, from whatever has arrived, a complete record
  whose total size, as the receive path computes it, is less than 8 bytes.
\<close>

theorem lp8_length_wraps:
  assumes "chain_ok c" and "heap_inv h (mset (ch_live c) + R) X" and "ch_size c < 2 ^ 64"
    and "lp_field_size f = 8" and "8 \<le> ch_size c"
    and "2 ^ 64 - 8 \<le> unat (field_value (lp_order f) (take 8 (chain_bytes h c)))"
  shows "outcome (lp_parse native f (h, c) eof)
      = Record 8 (unat (field_value (lp_order f) (take 8 (chain_bytes h c)))) True False \<and>
    unat (pr_discard_before (lp_parse native f (h, c) eof) + pr_deliver (lp_parse native f (h, c) eof)) < 8"
proof -
  define v where "v = field_value (lp_order f) (take 8 (chain_bytes h c))"
  have dec: "decode_length native (copy_out (h, c) 0 (replicate 8 0)) 8 (lp_order f) = v"
    unfolding v_def using assms by (intro lp_parse_header) simp_all
  have "unat v < 2 ^ 64" using unsigned_less [of v] by simp
  then have w: "unat (8 + v) < 8"
    using assms(6) by (simp add: v_def [symmetric] unat_word_ariths mod_if) arith
  have s: "unat (of_nat (ch_size c) :: size_t) = ch_size c"
    using assms(3) by (simp add: unat_of_nat)
  have "\<not> (of_nat (ch_size c) :: size_t) < 8" "\<not> (of_nat (ch_size c) :: size_t) < 8 + v"
    using s w assms(5) by (simp_all add: word_less_nat_alt)
  then show ?thesis
    using w by (simp add: outcome_def lp_parse_def cursor_size_def assms(4) dec emit_def Let_def flip: v_def)
qed

lemma lp8_length_wraps_witness:
  "outcome (lp_parse little (make_lp_framer 8 little)
      (fill_block 0 0 (replicate 8 255) hello_heap, hello_chain) False) = Record 8 (2 ^ 64 - 1) True False"
proof -
  let ?h = "fill_block 0 0 (replicate 8 255) hello_heap"
  have cap: "length (block_data hello_heap 0) = 8"
    by (simp add: hello_heap_def fill_block_def demo_heap_def db_capacity_def block_data_def)
  have inv: "heap_inv ?h (mset (ch_live hello_chain) + {#}) {#}"
    using hello_inv cap
    by (intro heap_inv_fill_block(1) [OF hello_inv, of "demo_ref 0 2"]) (simp_all add: hello_ok(2))
  have bytes: "chain_bytes ?h hello_chain = replicate 8 255"
    by (simp add: chain_bytes_def hello_ok(2) ref_bytes_def slice_def
        heap_inv_fill_block(2) [OF hello_inv, of "demo_ref 0 2" 0] cap)
       (simp add: overwrite_def cap numeral_eq_Suc)
  have v: "field_value little (replicate 8 255) = (- 1)"
  proof -
    have "replicate 8 (255 :: byte) = [255, 255, 255, 255, 255, 255, 255, 255]"
      by (simp add: numeral_eq_Suc)
    then show ?thesis by (simp add: field_value_def)
  qed
  have u: "unat (- 1 :: u64) = 18446744073709551615" by (simp add: unsigned_minus_1_eq_mask mask_eq_exp_minus_1)
  show ?thesis
    using lp8_length_wraps [OF hello_ok(1) inv, of "make_lp_framer 8 little" little False]
    by (simp add: bytes hello_ok(3) v u)
qed

text \<open>
  Without a framing header the whole stream is one message: nothing is emitted before the
  peer has ended its side, then all the bytes at once; an empty stream emits nothing.
\<close>

theorem passthrough_one_message:
  assumes "chain_ok c" and "heap_inv h (mset (ch_live c) + R) X" and "ch_size c < 2 ^ 64"
  shows "outcome (pass_parse g (h, c) eof)
    = (if eof \<and> chain_bytes h c \<noteq> [] then Record 0 (length (chain_bytes h c)) True g else More)"
  using pass.parse_spec [OF assms, of g eof] by (simp add: pass_spec_def)

lemma passthrough_one_message_witness:
  "outcome (pass_parse True (hello_heap, hello_chain) True) = Record 0 8 True True"
  using passthrough_one_message [OF hello_ok(1) hello_inv, of True True] by (simp add: hello_ok(3,4))

end
