(* ===== verification/Messages.thy ===== *)
theory Messages
  imports Chain_Refine
begin

text \<open>
  Messages (class \<open>Message\<close> of taps_api.h, src/Message.cpp), the chains they hold (\<open>make_chain\<close> of
  buffer/block_chain.h) and the sequence of buffers a send hands to the socket
  (transport/const_buffer_sequence.h).

  A message owns a vector, views the caller's bytes, or holds a chain of received blocks. The chain
  is kept with the resource the \<open>BlockChain\<close> object came from, the gathered copy with the resource
  of its buffer. A message that holds a chain is moved, never copied, in the modelled code.
\<close>

section \<open>Data\<close>

datatype Priority = LOW | NORMAL | HIGH | URGENT

datatype Lifetime = SESSION | MESSAGE | RESPONSE

record message_context =
  mc_priority :: Priority
  mc_lifetime :: Lifetime
  mc_ordered :: bool
  mc_reliable :: bool
  mc_timeout :: int

definition default_context :: message_context where
  "default_context =
    \<lparr>mc_priority = NORMAL, mc_lifetime = SESSION, mc_ordered = True, mc_reliable = True, mc_timeout = 0\<rparr>"

record message =
  msg_owned :: "byte list"
  msg_view :: "byte list"
  msg_chain :: "(nat \<times> chain) option"
  msg_gathered :: "(nat \<times> byte list) option"
  msg_owning :: bool
  msg_eom :: bool
  msg_context :: message_context

definition message_of_vector :: "byte list \<Rightarrow> message_context \<Rightarrow> message" where
  "message_of_vector bytes ctx =
    \<lparr>msg_owned = bytes, msg_view = [], msg_chain = None, msg_gathered = None, msg_owning = True,
     msg_eom = True, msg_context = ctx\<rparr>"

definition message_of_span :: "byte list \<Rightarrow> message_context \<Rightarrow> message" where
  "message_of_span bytes ctx =
    \<lparr>msg_owned = [], msg_view = bytes, msg_chain = None, msg_gathered = None, msg_owning = False,
     msg_eom = True, msg_context = ctx\<rparr>"

definition message_of_chain :: "nat \<times> chain \<Rightarrow> message_context \<Rightarrow> bool \<Rightarrow> message" where
  "message_of_chain rc ctx eom =
    \<lparr>msg_owned = [], msg_view = [], msg_chain = Some rc, msg_gathered = None, msg_owning = False,
     msg_eom = eom, msg_context = ctx\<rparr>"

definition is_chained :: "message \<Rightarrow> bool" where
  "is_chained m = (msg_chain m \<noteq> None)"

text \<open>
  \<open>make_chain(resource, chain)\<close>: the \<open>BlockChain\<close> object is allocated, then move-constructed from
  the temporary, which is destroyed at the end; if the allocation throws only the latter happens.
\<close>

definition make_chain :: "nat \<Rightarrow> heap \<times> chain \<Rightarrow> heap \<times> chain option" where
  "make_chain res s =
    (case s of (h, tmp) \<Rightarrow>
      (case res_allocate (Chain_Alloc res) h of
         (False, h1) \<Rightarrow> (chain_destroy (h1, tmp), None)
       | (True, h1) \<Rightarrow>
           (case chain_move_assign empty_chain (h1, tmp) of
              (h2, c, rest) \<Rightarrow> (chain_destroy (h2, rest), Some c))))"

section \<open>Reading a message\<close>

definition message_size :: "message \<Rightarrow> nat" where
  "message_size m =
    (case msg_chain m of Some (_, c) \<Rightarrow> ch_size c
     | None \<Rightarrow> if msg_owning m then length (msg_owned m) else length (msg_view m))"

text \<open>
  \<open>ensure_gathered()\<close>: nothing, the one block, the copy made earlier, or a copy made now; \<open>None\<close> when
  its buffer cannot be allocated. The last component is the message afterwards.
\<close>

definition ensure_gathered :: "heap \<times> message \<Rightarrow> byte list option \<times> heap \<times> message" where
  "ensure_gathered s =
    (case s of (h, m) \<Rightarrow>
      (case msg_chain m of
         None \<Rightarrow> (Some [], h, m)
       | Some (_, c) \<Rightarrow>
           if chain_empty c then (Some [], h, m)
           else if ch_count c = 1 then (Some (ref_bytes h (ch_data c ! ch_head c)), h, m)
           else
             (case msg_gathered m of
                Some (_, g) \<Rightarrow> (Some g, h, m)
              | None \<Rightarrow>
                  (let n = ch_size c; res = the (chain_resource h c)
                   in case res_allocate (Gather_Alloc res n) h of
                        (False, h1) \<Rightarrow> (None, h1, m)
                      | (True, h1) \<Rightarrow>
                          (let g = fst (copy_to h1 c (map (h_junk h1) [0..<n]))
                           in (Some g, h1, m\<lparr>msg_gathered := Some (res, g)\<rparr>))))))"

definition as_bytes :: "heap \<times> message \<Rightarrow> byte list option \<times> heap \<times> message" where
  "as_bytes s =
    (case s of (h, m) \<Rightarrow>
      if is_chained m then ensure_gathered (h, m)
      else if msg_owning m then (Some (msg_owned m), h, m)
      else (Some (msg_view m), h, m))"

definition segment_count :: "message \<Rightarrow> nat" where
  "segment_count m = (case msg_chain m of Some (_, c) \<Rightarrow> ch_count c | None \<Rightarrow> 1)"

definition segment :: "heap \<Rightarrow> message \<Rightarrow> nat \<Rightarrow> byte list" where
  "segment h m i =
    (case msg_chain m of Some (_, c) \<Rightarrow> ref_bytes h (ch_data c ! (ch_head c + i))
     | None \<Rightarrow> if msg_owning m then msg_owned m else msg_view m)"

text \<open>The range \<open>blocks()\<close>: the segments from \<open>begin()\<close> to \<open>end()\<close>.\<close>

definition message_blocks :: "heap \<Rightarrow> message \<Rightarrow> byte list list" where
  "message_blocks h m = map (segment h m) [0..<segment_count m]"

text \<open>The free function \<open>gather\<close>: the caller's buffer afterwards, and the number of bytes written.\<close>

fun gather_loop :: "byte list list \<Rightarrow> nat \<Rightarrow> byte list \<Rightarrow> byte list \<times> nat" where
  "gather_loop [] off out = (out, off)"
| "gather_loop (s # ss) off out = gather_loop ss (off + length s) (overwrite off s out)"

definition gather :: "heap \<Rightarrow> byte list \<Rightarrow> message \<Rightarrow> byte list \<times> nat" where
  "gather h out m = gather_loop (message_blocks h m) 0 out"

text \<open>Destruction of a message: the gathered copy, then the chain object.\<close>

definition message_destroy :: "heap \<times> message \<Rightarrow> heap" where
  "message_destroy s =
    (case s of (h, m) \<Rightarrow>
      (let h1 = (case msg_gathered m of None \<Rightarrow> h
                 | Some (res, g) \<Rightarrow> res_deallocate (Gather_Alloc res (length g)) h)
       in case msg_chain m of None \<Rightarrow> h1
          | Some (res, c) \<Rightarrow> res_deallocate (Chain_Alloc res) (chain_destroy (h1, c))))"

section \<open>ConstBufferSequence\<close>

record buffer_seq =
  bs_header :: "byte list"
  bs_body :: "byte list"
  bs_chain :: "chain option"

definition seq_of_body :: "byte list \<Rightarrow> byte list \<Rightarrow> buffer_seq" where
  "seq_of_body header body = \<lparr>bs_header = header, bs_body = body, bs_chain = None\<rparr>"

definition seq_of_chain :: "byte list \<Rightarrow> chain \<Rightarrow> buffer_seq" where
  "seq_of_chain header c = \<lparr>bs_header = header, bs_body = [], bs_chain = Some c\<rparr>"

definition seq_of_message :: "heap \<Rightarrow> byte list \<Rightarrow> message \<Rightarrow> buffer_seq" where
  "seq_of_message h header m =
    \<lparr>bs_header = header, bs_body = (if is_chained m then [] else segment h m 0),
     bs_chain = map_option snd (msg_chain m)\<rparr>"

datatype stage = Header_Stage | Body_Stage | Chain_Stage | End_Stage

fun next_stage :: "stage \<Rightarrow> stage" where
  "next_stage Header_Stage = Body_Stage"
| "next_stage Body_Stage = Chain_Stage"
| "next_stage Chain_Stage = End_Stage"
| "next_stage End_Stage = End_Stage"

text \<open>An iterator: its stage, and the index of the entry \<open>ref_\<close> points to (0 for the null pointer).\<close>

type_synonym seq_iter = "stage \<times> nat"

definition skip_empty :: "buffer_seq \<Rightarrow> seq_iter \<Rightarrow> seq_iter" where
  "skip_empty seq it =
    (case it of (st, ref) \<Rightarrow>
      (let st1 = (if st = Header_Stage \<and> bs_header seq = [] then Body_Stage else st);
           (st2, ref2) =
             (if st1 = Body_Stage \<and> (bs_chain seq \<noteq> None \<or> bs_body seq = [])
              then (Chain_Stage, case bs_chain seq of Some c \<Rightarrow> ch_head c | None \<Rightarrow> 0) else (st1, ref));
           st3 =
             (if st2 = Chain_Stage \<and>
                 (case bs_chain seq of None \<Rightarrow> True | Some c \<Rightarrow> ref2 = ch_head c + ch_count c)
              then End_Stage else st2)
       in (st3, ref2)))"

definition seq_begin :: "buffer_seq \<Rightarrow> seq_iter" where
  "seq_begin seq = skip_empty seq (Header_Stage, 0)"

definition seq_next :: "buffer_seq \<Rightarrow> seq_iter \<Rightarrow> seq_iter" where
  "seq_next seq it =
    (case it of (st, ref) \<Rightarrow>
      skip_empty seq (if st = Chain_Stage then (st, ref + 1) else (next_stage st, ref)))"

definition seq_deref :: "heap \<Rightarrow> buffer_seq \<Rightarrow> seq_iter \<Rightarrow> byte list" where
  "seq_deref h seq it =
    (case it of (st, ref) \<Rightarrow>
      if st = Header_Stage then bs_header seq
      else if st = Body_Stage then bs_body seq
      else (case bs_chain seq of Some c \<Rightarrow> ref_bytes h (ch_data c ! ref) | None \<Rightarrow> []))"

text \<open>The buffers a range-for over the sequence visits; the loop ends when it reaches \<open>end()\<close>.\<close>

partial_function (option) seq_buffers_from :: "heap \<Rightarrow> buffer_seq \<Rightarrow> seq_iter \<Rightarrow> byte list list option" where
  "seq_buffers_from h seq it =
    (if fst it = End_Stage then Some []
     else Option.bind (seq_buffers_from h seq (seq_next seq it)) (\<lambda>bs. Some (seq_deref h seq it # bs)))"

definition seq_buffers :: "heap \<Rightarrow> buffer_seq \<Rightarrow> byte list list option" where
  "seq_buffers h seq = seq_buffers_from h seq (seq_begin seq)"

section \<open>What a message holds\<close>

definition message_bytes :: "heap \<Rightarrow> message \<Rightarrow> byte list" where
  "message_bytes h m =
    (case msg_chain m of Some (_, c) \<Rightarrow> chain_bytes h c
     | None \<Rightarrow> if msg_owning m then msg_owned m else msg_view m)"

definition message_refs :: "message \<Rightarrow> block_ref multiset" where
  "message_refs m = (case msg_chain m of Some (_, c) \<Rightarrow> mset (ch_live c) | None \<Rightarrow> {#})"

definition message_units :: "message \<Rightarrow> alloc_unit multiset" where
  "message_units m =
    (case msg_chain m of Some (res, c) \<Rightarrow> add_mset (Chain_Alloc res) (chain_units c) | None \<Rightarrow> {#}) +
    (case msg_gathered m of Some (res, g) \<Rightarrow> {#Gather_Alloc res (length g)#} | None \<Rightarrow> {#})"

definition message_ok :: "heap \<Rightarrow> message \<Rightarrow> bool" where
  "message_ok h m \<longleftrightarrow>
    (case msg_chain m of Some (_, c) \<Rightarrow> chain_ok c | None \<Rightarrow> msg_gathered m = None) \<and>
    (case msg_gathered m of Some (_, g) \<Rightarrow> g = message_bytes h m | None \<Rightarrow> True)"

lemma message_of_chain_simps [simp]:
  "message_bytes h (message_of_chain (res, c) ctx e) = chain_bytes h c"
  "message_refs (message_of_chain (res, c) ctx e) = mset (ch_live c)"
  "message_units (message_of_chain (res, c) ctx e) = add_mset (Chain_Alloc res) (chain_units c)"
  "message_ok h (message_of_chain (res, c) ctx e) = chain_ok c"
  "msg_eom (message_of_chain (res, c) ctx e) = e"
  "message_size (message_of_chain (res, c) ctx e) = ch_size c"
  by (simp_all add: message_bytes_def message_refs_def message_units_def message_ok_def message_size_def
      message_of_chain_def)

lemma make_chain_correct:
  assumes ok: "chain_ok tmp" and inv: "heap_inv h (mset (ch_live tmp) + R) (chain_units tmp + X)"
    and run: "make_chain res (h, tmp) = (h', oc)"
  shows "case oc of
      None \<Rightarrow> heap_inv h' R X \<and> keeps R h h'
    | Some c \<Rightarrow> chain_ok c \<and> chain_bytes h' c = chain_bytes h tmp \<and> ch_size c = ch_size tmp \<and>
        heap_inv h' (mset (ch_live c) + R) (add_mset (Chain_Alloc res) (chain_units c) + X) \<and>
        keeps (mset (ch_live c) + R) h h' \<and> ch_live c = ch_live tmp"
proof -
  have shape: "chain_shape tmp" using ok by (simp add: chain_ok_def)
  obtain g h1 where a: "res_allocate (Chain_Alloc res) h = (g, h1)" by fastforce
  show ?thesis
  proof (cases g)
    case False
    have h': "h' = chain_destroy (h1, tmp)" "oc = None"
      using run a False by (simp_all add: make_chain_def)
    have "heap_inv h1 (mset (ch_live tmp) + R) (chain_units tmp + X)"
      using heap_inv_refused [OF inv] a False by simp
    then show ?thesis
      using chain_destroy_correct [OF shape] keeps_trans [OF keeps_allocate [OF a]] h' by auto
  next
    case True
    obtain h2 c rest where mv: "chain_move_assign empty_chain (h1, tmp) = (h2, c, rest)"
      by (metis prod.exhaust)
    have h': "h' = chain_destroy (h2, rest)" "oc = Some c"
      using run a True mv by (simp_all add: make_chain_def)
    have "heap_inv h1 (mset (ch_live tmp) + R) (add_mset (Chain_Alloc res) (chain_units tmp + X))"
      using heap_inv_granted [OF inv] a True by simp
    then have inv1: "heap_inv h1 (mset (ch_live empty_chain) + (mset (ch_live tmp) + R))
        (chain_units empty_chain + (chain_units tmp + add_mset (Chain_Alloc res) X))"
      by simp
    have m: "chain_shape c \<and> ch_live c = ch_live tmp \<and> ch_size c = ch_size tmp \<and>
        chain_ok rest \<and> ch_live rest = [] \<and> chain_units rest = {#} \<and>
        heap_inv h2 (mset (ch_live tmp) + R) (chain_units c + add_mset (Chain_Alloc res) X) \<and>
        keeps (mset (ch_live tmp) + R) h1 h2"
      by (rule chain_move_assign_correct [OF chain_ok_empty(4) shape inv1 mv])
    have inv2: "heap_inv h2 (mset (ch_live rest) + (mset (ch_live tmp) + R))
        (chain_units rest + (chain_units c + add_mset (Chain_Alloc res) X))"
      using m by simp
    have d: "heap_inv h' (mset (ch_live tmp) + R) (chain_units c + add_mset (Chain_Alloc res) X)"
      "keeps (mset (ch_live tmp) + R) h2 h'"
      using chain_destroy_correct [OF _ inv2] m h' by (simp_all add: chain_ok_def)
    have k: "keeps (mset (ch_live tmp) + R) h h'"
      using keeps_trans [OF keeps_trans [OF keeps_allocate [OF a]]] m d(2) by blast
    have "chain_bytes h' c = chain_bytes h tmp"
      using m k unfolding chain_bytes_def
      by (auto intro: refs_bytes_keeps_set [where R = "mset (ch_live tmp)"])
    then show ?thesis
      using m d(1) k h' ok by (auto simp: chain_ok_def)
  qed
qed

lemma message_chain_cases:
  obtains (chained) res c where "msg_chain m = Some (res, c)" | (plain) "msg_chain m = None"
  by (cases "msg_chain m") auto

section \<open>Sizes, segments and copies\<close>

lemma message_size_bytes:
  assumes "message_ok h m" and "heap_inv h (message_refs m + R) X"
  shows "message_size m = length (message_bytes h m)"
  using assms chain_bytes_length [of _ h R X]
  by (cases m rule: message_chain_cases)
     (auto simp: message_ok_def message_refs_def message_size_def message_bytes_def)

lemma message_blocks_chain:
  assumes "msg_chain m = Some (res, c)" and "chain_shape c"
  shows "message_blocks h m = map (ref_bytes h) (ch_live c)"
  using assms length_ch_live [OF assms(2)] ch_live_nth [OF assms(2)]
  by (intro nth_equalityI) (simp_all add: message_blocks_def segment_count_def segment_def)

lemma message_blocks_concat:
  assumes "message_ok h m"
  shows "concat (message_blocks h m) = message_bytes h m"
proof (cases m rule: message_chain_cases)
  case (chained res c)
  then have "message_blocks h m = map (ref_bytes h) (ch_live c)"
    using assms by (intro message_blocks_chain) (auto simp: message_ok_def chain_ok_def)
  then show ?thesis using chained by (simp add: message_bytes_def chain_bytes_def refs_bytes_def)
next
  case plain
  then show ?thesis
    by (simp add: message_bytes_def message_blocks_def segment_count_def segment_def)
qed

lemma gather_loop_correct:
  "off + length (concat ss) \<le> length out \<Longrightarrow>
    gather_loop ss off out = (overwrite off (concat ss) out, off + length (concat ss))"
proof (induction ss arbitrary: off out)
  case Nil
  then show ?case by simp
next
  case (Cons s ss)
  then have "overwrite (off + length s) (concat ss) (overwrite off s out) = overwrite off (s @ concat ss) out"
    by (simp add: overwrite_def drop_drop add.commute add.left_commute)
  then show ?case using Cons by (simp add: add.assoc)
qed

text \<open>What \<open>as_bytes()\<close> answers, and what the message is afterwards.\<close>

lemma ensure_gathered_correct:
  assumes c: "msg_chain m = Some (res, c)" and ok: "message_ok h m"
    and inv: "heap_inv h (message_refs m + R) (message_units m + X)"
    and run: "ensure_gathered (h, m) = (ob, h', m')"
  shows "msg_chain m' = msg_chain m \<and> msg_eom m' = msg_eom m \<and> message_ok h' m' \<and>
    message_bytes h' m' = message_bytes h m \<and> keeps (message_refs m + R) h h' \<and>
    heap_inv h' (message_refs m' + R) (message_units m' + X) \<and>
    (case ob of Some bs \<Rightarrow> bs = message_bytes h m | None \<Rightarrow> m' = m)"
proof -
  have cok: "chain_ok c" "chain_shape c" using ok c by (simp_all add: message_ok_def chain_ok_def)
  have len: "length (chain_bytes h c) = ch_size c"
    using cok(1) inv c by (intro chain_bytes_length) (auto simp: message_refs_def)
  show ?thesis
  proof (cases "chain_empty c \<or> ch_count c = 1 \<or> msg_gathered m \<noteq> None")
    case True
    have one: "ref_bytes h (ch_data c ! ch_head c) = chain_bytes h c" if "ch_count c = 1"
    proof -
      have "ch_live c = [ch_data c ! ch_head c]"
        using that length_ch_live [OF cok(2)] chain_ok_head_first [OF cok(2)]
        by (metis One_nat_def length_0_conv length_tl less_numeral_extra(1) diff_self_eq_0)
      then show ?thesis by (simp add: chain_bytes_def)
    qed
    have "chain_bytes h c = []" if "chain_empty c"
      using that len by (simp add: chain_empty_def)
    then have "h' = h \<and> m' = m \<and> ob = Some (message_bytes h m)"
      using True run c ok one
      by (auto simp: ensure_gathered_def message_ok_def message_bytes_def split: if_splits option.splits)
    then show ?thesis using ok inv by simp
  next
    case False
    then have f: "\<not> chain_empty c" "ch_count c \<noteq> 1" "msg_gathered m = None" by blast+
    define u where "u = Gather_Alloc (the (chain_resource h c)) (ch_size c)"
    obtain g h1 where a: "res_allocate u h = (g, h1)" by fastforce
    have k: "keeps (message_refs m + R) h h1" using a by (rule keeps_allocate)
    have same: "chain_bytes h1 c = chain_bytes h c"
      using k c unfolding chain_bytes_def
      by (intro refs_bytes_keeps_set [where R = "mset (ch_live c)"]) (simp_all add: message_refs_def)
    show ?thesis
    proof (cases g)
      case no: False
      then have "ob = None" "h' = h1" "m' = m"
        using run c f a no by (simp_all add: ensure_gathered_def u_def Let_def)
      moreover have "heap_inv h1 (message_refs m + R) (message_units m + X)"
        using heap_inv_refused [OF inv] a no by simp
      ultimately show ?thesis
        using ok k same c f by (simp add: message_ok_def message_bytes_def)
    next
      case yes: True
      define bytes where "bytes = fst (copy_to h1 c (map (h_junk h1) [0..<ch_size c]))"
      have bytes: "bytes = chain_bytes h c"
        using copy_to_correct [of h1 c "map (h_junk h1) [0..<ch_size c]"] len same by (simp add: bytes_def)
      have res: "ob = Some bytes" "h' = h1"
        "m' = m\<lparr>msg_gathered := Some (the (chain_resource h c), bytes)\<rparr>"
        using run c f a yes by (auto simp: ensure_gathered_def u_def bytes_def Let_def)
      have units: "message_units m' = add_mset u (message_units m)"
        using f(3) res(3) bytes len by (simp add: message_units_def u_def)
      have "heap_inv h1 (message_refs m + R) (add_mset u (message_units m + X))"
        using heap_inv_granted [OF inv] a yes by simp
      then have "heap_inv h' (message_refs m' + R) (message_units m' + X)"
        using res units by (simp add: message_refs_def)
      then show ?thesis
        using ok k same c f res bytes by (simp add: message_ok_def message_bytes_def)
    qed
  qed
qed

lemma as_bytes_correct:
  assumes ok: "message_ok h m" and inv: "heap_inv h (message_refs m + R) (message_units m + X)"
    and run: "as_bytes (h, m) = (ob, h', m')"
  shows "msg_eom m' = msg_eom m \<and> message_ok h' m' \<and> message_bytes h' m' = message_bytes h m \<and>
    heap_inv h' (message_refs m' + R) (message_units m' + X) \<and> keeps (message_refs m + R) h h' \<and>
    (case ob of Some bs \<Rightarrow> bs = message_bytes h m | None \<Rightarrow> m' = m)"
proof (cases m rule: message_chain_cases)
  case (chained res c)
  then have "ensure_gathered (h, m) = (ob, h', m')"
    using run by (simp add: as_bytes_def is_chained_def)
  then show ?thesis using ensure_gathered_correct [OF chained ok inv] by simp
next
  case plain
  then have "ob = Some (message_bytes h m) \<and> h' = h \<and> m' = m"
    using run by (auto simp: as_bytes_def is_chained_def message_bytes_def split: if_splits)
  then show ?thesis using ok inv by simp
qed

lemma message_destroy_correct:
  assumes ok: "message_ok h m" and inv: "heap_inv h (message_refs m + R) (message_units m + X)"
  shows "heap_inv (message_destroy (h, m)) R X \<and> keeps R h (message_destroy (h, m))"
proof -
  let ?g = "case msg_gathered m of Some (res, g) \<Rightarrow> {#Gather_Alloc res (length g)#} | None \<Rightarrow> {#}"
  let ?c = "case msg_chain m of Some (res, c) \<Rightarrow> add_mset (Chain_Alloc res) (chain_units c) | None \<Rightarrow> {#}"
  define h1 where "h1 = (case msg_gathered m of None \<Rightarrow> h
    | Some (res, g) \<Rightarrow> res_deallocate (Gather_Alloc res (length g)) h)"
  have "heap_inv h (message_refs m + R) (?g + (?c + X))"
    using inv by (simp add: message_units_def ac_simps)
  then have inv1: "heap_inv h1 (message_refs m + R) (?c + X)"
  proof (cases "msg_gathered m")
    case (Some rg)
    obtain res g where rg: "rg = (res, g)" by fastforce
    have "heap_inv h (message_refs m + R) (add_mset (Gather_Alloc res (length g)) (?c + X))"
      using \<open>heap_inv h (message_refs m + R) (?g + (?c + X))\<close> Some rg by simp
    then show ?thesis using Some rg by (simp only: h1_def option.case prod.case heap_inv_deallocate)
  qed (simp add: h1_def)
  have k1: "keeps R h h1"
    by (simp add: h1_def keeps_def block_data_deallocate split: option.splits prod.splits)
  show ?thesis
  proof (cases m rule: message_chain_cases)
    case (chained res c)
    have i: "heap_inv h1 (mset (ch_live c) + R) (chain_units c + add_mset (Chain_Alloc res) X)"
      using inv1 chained by (simp add: message_refs_def)
    have d: "heap_inv (chain_destroy (h1, c)) R (add_mset (Chain_Alloc res) X) \<and>
        keeps R h1 (chain_destroy (h1, c))"
      using chain_destroy_correct [OF _ i] ok chained by (auto simp: message_ok_def chain_ok_def)
    then have "keeps R h (chain_destroy (h1, c))" using keeps_trans [OF k1] by blast
    then have k: "keeps R h (res_deallocate (Chain_Alloc res) (chain_destroy (h1, c)))"
      by (simp add: keeps_def block_data_deallocate)
    have "message_destroy (h, m) = res_deallocate (Chain_Alloc res) (chain_destroy (h1, c))"
      using chained by (simp add: message_destroy_def h1_def)
    then show ?thesis using d k heap_inv_deallocate by simp
  next
    case plain
    then have "message_destroy (h, m) = h1" by (simp add: message_destroy_def h1_def)
    then show ?thesis using inv1 k1 plain by (simp add: message_refs_def)
  qed
qed

section \<open>The buffers of a send\<close>

lemma seq_buffers_chain:
  assumes c: "bs_chain seq = Some c" and shape: "chain_shape c" and i: "i \<le> ch_count c"
  shows "seq_buffers_from h seq (skip_empty seq (Chain_Stage, ch_head c + i))
    = Some (map (ref_bytes h) (drop i (ch_live c)))"
  using i
proof (induction rule: inc_induct)
  case base
  have "skip_empty seq (Chain_Stage, ch_head c + ch_count c) = (End_Stage, ch_head c + ch_count c)"
    using c by (simp add: skip_empty_def)
  then show ?case
    using length_ch_live [OF shape] by (simp add: seq_buffers_from.simps)
next
  case (step i)
  have skip: "skip_empty seq (Chain_Stage, ch_head c + i) = (Chain_Stage, ch_head c + i)"
    using c step.hyps by (simp add: skip_empty_def)
  have "drop i (ch_live c) = ch_live c ! i # drop (Suc i) (ch_live c)"
    using step.hyps length_ch_live [OF shape] by (simp add: Cons_nth_drop_Suc)
  then show ?case
    using step c ch_live_nth [OF shape, of i]
    by (subst seq_buffers_from.simps)
       (simp add: skip seq_next_def seq_deref_def)
qed

lemma seq_buffers_chain_all:
  assumes "bs_chain seq = Some c" and "chain_shape c"
  shows "seq_buffers_from h seq (skip_empty seq (Body_Stage, k)) = Some (map (ref_bytes h) (ch_live c))"
proof -
  have "skip_empty seq (Body_Stage, k) = skip_empty seq (Chain_Stage, ch_head c + 0)"
    using assms(1) by (simp add: skip_empty_def)
  then show ?thesis using seq_buffers_chain [OF assms, of 0] by simp
qed

lemma seq_buffers_body:
  assumes "bs_chain seq = None"
  shows "seq_buffers_from h seq (skip_empty seq (Body_Stage, k))
    = Some (if bs_body seq = [] then [] else [bs_body seq])"
proof (cases "bs_body seq = []")
  case True
  then show ?thesis
    using assms by (simp add: skip_empty_def seq_buffers_from.simps)
next
  case False
  have "seq_next seq (Body_Stage, k) = (End_Stage, k)"
    using assms by (simp add: seq_next_def skip_empty_def)
  then have "seq_buffers_from h seq (seq_next seq (Body_Stage, k)) = Some []"
    by (simp add: seq_buffers_from.simps)
  then show ?thesis
    using False assms by (simp add: skip_empty_def seq_buffers_from.simps [of h seq "(Body_Stage, k)"] seq_deref_def)
qed

lemma seq_buffers_header:
  "seq_buffers h seq =
    map_option (\<lambda>bs. (if bs_header seq = [] then [] else [bs_header seq]) @ bs)
      (seq_buffers_from h seq (skip_empty seq (Body_Stage, 0)))"
proof (cases "bs_header seq = []")
  case True
  then have "seq_begin seq = skip_empty seq (Body_Stage, 0)"
    by (simp add: seq_begin_def skip_empty_def)
  with True show ?thesis by (simp add: seq_buffers_def option.map_ident)
next
  case False
  then have b: "seq_begin seq = (Header_Stage, 0)"
    by (simp add: seq_begin_def skip_empty_def)
  show ?thesis
    using False
    by (simp add: seq_buffers_def b seq_buffers_from.simps [of h seq "(Header_Stage, 0)"] seq_next_def
        seq_deref_def split: option.splits bind_splits)
qed

lemma seq_buffers_message:
  assumes ok: "message_ok h m" and inv: "heap_inv h (message_refs m + R) X"
  shows "\<exists>bufs. seq_buffers h (seq_of_message h header m) = Some bufs \<and>
    concat bufs = header @ message_bytes h m \<and> [] \<notin> set bufs"
proof (cases m rule: message_chain_cases)
  case (chained res c)
  have shape: "chain_shape c" using ok chained by (simp add: message_ok_def chain_ok_def)
  have "[] \<noteq> ref_bytes h r" if r: "r \<in> set (ch_live c)" for r
  proof -
    have "heap_inv h (mset (ch_live c) + R) X" using inv chained by (simp add: message_refs_def)
    then have "length (ref_bytes h r) = ref_size r" "ref_good r"
      using r chain_live_fits(1) [OF shape] chain_shape_parts(8) [OF shape] by (auto simp: ref_fits_length)
    then show ?thesis using ref_good_size by fastforce
  qed
  then show ?thesis
    using chained seq_buffers_chain_all [of "seq_of_message h header m" c h 0] shape
    by (auto simp: seq_buffers_header seq_of_message_def message_bytes_def chain_bytes_def refs_bytes_def)
next
  case plain
  then show ?thesis
    using seq_buffers_body [of "seq_of_message h header m" h 0]
    by (auto simp: seq_buffers_header seq_of_message_def is_chained_def segment_def message_bytes_def)
qed

lemma as_bytes_again:
  assumes "as_bytes (h, m) = (Some bs, h', m')"
  shows "as_bytes (h', m') = (Some bs, h', m')"
proof (cases m rule: message_chain_cases)
  case (chained res c)
  then have "ensure_gathered (h, m) = (Some bs, h', m')"
    using assms by (simp add: as_bytes_def is_chained_def)
  then have "msg_chain m' = Some (res, c) \<and> ensure_gathered (h', m') = (Some bs, h', m')"
    using chained by (auto simp: ensure_gathered_def Let_def split: option.splits if_splits prod.splits bool.splits)
  then show ?thesis by (simp add: as_bytes_def is_chained_def)
next
  case plain
  then show ?thesis using assms by (auto simp: as_bytes_def is_chained_def split: if_splits)
qed

section \<open>Properties\<close>

definition demo_message :: message where
  "demo_message = message_of_chain (0, demo_chain) default_context True"

lemma demo_message_ok:
  "message_ok h demo_message"
  "heap_inv (demo_heap demo_handles {#Chain_Alloc 0#} gs) (message_refs demo_message + {#})
     (message_units demo_message + {#})"
  using demo_chain_ok(1) demo_chain_inv [of "{#Chain_Alloc 0#}" gs] by (simp_all add: demo_message_def)

text \<open>
  C25. \<open>as_bytes()\<close> yields the payload, whatever backs the message, and the message stays the same
  message; asked again it answers the same without allocating. If the contiguous copy cannot be
  allocated the message is unchanged.
\<close>

theorem as_bytes_contract:
  assumes "message_ok h m" and "heap_inv h (message_refs m + R) (message_units m + X)"
    and "as_bytes (h, m) = (ob, h', m')"
  shows "message_ok h' m' \<and> message_bytes h' m' = message_bytes h m \<and>
    heap_inv h' (message_refs m' + R) (message_units m' + X) \<and>
    (case ob of Some bs \<Rightarrow> bs = message_bytes h m \<and> as_bytes (h', m') = (Some bs, h', m') | None \<Rightarrow> m' = m)"
  using as_bytes_correct [OF assms] as_bytes_again [of h m _ h' m'] assms(3) by (auto split: option.splits)

lemma as_bytes_contract_witness:
  "\<exists>h' m'. as_bytes (demo_heap demo_handles {#Chain_Alloc 0#} [], demo_message) = (Some [10, 11, 13, 14], h', m') \<and>
    as_bytes (h', m') = (Some [10, 11, 13, 14], h', m')"
proof -
  obtain ob h' m' where run:
    "as_bytes (demo_heap demo_handles {#Chain_Alloc 0#} [], demo_message) = (ob, h', m')"
    by (metis prod.exhaust)
  have "ob \<noteq> None"
    using run
    by (auto simp: as_bytes_def is_chained_def demo_message_def message_of_chain_def ensure_gathered_def
        Let_def res_allocate.simps demo_heap_def split: if_splits)
  then show ?thesis
    using as_bytes_contract [OF demo_message_ok(1) demo_message_ok(2) run] run
    by (auto simp: demo_message_def demo_bytes split: option.splits)
qed

text \<open>
  The segments of \<open>blocks()\<close> are the payload in order, \<open>size()\<close> is its length, and \<open>gather\<close>
  writes it to the front of any buffer that is large enough, leaving the rest of the buffer alone.
\<close>

lemma gather_contract:
  assumes "message_ok h m" and "heap_inv h (message_refs m + R) X" and "message_size m \<le> length out"
  shows "concat (message_blocks h m) = message_bytes h m \<and>
    message_size m = length (message_bytes h m) \<and>
    gather h out m = (message_bytes h m @ drop (message_size m) out, message_size m)"
proof -
  have c: "concat (message_blocks h m) = message_bytes h m"
    using assms(1) by (rule message_blocks_concat)
  have s: "message_size m = length (message_bytes h m)"
    using assms(1,2) by (rule message_size_bytes)
  with c show ?thesis
    using assms(3) gather_loop_correct [of 0 "message_blocks h m" out]
    by (simp add: gather_def overwrite_def)
qed

text \<open>
  What a send puts on the wire: iterating over the buffer sequence ends, the buffers are the
  framing header followed by the payload, byte for byte, and none of them is empty.
\<close>

lemma send_buffers_contract:
  assumes "message_ok h m" and "heap_inv h (message_refs m + R) X"
  shows "\<exists>bufs. seq_buffers h (seq_of_message h header m) = Some bufs \<and>
    concat bufs = header @ message_bytes h m \<and> [] \<notin> set bufs"
  using assms by (rule seq_buffers_message)

end
