(* ===== verification/Mailbox.thy ===== *)
theory Mailbox
  imports Prelude "HOL-Library.Sublist"
begin

text \<open>
  The mailbox of a UDP connection (include/taps/mailbox.h): a bounded ring of received datagrams that
  drops the oldest when it is full, and a timer that receivers wait on. The datagrams are an arbitrary
  type \<open>'d\<close> (in the program, shared pointers to chains; a null pointer is \<open>None\<close>).

  The timer never expires; waiting on it ends when \<open>deliver\<close> cancels one wait or \<open>close\<close> cancels all.
  \<open>mb_waiting\<close> are the receivers whose wait is pending, oldest first, \<open>mb_ready\<close> those whose wait has
  ended and whose coroutine has yet to resume.

  Part one is the ring and its refinement of a bounded queue; part two the interleaving of receivers,
  with the invariant that no wake-up is lost.
\<close>

section \<open>The mailbox\<close>

datatype CloseCause = owner | idle | displaced

record 'd mailbox =
  mb_ring :: "'d option list"
  mb_head :: nat
  mb_count :: nat
  mb_capacity :: nat
  mb_dropped :: nat
  mb_closed :: bool
  mb_cause :: CloseCause
  mb_waiting :: "nat list"
  mb_ready :: "nat list"

text \<open>The constructor: a capacity of 0 becomes 1; the default is 256.\<close>

definition make_mailbox :: "nat \<Rightarrow> 'd mailbox" where
  "make_mailbox cap =
    \<lparr>mb_ring = [], mb_head = 0, mb_count = 0, mb_capacity = (if cap = 0 then 1 else cap),
     mb_dropped = 0, mb_closed = False, mb_cause = owner, mb_waiting = [], mb_ready = []\<rparr>"

lemma make_mailbox_sel [simp]:
  "mb_capacity (make_mailbox cap) = (if cap = 0 then 1 else cap)" "mb_closed (make_mailbox cap) = False"
  "mb_count (make_mailbox cap) = 0" "mb_waiting (make_mailbox cap) = []" "mb_ready (make_mailbox cap) = []"
  "mb_dropped (make_mailbox cap) = 0" "mb_cause (make_mailbox cap) = owner"
  by (simp_all add: make_mailbox_def)

definition default_mailbox_capacity :: nat where
  "default_mailbox_capacity = 256"

definition pop_front :: "'d mailbox \<Rightarrow> 'd option \<times> 'd mailbox" where
  "pop_front mb =
    (mb_ring mb ! mb_head mb,
     mb\<lparr>mb_ring := (mb_ring mb)[mb_head mb := None],
        mb_head := (mb_head mb + 1) mod length (mb_ring mb),
        mb_count := mb_count mb - 1\<rparr>)"

text \<open>\<open>grow()\<close>, once its storage has been allocated.\<close>

definition mb_grow :: "'d mailbox \<Rightarrow> 'd mailbox" where
  "mb_grow mb =
    (let old = mb_ring mb;
         n = min (mb_capacity mb) (max 4 (length old * 2));
         moved = map (\<lambda>i. old ! ((mb_head mb + i) mod length old)) [0..<mb_count mb]
     in mb\<lparr>mb_ring := moved @ replicate (n - mb_count mb) None, mb_head := 0\<rparr>)"

definition cancel_one :: "'d mailbox \<Rightarrow> 'd mailbox" where
  "cancel_one mb =
    (case mb_waiting mb of [] \<Rightarrow> mb
     | w # ws \<Rightarrow> mb\<lparr>mb_waiting := ws, mb_ready := mb_ready mb @ [w]\<rparr>)"

text \<open>
  \<open>deliver(datagram)\<close>. \<open>granted\<close> is the answer to the allocation \<open>grow()\<close> may need: if it is refused
  the exception leaves before anything has changed (\<open>False\<close>). The second result are the datagrams
  that are destroyed: the oldest one, or the new one when the mailbox is closed.
\<close>

definition deliver :: "bool \<Rightarrow> 'd \<Rightarrow> 'd mailbox \<Rightarrow> bool \<times> 'd list \<times> 'd mailbox" where
  "deliver granted d mb =
    (if mb_closed mb then (True, [d], mb)
     else if mb_count mb \<noteq> mb_capacity mb \<and> mb_count mb = length (mb_ring mb) \<and> \<not> granted
     then (False, [d], mb)
     else
       (let (gone, mb1) =
              (if mb_count mb = mb_capacity mb
               then (case pop_front mb of (o_d, mb') \<Rightarrow> (o_d, mb'\<lparr>mb_dropped := mb_dropped mb' + 1\<rparr>))
               else if mb_count mb = length (mb_ring mb) then (None, mb_grow mb) else (None, mb));
            i = (mb_head mb1 + mb_count mb1) mod length (mb_ring mb1);
            mb2 = mb1\<lparr>mb_ring := (mb_ring mb1)[i := Some d], mb_count := mb_count mb1 + 1\<rparr>
        in (True, (case gone of None \<Rightarrow> [] | Some g \<Rightarrow> [g]), cancel_one mb2)))"

definition try_pop :: "'d mailbox \<Rightarrow> 'd option \<times> 'd mailbox" where
  "try_pop mb = (if mb_count mb = 0 then (None, mb) else pop_front mb)"

definition mb_wait :: "nat \<Rightarrow> 'd mailbox \<Rightarrow> 'd mailbox" where
  "mb_wait w mb = mb\<lparr>mb_waiting := mb_waiting mb @ [w]\<rparr>"

definition mb_close :: "CloseCause \<Rightarrow> 'd mailbox \<Rightarrow> 'd mailbox" where
  "mb_close cause mb =
    mb\<lparr>mb_cause := (if mb_closed mb then mb_cause mb else cause), mb_closed := True,
       mb_waiting := [], mb_ready := mb_ready mb @ mb_waiting mb\<rparr>"

section \<open>The ring is a queue\<close>

definition ring_at :: "'d mailbox \<Rightarrow> nat \<Rightarrow> 'd option" where
  "ring_at mb i = mb_ring mb ! ((mb_head mb + i) mod length (mb_ring mb))"

definition mb_queue :: "'d mailbox \<Rightarrow> 'd list" where
  "mb_queue mb = map (\<lambda>i. the (ring_at mb i)) [0..<mb_count mb]"

definition mb_ok :: "'d mailbox \<Rightarrow> bool" where
  "mb_ok mb \<longleftrightarrow>
    1 \<le> mb_capacity mb \<and> mb_count mb \<le> length (mb_ring mb) \<and> length (mb_ring mb) \<le> mb_capacity mb \<and>
    mb_head mb \<le> length (mb_ring mb) - 1 \<and>
    (\<forall>i < length (mb_ring mb). ring_at mb i \<noteq> None \<longleftrightarrow> i < mb_count mb)"

lemma length_mb_queue [simp]: "length (mb_queue mb) = mb_count mb"
  by (simp add: mb_queue_def)

lemma mb_ok_make [simp]: "mb_ok (make_mailbox cap)" "mb_queue (make_mailbox cap) = []"
  by (simp_all add: mb_ok_def mb_queue_def make_mailbox_def)

lemma mb_ok_timer [simp]:
  "mb_ok (mb\<lparr>mb_waiting := w\<rparr>) = mb_ok mb" "mb_ok (mb\<lparr>mb_ready := w\<rparr>) = mb_ok mb"
  "mb_ok (mb\<lparr>mb_dropped := n\<rparr>) = mb_ok mb" "mb_ok (mb\<lparr>mb_closed := b\<rparr>) = mb_ok mb"
  "mb_ok (mb\<lparr>mb_cause := c\<rparr>) = mb_ok mb"
  "mb_queue (mb\<lparr>mb_waiting := w\<rparr>) = mb_queue mb" "mb_queue (mb\<lparr>mb_ready := w\<rparr>) = mb_queue mb"
  "mb_queue (mb\<lparr>mb_dropped := n\<rparr>) = mb_queue mb" "mb_queue (mb\<lparr>mb_closed := b\<rparr>) = mb_queue mb"
  "mb_queue (mb\<lparr>mb_cause := c\<rparr>) = mb_queue mb"
  by (simp_all add: mb_ok_def mb_queue_def ring_at_def)

text \<open>Two positions of the ring are the same slot only if they are the same position.\<close>

lemma ring_slot_inj:
  assumes "i < n" "j < n"
  shows "(h + i) mod n = (h + j) mod n \<longleftrightarrow> i = (j :: nat)"
proof -
  have "i = j" if "i \<le> j" "j < n" "(h + i) mod n = (h + j) mod n" for i j
  proof -
    have "n dvd j - i" using that mod_eq_dvd_iff_nat [of "h + i" "h + j" n] by simp
    then show ?thesis using that by (auto dest: dvd_imp_le)
  qed
  then show ?thesis using assms by (metis nat_le_linear)
qed

lemma ring_at_put:
  assumes "i < length (mb_ring mb)" "j < length (mb_ring mb)"
  shows "ring_at (mb\<lparr>mb_ring := (mb_ring mb)[(mb_head mb + i) mod length (mb_ring mb) := x], mb_count := k\<rparr>) j
    = (if j = i then x else ring_at mb j)"
proof -
  have "(mb_head mb + i) mod length (mb_ring mb) < length (mb_ring mb)"
    using assms(1) by (intro mod_less_divisor) linarith
  then show ?thesis
    using assms ring_slot_inj [of j "length (mb_ring mb)" i "mb_head mb"]
    by (auto simp: ring_at_def nth_list_update)
qed

lemma ring_at_pop:
  assumes "mb_head mb < length (mb_ring mb)" "j < length (mb_ring mb)"
  shows "ring_at (snd (pop_front mb)) j = (if Suc j = length (mb_ring mb) then None else ring_at mb (Suc j))"
proof -
  let ?n = "length (mb_ring mb)"
  have s: "((mb_head mb + 1) mod ?n + j) mod ?n = (mb_head mb + Suc j) mod ?n"
    by (simp add: mod_add_left_eq)
  show ?thesis
  proof (cases "Suc j = ?n")
    case True
    then have "(mb_head mb + Suc j) mod ?n = mb_head mb" using assms(1) by simp
    then show ?thesis using True s assms by (simp add: ring_at_def pop_front_def)
  next
    case False
    then have "(mb_head mb + Suc j) mod ?n \<noteq> mb_head mb"
      using ring_slot_inj [of "Suc j" ?n 0 "mb_head mb"] assms by (cases "mb_ring mb = []") auto
    then show ?thesis using False s by (simp add: ring_at_def pop_front_def)
  qed
qed

lemma pop_front_correct:
  assumes ok: "mb_ok mb" and pos: "0 < mb_count mb"
  shows "fst (pop_front mb) = Some (hd (mb_queue mb))" and "mb_queue (snd (pop_front mb)) = tl (mb_queue mb)"
    and "mb_ok (snd (pop_front mb))" and "mb_count (snd (pop_front mb)) = mb_count mb - 1"
    and "length (mb_ring (snd (pop_front mb))) = length (mb_ring mb)"
proof -
  let ?n = "length (mb_ring mb)"
  have n: "mb_head mb < ?n" "mb_count mb \<le> ?n" "0 < ?n"
    using ok pos by (auto simp: mb_ok_def)
  have at: "ring_at mb i \<noteq> None \<longleftrightarrow> i < mb_count mb" if "i < ?n" for i
    using ok that by (simp add: mb_ok_def)
  have "ring_at mb 0 = mb_ring mb ! mb_head mb" using n by (simp add: ring_at_def)
  moreover have "hd (mb_queue mb) = the (ring_at mb 0)"
    using pos by (simp add: mb_queue_def hd_map)
  ultimately show "fst (pop_front mb) = Some (hd (mb_queue mb))"
    using at [of 0] n pos by (auto simp: pop_front_def)
  show c: "mb_count (snd (pop_front mb)) = mb_count mb - 1" "length (mb_ring (snd (pop_front mb))) = ?n"
    by (simp_all add: pop_front_def)
  show "mb_queue (snd (pop_front mb)) = tl (mb_queue mb)"
    using n pos c
    by (intro nth_equalityI) (auto simp: mb_queue_def nth_tl ring_at_pop)
  have cap: "mb_capacity (snd (pop_front mb)) = mb_capacity mb" by (simp add: pop_front_def)
  have h: "mb_head (snd (pop_front mb)) \<le> ?n - 1"
    using n by (auto simp: pop_front_def less_Suc_eq_le [symmetric])
  have "ring_at (snd (pop_front mb)) i \<noteq> None \<longleftrightarrow> i < mb_count mb - 1" if "i < ?n" for i
    using that n pos at [of "Suc i"] by (auto simp: ring_at_pop)
  then show "mb_ok (snd (pop_front mb))"
    using ok c h cap by (auto simp: mb_ok_def)
qed

lemma mb_grow_correct:
  assumes ok: "mb_ok mb" and full: "mb_count mb = length (mb_ring mb)" "mb_count mb \<noteq> mb_capacity mb"
  shows "mb_ok (mb_grow mb)" and "mb_queue (mb_grow mb) = mb_queue mb"
    and "mb_count (mb_grow mb) = mb_count mb" and "mb_count mb < length (mb_ring (mb_grow mb))"
proof -
  let ?n = "min (mb_capacity mb) (max 4 (length (mb_ring mb) * 2))"
  have room: "mb_count mb < ?n" using ok full by (auto simp: mb_ok_def)
  have len: "length (mb_ring (mb_grow mb)) = ?n"
    using room by (simp add: mb_grow_def Let_def)
  show "mb_count mb < length (mb_ring (mb_grow mb))" using room len by simp
  show c: "mb_count (mb_grow mb) = mb_count mb" by (simp add: mb_grow_def Let_def)
  have at: "ring_at (mb_grow mb) i = (if i < mb_count mb then ring_at mb i else None)" if "i < ?n" for i
  proof -
    have "i - mb_count mb < ?n - mb_count mb" if "\<not> i < mb_count mb" using that \<open>i < ?n\<close> by linarith
    then show ?thesis
      using that len room
      by (simp add: ring_at_def) (simp add: mb_grow_def Let_def nth_append)
  qed
  show "mb_queue (mb_grow mb) = mb_queue mb"
    using room c at by (simp add: mb_queue_def)
  have "ring_at (mb_grow mb) i \<noteq> None \<longleftrightarrow> i < mb_count mb" if "i < ?n" for i
    using at [OF that] ok full by (auto simp: mb_ok_def)
  then show "mb_ok (mb_grow mb)"
    using ok len c room by (simp add: mb_ok_def) (simp add: mb_grow_def Let_def)
qed

lemma put_correct:
  fixes d :: 'd
  assumes ok: "mb_ok mb" and room: "mb_count mb < length (mb_ring mb)"
  defines "mb2 \<equiv> mb\<lparr>mb_ring := (mb_ring mb)[(mb_head mb + mb_count mb) mod length (mb_ring mb) := Some d],
                    mb_count := mb_count mb + 1\<rparr>"
  shows "mb_ok mb2" and "mb_queue mb2 = mb_queue mb @ [d]"
proof -
  let ?n = "length (mb_ring mb)"
  have at: "ring_at mb2 j = (if j = mb_count mb then Some d else ring_at mb j)" if "j < ?n" for j
    unfolding mb2_def using room that by (rule ring_at_put)
  have c: "mb_count mb2 = Suc (mb_count mb)" "length (mb_ring mb2) = ?n" "mb_head mb2 = mb_head mb"
    "mb_capacity mb2 = mb_capacity mb"
    by (simp_all add: mb2_def)
  show "mb_queue mb2 = mb_queue mb @ [d]"
    using at room by (simp add: mb_queue_def c)
  have "ring_at mb2 j \<noteq> None \<longleftrightarrow> j < Suc (mb_count mb)" if "j < ?n" for j
    using at [OF that] ok that by (auto simp: mb_ok_def)
  then show "mb_ok mb2" using ok room by (simp add: mb_ok_def c)
qed

lemma cancel_one_simps [simp]:
  "mb_ok (cancel_one mb) = mb_ok mb" "mb_queue (cancel_one mb) = mb_queue mb"
  "mb_capacity (cancel_one mb) = mb_capacity mb" "mb_dropped (cancel_one mb) = mb_dropped mb"
  "mb_closed (cancel_one mb) = mb_closed mb" "mb_count (cancel_one mb) = mb_count mb"
  "mb_cause (cancel_one mb) = mb_cause mb"
  by (simp_all add: cancel_one_def split: list.splits)

lemma put_cancel_correct:
  fixes p :: "'d mailbox"
  assumes "mb_ok p" and "mb_count p < length (mb_ring p)"
    and "mb' = cancel_one (p\<lparr>mb_ring := (mb_ring p)
          [(mb_head p + mb_count p) mod length (mb_ring p) := Some d], mb_count := mb_count p + 1\<rparr>)"
  shows "mb_ok mb' \<and> mb_queue mb' = mb_queue p @ [d] \<and> mb_capacity mb' = mb_capacity p \<and>
    mb_closed mb' = mb_closed p \<and> mb_cause mb' = mb_cause p \<and> mb_dropped mb' = mb_dropped p \<and>
    mb_waiting mb' = tl (mb_waiting p) \<and> mb_ready mb' = mb_ready p @ take 1 (mb_waiting p)"
proof -
  have "mb_ok mb' \<and> mb_queue mb' = mb_queue p @ [d]"
    unfolding assms(3) using put_correct [OF assms(1,2), of d] by simp
  moreover have "mb_waiting mb' = tl (mb_waiting p) \<and> mb_ready mb' = mb_ready p @ take 1 (mb_waiting p)"
    by (simp add: assms(3) cancel_one_def split: list.splits)
  ultimately show ?thesis by (simp add: assms(3))
qed

text \<open>What \<open>deliver\<close> does to the queue, in each of its cases.\<close>

lemma deliver_correct:
  assumes ok: "mb_ok mb" and run: "deliver granted d mb = (fin, gone, mb')"
  shows "mb_ok mb'" and "mb_capacity mb' = mb_capacity mb" and "mb_closed mb' = mb_closed mb"
    and "mb_cause mb' = mb_cause mb"
    and "\<not> fin \<Longrightarrow> mb' = mb \<and> gone = [d] \<and> \<not> mb_closed mb \<and> \<not> granted \<and> length (mb_queue mb) < mb_capacity mb"
    and "fin \<Longrightarrow> mb_closed mb \<Longrightarrow> mb' = mb \<and> gone = [d]"
    and "fin \<Longrightarrow> \<not> mb_closed mb \<Longrightarrow>
      (if length (mb_queue mb) = mb_capacity mb
       then mb_queue mb' = tl (mb_queue mb) @ [d] \<and> gone = [hd (mb_queue mb)] \<and>
         mb_dropped mb' = mb_dropped mb + 1
       else mb_queue mb' = mb_queue mb @ [d] \<and> gone = [] \<and> mb_dropped mb' = mb_dropped mb)"
    and "fin \<Longrightarrow> \<not> mb_closed mb \<Longrightarrow>
      mb_waiting mb' = tl (mb_waiting mb) \<and> mb_ready mb' = mb_ready mb @ take 1 (mb_waiting mb)"
proof -
  have all: "mb_ok mb' \<and> mb_capacity mb' = mb_capacity mb \<and> mb_closed mb' = mb_closed mb \<and>
    mb_cause mb' = mb_cause mb \<and>
    (\<not> fin \<longrightarrow> mb' = mb \<and> gone = [d] \<and> \<not> mb_closed mb \<and> \<not> granted \<and> mb_count mb < mb_capacity mb) \<and>
    (fin \<longrightarrow> mb_closed mb \<longrightarrow> mb' = mb \<and> gone = [d]) \<and>
    (fin \<longrightarrow> \<not> mb_closed mb \<longrightarrow>
      (if mb_count mb = mb_capacity mb
       then mb_queue mb' = tl (mb_queue mb) @ [d] \<and> gone = [hd (mb_queue mb)] \<and>
         mb_dropped mb' = mb_dropped mb + 1
       else mb_queue mb' = mb_queue mb @ [d] \<and> gone = [] \<and> mb_dropped mb' = mb_dropped mb) \<and>
      mb_waiting mb' = tl (mb_waiting mb) \<and> mb_ready mb' = mb_ready mb @ take 1 (mb_waiting mb))"
  proof (cases "mb_closed mb \<or> mb_count mb \<noteq> mb_capacity mb \<and> mb_count mb = length (mb_ring mb) \<and> \<not> granted")
    case True
    then show ?thesis
      using run ok by (cases "mb_closed mb") (auto simp: deliver_def mb_ok_def simp del: One_nat_def)
  next
    case False
    then have opn: "\<not> mb_closed mb" by simp
    have le: "mb_count mb \<le> length (mb_ring mb)" using ok by (simp add: mb_ok_def)
    show ?thesis
    proof (cases "mb_count mb = mb_capacity mb")
      case True
      have pos: "0 < mb_count mb" using ok True by (auto simp: mb_ok_def)
      note pf = pop_front_correct [OF ok pos]
      define p where "p = snd (pop_front mb)\<lparr>mb_dropped := mb_dropped (snd (pop_front mb)) + 1\<rparr>"
      have p: "mb_ok p" "mb_count p < length (mb_ring p)" "mb_queue p = tl (mb_queue mb)"
        using pf pos le by (simp_all add: p_def)
      have p': "mb_capacity p = mb_capacity mb" "mb_closed p = mb_closed mb" "mb_cause p = mb_cause mb"
        "mb_dropped p = mb_dropped mb + 1" "mb_waiting p = mb_waiting mb" "mb_ready p = mb_ready mb"
        by (simp_all add: p_def pop_front_def)
      have "pop_front mb = (Some (hd (mb_queue mb)), snd (pop_front mb))"
        using pf(1) by (metis prod.collapse)
      then have "fin \<and> gone = [hd (mb_queue mb)] \<and> mb' = cancel_one (p\<lparr>mb_ring := (mb_ring p)
          [(mb_head p + mb_count p) mod length (mb_ring p) := Some d], mb_count := mb_count p + 1\<rparr>)"
        using run opn True unfolding p_def deliver_def Let_def by (auto split: prod.splits)
      then show ?thesis
        using put_cancel_correct [OF p(1,2), of mb' d] p p' opn True by simp
    next
      case notfull: False
      define p where "p = (if mb_count mb = length (mb_ring mb) then mb_grow mb else mb)"
      have p: "mb_ok p" "mb_count p < length (mb_ring p)" "mb_queue p = mb_queue mb"
        using mb_grow_correct [OF ok _ notfull] ok le by (auto simp: p_def)
      have p': "mb_capacity p = mb_capacity mb" "mb_closed p = mb_closed mb" "mb_cause p = mb_cause mb"
        "mb_dropped p = mb_dropped mb" "mb_waiting p = mb_waiting mb" "mb_ready p = mb_ready mb"
        by (simp_all add: p_def mb_grow_def Let_def)
      have "fin \<and> gone = [] \<and> mb' = cancel_one (p\<lparr>mb_ring := (mb_ring p)
          [(mb_head p + mb_count p) mod length (mb_ring p) := Some d], mb_count := mb_count p + 1\<rparr>)"
        using run opn notfull False by (auto simp: p_def deliver_def Let_def)
      then show ?thesis
        using put_cancel_correct [OF p(1,2), of mb' d] p p' opn notfull by simp
    qed
  qed
  show "mb_ok mb'" "mb_capacity mb' = mb_capacity mb" "mb_closed mb' = mb_closed mb"
    "mb_cause mb' = mb_cause mb"
    "\<not> fin \<Longrightarrow> mb' = mb \<and> gone = [d] \<and> \<not> mb_closed mb \<and> \<not> granted \<and> length (mb_queue mb) < mb_capacity mb"
    "fin \<Longrightarrow> mb_closed mb \<Longrightarrow> mb' = mb \<and> gone = [d]"
    "fin \<Longrightarrow> \<not> mb_closed mb \<Longrightarrow>
      (if length (mb_queue mb) = mb_capacity mb
       then mb_queue mb' = tl (mb_queue mb) @ [d] \<and> gone = [hd (mb_queue mb)] \<and>
         mb_dropped mb' = mb_dropped mb + 1
       else mb_queue mb' = mb_queue mb @ [d] \<and> gone = [] \<and> mb_dropped mb' = mb_dropped mb)"
    "fin \<Longrightarrow> \<not> mb_closed mb \<Longrightarrow>
      mb_waiting mb' = tl (mb_waiting mb) \<and> mb_ready mb' = mb_ready mb @ take 1 (mb_waiting mb)"
    using all by simp_all
qed

section \<open>A bounded queue that drops the oldest\<close>

datatype 'd queue_op = Put 'd | Pop

fun puts :: "'d queue_op list \<Rightarrow> 'd list" where
  "puts [] = []"
| "puts (Put d # ops) = d # puts ops"
| "puts (Pop # ops) = puts ops"

text \<open>
  The reference, as test_mailbox_against_model of tests/buffer_smoke.cpp has it: a plain list, and how often its
  oldest element had to go. The result is what was popped, what is left, and the count.
\<close>

fun bounded_queue :: "nat \<Rightarrow> 'd queue_op list \<Rightarrow> 'd list \<Rightarrow> nat \<Rightarrow> 'd list \<times> 'd list \<times> nat" where
  "bounded_queue bound [] q dropped = ([], q, dropped)"
| "bounded_queue bound (Put d # ops) q dropped =
    (if length q = bound then bounded_queue bound ops (tl q @ [d]) (Suc dropped)
     else bounded_queue bound ops (q @ [d]) dropped)"
| "bounded_queue bound (Pop # ops) q dropped =
    (case q of [] \<Rightarrow> bounded_queue bound ops [] dropped
     | d # q' \<Rightarrow> (case bounded_queue bound ops q' dropped of (ds, rest) \<Rightarrow> (d # ds, rest)))"

locale drop_oldest_queue =
  fixes put :: "'d \<Rightarrow> 's \<Rightarrow> 's" and pop :: "'s \<Rightarrow> 'd option \<times> 's"
    and queue :: "'s \<Rightarrow> 'd list" and inv :: "'s \<Rightarrow> bool" and cap :: "'s \<Rightarrow> nat" and dropped :: "'s \<Rightarrow> nat"
  assumes put_inv: "inv s \<Longrightarrow> inv (put d s)"
    and put_cap: "inv s \<Longrightarrow> cap (put d s) = cap s"
    and put_queue: "inv s \<Longrightarrow>
      queue (put d s) = (if length (queue s) = cap s then tl (queue s) else queue s) @ [d]"
    and pop_inv: "inv s \<Longrightarrow> inv (snd (pop s))"
    and pop_cap: "inv s \<Longrightarrow> cap (snd (pop s)) = cap s"
    and pop_some: "inv s \<Longrightarrow> queue s \<noteq> [] \<Longrightarrow>
      fst (pop s) = Some (hd (queue s)) \<and> queue (snd (pop s)) = tl (queue s)"
    and pop_none: "inv s \<Longrightarrow> queue s = [] \<Longrightarrow> pop s = (None, s)"
    and bounded: "inv s \<Longrightarrow> length (queue s) \<le> cap s \<and> 0 < cap s"
    and put_dropped: "inv s \<Longrightarrow> dropped (put d s) = (if length (queue s) = cap s then Suc (dropped s) else dropped s)"
    and pop_dropped: "inv s \<Longrightarrow> dropped (snd (pop s)) = dropped s"
begin

text \<open>The values popped by a sequence of operations, and the state after it.\<close>

fun run :: "'d queue_op list \<Rightarrow> 's \<Rightarrow> 'd list \<times> 's" where
  "run [] s = ([], s)"
| "run (Put d # ops) s = run ops (put d s)"
| "run (Pop # ops) s =
    (case pop s of (None, s') \<Rightarrow> run ops s'
     | (Some d, s') \<Rightarrow> (case run ops s' of (ds, s'') \<Rightarrow> (d # ds, s'')))"

lemma run_inv: "inv s \<Longrightarrow> inv (snd (run ops s)) \<and> cap (snd (run ops s)) = cap s"
proof (induction ops s rule: run.induct)
  case (3 ops s)
  show ?case
  proof (cases "queue s = []")
    case True
    then show ?thesis using 3 pop_none by simp
  next
    case False
    then obtain d s' where p: "pop s = (Some d, s')"
      using pop_some [OF "3.prems"] by (cases "pop s") auto
    then show ?thesis using 3 pop_inv [OF "3.prems"] pop_cap [OF "3.prems"] by (auto split: prod.splits)
  qed
qed (simp_all add: put_inv put_cap)

text \<open>A run is the run of the reference.\<close>

lemma run_reference:
  "inv s \<Longrightarrow> bounded_queue (cap s) ops (queue s) (dropped s) =
    (fst (run ops s), queue (snd (run ops s)), dropped (snd (run ops s)))"
proof (induction ops s rule: run.induct)
  case (2 d ops s)
  then show ?case using put_inv [of s d] by (simp add: put_cap put_queue put_dropped split: if_splits)
next
  case (3 ops s)
  show ?case
  proof (cases "queue s")
    case Nil
    then show ?thesis using 3 pop_none by simp
  next
    case (Cons q qs)
    then obtain s' where p: "pop s = (Some q, s')" "queue s' = qs" "inv s'" "cap s' = cap s" "dropped s' = dropped s"
      using pop_some [OF "3.prems"] pop_inv [OF "3.prems"] pop_cap [OF "3.prems"] pop_dropped [OF "3.prems"]
      by (cases "pop s") auto
    then show ?thesis using 3 Cons by (simp split: prod.split)
  qed
qed simp

text \<open>What comes out is, in order, part of what went in, and the rest in the queue comes after it.\<close>

lemma run_subseq:
  "inv s \<Longrightarrow> subseq (fst (run ops s) @ queue (snd (run ops s))) (queue s @ puts ops)"
proof (induction ops s rule: run.induct)
  case (1 s)
  then show ?case by simp
next
  case (2 d ops s)
  have "subseq (queue (put d s)) (queue s @ [d])"
    using put_queue [OF "2.prems"] by (cases "queue s") (auto intro: subseq_order.less_imp_le)
  then have "subseq (queue (put d s) @ puts ops) (queue s @ d # puts ops)"
    using list_emb_append_mono [of "(=)" "queue (put d s)" "queue s @ [d]" "puts ops" "puts ops"] by simp
  moreover have "subseq (fst (run ops (put d s)) @ queue (snd (run ops (put d s))))
      (queue (put d s) @ puts ops)"
    using 2 put_inv by blast
  ultimately show ?case using subseq_order.order_trans by fastforce
next
  case (3 ops s)
  show ?case
  proof (cases "queue s = []")
    case True
    then show ?thesis using 3 pop_none by simp
  next
    case False
    then obtain q qs where q: "queue s = q # qs" by (cases "queue s") auto
    then obtain s' where p: "pop s = (Some q, s')" "queue s' = qs"
      using pop_some [OF "3.prems"] by (cases "pop s") auto
    have "subseq (fst (run ops s') @ queue (snd (run ops s'))) (queue s' @ puts ops)"
      using 3 p pop_inv [OF "3.prems"] by fastforce
    then show ?thesis using p q by (cases "run ops s'") simp
  qed
qed

text \<open>After deliveries alone, exactly the newest \<open>cap\<close> values are left.\<close>

lemma fold_put:
  assumes "inv s"
  shows "queue (fold put ds s) = drop (length (queue s @ ds) - cap s) (queue s @ ds)"
  using assms
proof (induction ds arbitrary: s)
  case Nil
  then show ?case using bounded by simp
next
  case (Cons d ds)
  have b: "length (queue s) \<le> cap s" "0 < cap s" using bounded [OF Cons.prems] by simp_all
  have IH: "queue (fold put ds (put d s))
      = drop (length (queue (put d s) @ ds) - cap s) (queue (put d s) @ ds)"
    using Cons.IH [OF put_inv [OF Cons.prems]] put_cap [OF Cons.prems] by simp
  show ?case
  proof (cases "length (queue s) = cap s")
    case True
    then obtain q qs where q: "queue s = q # qs" using b(2) by (cases "queue s") auto
    then have "queue (put d s) = qs @ [d]" using put_queue [OF Cons.prems] True by simp
    then show ?thesis using IH True q by (simp add: Suc_diff_le)
  next
    case False
    then have "queue (put d s) = queue s @ [d]" using put_queue [OF Cons.prems] by simp
    then show ?thesis using IH by simp
  qed
qed

end

text \<open>The open mailbox is such a queue, when the memory for its ring is granted.\<close>

definition mb_put :: "'d \<Rightarrow> 'd mailbox \<Rightarrow> 'd mailbox" where
  "mb_put d mb = snd (snd (deliver True d mb))"

lemma try_pop_correct:
  assumes "mb_ok mb"
  shows "mb_ok (snd (try_pop mb))" and "mb_capacity (snd (try_pop mb)) = mb_capacity mb"
    and "mb_closed (snd (try_pop mb)) = mb_closed mb"
    and "mb_queue mb = [] \<Longrightarrow> try_pop mb = (None, mb)"
    and "mb_queue mb \<noteq> [] \<Longrightarrow>
      fst (try_pop mb) = Some (hd (mb_queue mb)) \<and> mb_queue (snd (try_pop mb)) = tl (mb_queue mb)"
    and "mb_waiting (snd (try_pop mb)) = mb_waiting mb" and "mb_ready (snd (try_pop mb)) = mb_ready mb"
    and "mb_cause (snd (try_pop mb)) = mb_cause mb" and "mb_dropped (snd (try_pop mb)) = mb_dropped mb"
proof -
  have e: "mb_queue mb = [] \<longleftrightarrow> mb_count mb = 0" by (metis length_mb_queue length_0_conv)
  show "mb_ok (snd (try_pop mb))" "mb_queue mb = [] \<Longrightarrow> try_pop mb = (None, mb)"
    "mb_queue mb \<noteq> [] \<Longrightarrow>
      fst (try_pop mb) = Some (hd (mb_queue mb)) \<and> mb_queue (snd (try_pop mb)) = tl (mb_queue mb)"
    using assms pop_front_correct [OF assms] e by (simp_all add: try_pop_def)
qed (simp_all add: try_pop_def pop_front_def)

lemma mb_put_facts:
  assumes "mb_ok mb" "\<not> mb_closed mb"
  shows "mb_ok (mb_put d mb)" "\<not> mb_closed (mb_put d mb)" "mb_capacity (mb_put d mb) = mb_capacity mb"
    "mb_queue (mb_put d mb) = (if length (mb_queue mb) = mb_capacity mb then tl (mb_queue mb) else mb_queue mb) @ [d]"
    "mb_dropped (mb_put d mb) = (if length (mb_queue mb) = mb_capacity mb then Suc (mb_dropped mb) else mb_dropped mb)"
proof -
  obtain fin gone mb' where run: "deliver True d mb = (fin, gone, mb')" by (metis prod.exhaust)
  note c = deliver_correct [OF assms(1) run]
  have fin: fin using c(5) by auto
  show "mb_ok (mb_put d mb)" "\<not> mb_closed (mb_put d mb)" "mb_capacity (mb_put d mb) = mb_capacity mb"
    "mb_queue (mb_put d mb) = (if length (mb_queue mb) = mb_capacity mb then tl (mb_queue mb) else mb_queue mb) @ [d]"
    "mb_dropped (mb_put d mb) = (if length (mb_queue mb) = mb_capacity mb then Suc (mb_dropped mb) else mb_dropped mb)"
    using c(1-3) c(7) [OF fin assms(2)] run assms(2) by (auto simp: mb_put_def split: if_splits)
qed

interpretation mbq: drop_oldest_queue mb_put try_pop mb_queue "\<lambda>mb. mb_ok mb \<and> \<not> mb_closed mb" mb_capacity
    mb_dropped
proof
  show "length (mb_queue mb) \<le> mb_capacity mb \<and> 0 < mb_capacity mb" if "mb_ok mb \<and> \<not> mb_closed mb"
    for mb :: "'a mailbox"
    using that by (auto simp: mb_ok_def)
qed (simp_all add: mb_put_facts try_pop_correct)

section \<open>Receivers\<close>

text \<open>
  One turn of the loop of \<open>PassiveUDPConnection::receive\<close>, on the listener's strand: take a datagram,
  or end because the mailbox is closed, or wait on the timer.
\<close>

datatype 'd look = Got 'd | Ended CloseCause | Suspended

definition receive_look :: "nat \<Rightarrow> 'd mailbox \<Rightarrow> 'd look \<times> 'd mailbox" where
  "receive_look r mb =
    (case try_pop mb of
       (Some d, mb1) \<Rightarrow> (Got d, mb1)
     | (None, mb1) \<Rightarrow>
         if mb_closed mb1 then (Ended (mb_cause mb1), mb1) else (Suspended, mb_wait r mb1))"

text \<open>
  What happens to a mailbox, one event at a time: a datagram is delivered, the mailbox is closed, a
  receiver calls \<open>receive()\<close>, or a receiver whose wait has ended resumes.
\<close>

datatype 'd mb_event = Deliver 'd | Close CloseCause | Call nat | Resume nat

inductive mb_step :: "'d mailbox \<Rightarrow> 'd mb_event \<Rightarrow> 'd mailbox \<Rightarrow> bool" where
  step_deliver: "deliver granted d mb = (fin, gone, mb') \<Longrightarrow> mb_step mb (Deliver d) mb'"
| step_close: "mb_step mb (Close cause) (mb_close cause mb)"
| step_call: "r \<notin> set (mb_waiting mb) \<union> set (mb_ready mb) \<Longrightarrow>
    mb_step mb (Call r) (snd (receive_look r mb))"
| step_resume: "r \<in> set (mb_ready mb) \<Longrightarrow>
    mb_step mb (Resume r) (snd (receive_look r (mb\<lparr>mb_ready := remove1 r (mb_ready mb)\<rparr>)))"

inductive_simps mb_step_simps:
  "mb_step mb (Deliver d) mb'" "mb_step mb (Close c) mb'" "mb_step mb (Call r) mb'" "mb_step mb (Resume r) mb'"

inductive mb_reachable :: "nat \<Rightarrow> 'd mailbox \<Rightarrow> bool" for cap where
  reach_init: "mb_reachable cap (make_mailbox cap)"
| reach_step: "mb_reachable cap mb \<Longrightarrow> mb_step mb e mb' \<Longrightarrow> mb_reachable cap mb'"

text \<open>
  While a receiver waits, every queued datagram has a resumed receiver coming for it; and nobody
  waits on a closed mailbox.
\<close>

definition mb_inv :: "'d mailbox \<Rightarrow> bool" where
  "mb_inv mb \<longleftrightarrow>
    mb_ok mb \<and> (mb_closed mb \<longrightarrow> mb_waiting mb = []) \<and>
    (mb_waiting mb \<noteq> [] \<longrightarrow> mb_count mb \<le> length (mb_ready mb)) \<and>
    distinct (mb_waiting mb @ mb_ready mb)"

lemma mb_inv_deliver:
  assumes inv: "mb_inv mb" and run: "deliver granted d mb = (fin, gone, mb')"
  shows "mb_inv mb'"
proof -
  have ok: "mb_ok mb" using inv by (simp add: mb_inv_def)
  note c = deliver_correct [OF ok run]
  show ?thesis
  proof (cases "fin \<and> \<not> mb_closed mb")
    case False
    then have "mb' = mb" using c(5,6) by auto
    then show ?thesis using inv by simp
  next
    case True
    have w: "mb_waiting mb' = tl (mb_waiting mb)" "mb_ready mb' = mb_ready mb @ take 1 (mb_waiting mb)"
      using c(8) True by simp_all
    have "length (mb_queue mb') \<le> Suc (length (mb_queue mb))"
      using c(7) True by (auto simp del: length_mb_queue split: if_splits)
    then have n: "mb_count mb' \<le> Suc (mb_count mb)" by simp
    show ?thesis
      using inv w n c(1,3) True by (cases "mb_waiting mb") (auto simp: mb_inv_def)
  qed
qed

lemma mb_close_simps [simp]:
  "mb_ok (mb_close cause mb) = mb_ok mb" "mb_queue (mb_close cause mb) = mb_queue mb"
  "mb_closed (mb_close cause mb)" "mb_waiting (mb_close cause mb) = []"
  "mb_cause (mb_close cause mb) = (if mb_closed mb then mb_cause mb else cause)"
  by (simp_all add: mb_close_def)

lemma mb_inv_close: "mb_inv mb \<Longrightarrow> mb_inv (mb_close cause mb)"
  by (auto simp: mb_inv_def mb_close_def)

text \<open>A receiver that looks is neither waiting nor about to resume.\<close>

lemma mb_inv_look:
  assumes ok: "mb_ok mb" and closed: "mb_closed mb \<longrightarrow> mb_waiting mb = []"
    and enough: "mb_waiting mb \<noteq> [] \<longrightarrow> mb_count mb \<le> Suc (length (mb_ready mb))"
    and dist: "distinct (mb_waiting mb @ mb_ready mb)"
    and r: "r \<notin> set (mb_waiting mb) \<union> set (mb_ready mb)"
  shows "mb_inv (snd (receive_look r mb))"
proof (cases "mb_queue mb = []")
  case True
  then have z: "mb_count mb = 0" by (metis length_mb_queue list.size(3))
  have "receive_look r mb = (if mb_closed mb then (Ended (mb_cause mb), mb) else (Suspended, mb_wait r mb))"
    using try_pop_correct(4) [OF ok True] by (simp add: receive_look_def)
  then show ?thesis
    using assms z by (auto simp: mb_inv_def mb_wait_def)
next
  case False
  note t = try_pop_correct [OF ok]
  obtain d mb1 where d: "try_pop mb = (Some d, mb1)"
    using t(5) [OF False] by (cases "try_pop mb") auto
  have "mb_queue mb1 = tl (mb_queue mb)" using t(5) [OF False] d by simp
  then have "mb_count mb1 = mb_count mb - 1" by (metis length_mb_queue length_tl)
  moreover have "snd (receive_look r mb) = mb1"
    using d by (simp add: receive_look_def)
  ultimately show ?thesis
    using t(1,3,6,7) d closed enough dist by (auto simp: mb_inv_def)
qed

lemma mb_inv_step: "mb_step mb e mb' \<Longrightarrow> mb_inv mb \<Longrightarrow> mb_inv mb'"
proof (induction rule: mb_step.induct)
  case (step_deliver granted d mb fin gone mb')
  show ?case by (rule mb_inv_deliver [OF step_deliver.prems step_deliver.hyps])
next
  case (step_close mb cause)
  then show ?case by (rule mb_inv_close)
next
  case (step_call r mb)
  then show ?case by (intro mb_inv_look) (auto simp: mb_inv_def)
next
  case (step_resume r mb)
  have "length (mb_ready mb) = Suc (length (remove1 r (mb_ready mb)))"
    using step_resume.hyps length_pos_if_in_set [of r "mb_ready mb"] by (simp add: length_remove1)
  moreover have "distinct (mb_waiting mb @ mb_ready mb)"
    using step_resume.prems by (simp add: mb_inv_def)
  ultimately show ?case
    using step_resume by (intro mb_inv_look) (auto simp: mb_inv_def dest: notin_set_remove1)
qed

lemma mb_inv_reachable: "mb_reachable cap mb \<Longrightarrow> mb_inv mb"
proof (induction rule: mb_reachable.induct)
  case reach_init
  then show ?case by (simp add: mb_inv_def)
qed (rule mb_inv_step)

section \<open>Properties\<close>

text \<open>
  \<open>deliver\<close> never blocks and never queues beyond the bound: a full open mailbox loses exactly
  its oldest datagram, which is counted, any other open one just gains the new datagram, and a closed
  one ignores it; it fails only when memory for a larger ring is refused, and then changes nothing.
\<close>

lemma deliver_contract:
  assumes "mb_ok mb" and "deliver granted d mb = (fin, gone, mb')"
  shows "mb_ok mb' \<and> length (mb_queue mb') \<le> mb_capacity mb \<and> mb_capacity mb' = mb_capacity mb \<and>
    (if \<not> fin then \<not> granted \<and> mb' = mb
     else if mb_closed mb then mb' = mb \<and> gone = [d]
     else if length (mb_queue mb) = mb_capacity mb
     then mb_queue mb' = tl (mb_queue mb) @ [d] \<and> gone = [hd (mb_queue mb)] \<and>
       mb_dropped mb' = mb_dropped mb + 1
     else mb_queue mb' = mb_queue mb @ [d] \<and> gone = [] \<and> mb_dropped mb' = mb_dropped mb)"
proof -
  note c = deliver_correct [OF assms]
  have "length (mb_queue mb') \<le> mb_capacity mb" using c(1,2) by (simp add: mb_ok_def)
  then show ?thesis using c(1,2) c(5-7) by (cases fin) auto
qed

text \<open>
  C26. An open mailbox is a bounded queue that drops the oldest: for every sequence of deliveries and reads, with
  every growth of the ring, the datagrams that are read, those left and the number dropped are those of a plain
  list with that bound, so that test_mailbox_against_model of tests/buffer_smoke.cpp passes for every sequence and
  every bound. In particular datagrams come out in the order they went in.
\<close>

theorem mailbox_is_fifo:
  fixes mb :: "'d mailbox"
  assumes "mb_ok mb" and "\<not> mb_closed mb"
  shows "bounded_queue (mb_capacity mb) ops (mb_queue mb) (mb_dropped mb) =
      (fst (mbq.run ops mb), mb_queue (snd (mbq.run ops mb)), mb_dropped (snd (mbq.run ops mb))) \<and>
    subseq (fst (mbq.run ops mb) @ mb_queue (snd (mbq.run ops mb))) (mb_queue mb @ puts ops)"
  using mbq.run_subseq mbq.run_reference assms by blast

lemma mailbox_is_fifo_witness:
  "fst (mbq.run [Put 1, Put 2, Put 3, Pop, Put 4] (make_mailbox 2)) = [2 :: nat] \<and>
    mb_queue (snd (mbq.run [Put 1, Put 2, Put 3, Pop, Put (4 :: nat)] (make_mailbox 2))) = [3, 4] \<and>
    mb_dropped (snd (mbq.run [Put 1, Put 2, Put 3, Pop, Put (4 :: nat)] (make_mailbox 2))) = 1"
  using mailbox_is_fifo [of "make_mailbox 2" "[Put 1, Put 2, Put 3, Pop, Put (4 :: nat)]"]
  by (simp del: mbq.run.simps)

text \<open>
  After a burst that no receiver serves, the newest datagrams are kept, up to the bound.
\<close>

lemma mailbox_keeps_newest:
  fixes mb :: "'d mailbox"
  assumes "mb_ok mb" and "\<not> mb_closed mb"
  shows "mb_queue (fold mb_put ds mb)
    = drop (length (mb_queue mb @ ds) - mb_capacity mb) (mb_queue mb @ ds)"
  using mbq.fold_put assms by blast

text \<open>
  C27. No wake-up is lost: in every reachable state, if a receiver is waiting then for each queued
  datagram a resumed receiver is on its way, and nobody waits on a closed mailbox.
\<close>

theorem no_lost_wakeup:
  assumes "mb_reachable cap mb"
  shows "(mb_waiting mb \<noteq> [] \<longrightarrow> length (mb_queue mb) \<le> length (mb_ready mb)) \<and>
    (mb_closed mb \<longrightarrow> mb_waiting mb = [])"
  using mb_inv_reachable [OF assms] by (auto simp: mb_inv_def)

lemma no_lost_wakeup_witness:
  "mb_waiting (snd (receive_look 1 (make_mailbox 2 :: nat mailbox))) = [1] \<and>
    mb_waiting (mb_close idle (snd (receive_look 1 (make_mailbox 2 :: nat mailbox)))) = []"
proof -
  let ?mb = "snd (receive_look 1 (make_mailbox 2 :: nat mailbox))"
  have "mb_reachable 2 (mb_close idle ?mb)"
    by (rule reach_step [OF reach_step [OF reach_init, of 2 "Call 1"], of _ "Close idle"])
       (auto simp: mb_step_simps make_mailbox_def)
  moreover have "mb_closed (mb_close idle ?mb)" by (simp add: mb_close_def)
  ultimately have "mb_waiting (mb_close idle ?mb) = []" using no_lost_wakeup by blast
  moreover have "mb_waiting ?mb = [1]"
    by (simp add: receive_look_def try_pop_def make_mailbox_def mb_wait_def)
  ultimately show ?thesis by simp
qed

end
