(* ===== verification/Udp_Demux.thy ===== *)
theory Udp_Demux
  imports Mailbox Errors
begin

text \<open>
  The demultiplexer behind a UDP listener (src/udp_demux.h, src/UDPListener.cpp) and the passive
  connections it creates (class \<open>PassiveUDPConnection\<close>, src/UDPConnection.cpp).

  Everything here runs on one strand, so the state changes one handler at a time. Endpoints \<open>'e\<close> and
  datagrams \<open>'d\<close> are arbitrary types. An entry of the list \<open>lru_\<close> is a node with an identity, which is
  what an iterator in \<open>index_\<close> points to; \<open>index_\<close> is an association list without duplicate keys.
  Mailboxes live at addresses, in \<open>dx_mailboxes\<close>, as long as an entry or a connection holds them. The
  answers of the outside world are arguments: the time, the environment's limits, whether memory is
  granted, the address \<open>make_shared\<close> returns, and whether the accept channel takes a connection.

  Handlers posted to the strand wait in \<open>dx_posted\<close> until they run. \<open>dx_loop\<close> and \<open>dx_sweeping\<close> say
  where the two coroutines stand, \<open>receive_loop()\<close> with its read and \<open>sweep_loop()\<close> with its timer.
  Closing the socket or cancelling the timer does not end them: it cancels the operation that is pending, if
  one is, and only a turn that finds its operation cancelled ends its loop. An exception ends the receive loop.
\<close>

section \<open>Configuration\<close>

definition kMaxConnections :: nat where
  "kMaxConnections = 1024"

definition kIdleTimeout :: nat where
  "kIdleTimeout = 30"

definition kSweepInterval :: nat where
  "kSweepInterval = 5"

text \<open>
  \<open>std::strtoull(s, nullptr, 10)\<close>: leading white space, a sign, then digits; the value saturates at
  \<open>ULLONG_MAX\<close>, a minus sign negates modulo \<open>2 ^ 64\<close>, and no digits give 0.
\<close>

definition is_space :: "char \<Rightarrow> bool" where
  "is_space c = (c \<in> {CHR '' '', CHR 0x09, CHR 0x0A, CHR 0x0B, CHR 0x0C, CHR 0x0D})"

definition is_digit :: "char \<Rightarrow> bool" where
  "is_digit c = (48 \<le> (of_char c :: nat) \<and> (of_char c :: nat) \<le> 57)"

definition digits_value :: "string \<Rightarrow> nat" where
  "digits_value s = foldl (\<lambda>n c. 10 * n + (of_char c - 48)) 0 (takeWhile is_digit s)"

definition strtoull :: "string \<Rightarrow> nat" where
  "strtoull s =
    (let t = dropWhile is_space s;
         neg = (t \<noteq> [] \<and> hd t = CHR ''-'');
         u = (if t \<noteq> [] \<and> (hd t = CHR ''-'' \<or> hd t = CHR ''+'') then tl t else t);
         v = digits_value u
     in if v > 2 ^ 64 - 1 then 2 ^ 64 - 1
        else if neg then (2 ^ 64 - v) mod 2 ^ 64 else v)"

definition env_or :: "(string \<Rightarrow> string option) \<Rightarrow> string \<Rightarrow> nat \<Rightarrow> nat" where
  "env_or getenv name def =
    (case getenv name of
       None \<Rightarrow> def
     | Some s \<Rightarrow> (let v = strtoull s in if v \<noteq> 0 then v else def))"

definition max_connections :: "(string \<Rightarrow> string option) \<Rightarrow> nat" where
  "max_connections getenv = env_or getenv ''TAPS_UDP_MAX_CONNS'' kMaxConnections"

text \<open>
  \<open>std::chrono::seconds(n)\<close> counts in a signed 64-bit integer, so that a \<open>size_t\<close> from \<open>2 ^ 63\<close> on becomes
  negative. Times are in seconds here; that \<open>steady_clock\<close> counts nanoseconds, in which more than
  \<open>2 ^ 63 / 10 ^ 9\<close> seconds overflow (which C++ leaves undefined), is not modelled.
\<close>

definition chrono_seconds :: "nat \<Rightarrow> int" where
  "chrono_seconds n = sint (word_of_nat n :: 64 word)"

definition idle_timeout :: "(string \<Rightarrow> string option) \<Rightarrow> int" where
  "idle_timeout getenv = chrono_seconds (env_or getenv ''TAPS_UDP_IDLE_SECS'' kIdleTimeout)"

definition sweep_interval :: "(string \<Rightarrow> string option) \<Rightarrow> int" where
  "sweep_interval getenv = chrono_seconds (env_or getenv ''TAPS_UDP_SWEEP_SECS'' kSweepInterval)"

section \<open>State\<close>

record 'e entry =
  en_source :: 'e
  en_mailbox :: nat
  en_last_active :: int

datatype 'e task = Release 'e nat | Stop

record 'e passive_conn =
  pc_remote :: 'e
  pc_mailbox :: nat
  pc_state :: ConnectionState
  pc_aborted :: bool
  pc_released :: bool

definition make_passive :: "'e \<Rightarrow> nat \<Rightarrow> 'e passive_conn" where
  "make_passive remote a =
    \<lparr>pc_remote = remote, pc_mailbox = a, pc_state = ESTABLISHING, pc_aborted = False, pc_released = False\<rparr>"

declare make_passive_def [simp]

text \<open>
  Where \<open>receive_loop()\<close> stands: about to start a read; with a read pending; with one that has completed, with a
  datagram or with an error other than \<open>operation_aborted\<close>, or that was cancelled, and whose turn has still to
  run; or over. A completed operation can no longer be cancelled.
\<close>

datatype read_state = Read_Next | Read_Pending | Read_Done | Read_Failed | Read_Cancelled | Read_Over

text \<open>Where \<open>sweep_loop()\<close> stands: waiting for its timer, with the timer expired or cancelled, or over.\<close>

datatype timer_state = Timer_Pending | Timer_Expired | Timer_Cancelled | Timer_Over

record ('e, 'd) demux =
  dx_open :: bool
  dx_loop :: read_state
  dx_accepting :: bool
  dx_sweeping :: timer_state
  dx_lru :: "(nat \<times> 'e entry) list"
  dx_index :: "('e \<times> nat) list"
  dx_next :: nat
  dx_mailboxes :: "nat \<Rightarrow> 'd mailbox option"
  dx_conns :: "(nat \<times> 'e passive_conn) list"
  dx_posted :: "'e task list"
  dx_fault :: bool

definition make_demux :: "('e, 'd) demux" where
  "make_demux =
    \<lparr>dx_open = False, dx_loop = Read_Over, dx_accepting = True, dx_sweeping = Timer_Over, dx_lru = [], dx_index = [], dx_next = 0,
     dx_mailboxes = (\<lambda>_. None), dx_conns = [], dx_posted = [], dx_fault = False\<rparr>"

section \<open>Operations\<close>

text \<open>\<open>socket_.close()\<close> and \<open>sweep_timer_.cancel()\<close>: what is pending is cancelled, nothing else.\<close>

definition close_socket :: "('e, 'd) demux \<Rightarrow> ('e, 'd) demux" where
  "close_socket dx =
    dx\<lparr>dx_open := False, dx_loop := (if dx_loop dx = Read_Pending then Read_Cancelled else dx_loop dx)\<rparr>"

definition cancel_timer :: "('e, 'd) demux \<Rightarrow> ('e, 'd) demux" where
  "cancel_timer dx =
    dx\<lparr>dx_sweeping := (if dx_sweeping dx = Timer_Pending then Timer_Cancelled else dx_sweeping dx)\<rparr>"

text \<open>
  \<open>start(local)\<close>: open, reuse_address, bind, local_endpoint, in this order; the argument is the error
  code of the first of them that fails. On failure the socket is closed. Otherwise both coroutines are spawned;
  the first turn of \<open>sweep_loop()\<close> only starts its timer. (A second start is meant for when the coroutines of
  the first are over or cancelled; otherwise there would be two of each.)
\<close>

definition demux_start :: "error_code option \<Rightarrow> ('e, 'd) demux \<Rightarrow> unit result \<times> ('e, 'd) demux" where
  "demux_start failed dx =
    (case failed of
       Some ec \<Rightarrow> (Inl (io_error ESTABLISHMENT_ERROR ec), close_socket dx)
     | None \<Rightarrow> (Inr (), dx\<lparr>dx_open := True, dx_loop := Read_Next, dx_sweeping := Timer_Pending\<rparr>))"

text \<open>
  \<open>async_receive_from\<close>: on a closed socket the read fails at once, with the system's error for a bad
  descriptor, not with \<open>operation_aborted\<close>.
\<close>

definition begin_read :: "('e, 'd) demux \<Rightarrow> ('e, 'd) demux" where
  "begin_read dx = dx\<lparr>dx_loop := (if dx_open dx then Read_Pending else Read_Failed)\<rparr>"

text \<open>Opening a socket that is already open fails with \<open>already_open\<close>.\<close>

definition already_open :: error_code where
  "already_open = \<lparr>ec_value = EC_other 1, ec_message = ''Already open''\<rparr>"

definition index_find :: "'e \<Rightarrow> ('e, 'd) demux \<Rightarrow> nat option" where
  "index_find e dx = map_of (dx_index dx) e"

definition close_mailbox :: "CloseCause \<Rightarrow> nat \<Rightarrow> (nat \<Rightarrow> 'd mailbox option) \<Rightarrow> nat \<Rightarrow> 'd mailbox option" where
  "close_mailbox cause a m = m(a := map_option (mb_close cause) (m a))"

text \<open>
  \<open>evict(it, cause)\<close>: the mailbox is closed, the source leaves the index, the node leaves the list,
  and with it a reference to the mailbox, which is freed if no connection holds it either.
\<close>

definition drop_mailbox :: "nat \<Rightarrow> ('e, 'd) demux \<Rightarrow> ('e, 'd) demux" where
  "drop_mailbox a dx =
    (if (\<exists>p\<in>set (dx_lru dx). en_mailbox (snd p) = a) \<or> (\<exists>p\<in>set (dx_conns dx). pc_mailbox (snd p) = a)
     then dx
     else dx\<lparr>dx_mailboxes := (dx_mailboxes dx)(a := None)\<rparr>)"

definition evict :: "nat \<Rightarrow> CloseCause \<Rightarrow> ('e, 'd) demux \<Rightarrow> ('e, 'd) demux" where
  "evict it cause dx =
    (case map_of (dx_lru dx) it of
       None \<Rightarrow> dx\<lparr>dx_fault := True\<rparr>
     | Some e \<Rightarrow>
         drop_mailbox (en_mailbox e)
           (dx\<lparr>dx_mailboxes := close_mailbox cause (en_mailbox e) (dx_mailboxes dx),
               dx_index := filter (\<lambda>p. fst p \<noteq> en_source e) (dx_index dx),
               dx_lru := filter (\<lambda>p. fst p \<noteq> it) (dx_lru dx)\<rparr>))"

definition shut_down_if_unused :: "('e, 'd) demux \<Rightarrow> ('e, 'd) demux" where
  "shut_down_if_unused dx =
    (if dx_accepting dx \<or> dx_index dx \<noteq> [] then dx
     else cancel_timer (close_socket dx))"

text \<open>\<open>mailbox->deliver(datagram)\<close>; an exception leaves the receive loop.\<close>

definition deliver_to :: "bool \<Rightarrow> 'd \<Rightarrow> nat \<Rightarrow> ('e, 'd) demux \<Rightarrow> ('e, 'd) demux" where
  "deliver_to granted d a dx =
    (case dx_mailboxes dx a of
       None \<Rightarrow> dx\<lparr>dx_fault := True\<rparr>
     | Some mb \<Rightarrow>
         (case deliver granted d mb of
            (False, _, mb') \<Rightarrow> dx\<lparr>dx_loop := Read_Over\<rparr>
          | (True, _, mb') \<Rightarrow> dx\<lparr>dx_mailboxes := (dx_mailboxes dx)(a \<mapsto> mb')\<rparr>))"

text \<open>The bounded table: when it is full, the least recently active source makes room.\<close>

definition make_room :: "nat \<Rightarrow> ('e, 'd) demux \<Rightarrow> ('e, 'd) demux" where
  "make_room limit dx =
    (if length (dx_index dx) \<ge> limit \<and> dx_lru dx \<noteq> []
     then evict (fst (last (dx_lru dx))) displaced dx else dx)"

text \<open>
  What the receive loop does with one datagram: a known source is moved to the front and its mailbox
  gets the datagram; a new source, while accepting, displaces the least recently active one if the
  table is full, and gets an entry, a mailbox at address \<open>a\<close> and a connection, which has the number of
  the entry's node. If the channel does not take the connection it is destroyed, and its destructor
  posts its release; the datagram is dropped.
\<close>

definition on_datagram :: "nat \<Rightarrow> int \<Rightarrow> nat \<Rightarrow> bool \<Rightarrow> bool \<Rightarrow> 'e \<Rightarrow> 'd \<Rightarrow> ('e, 'd) demux \<Rightarrow> ('e, 'd) demux" where
  "on_datagram limit now a sent granted sender d dx =
    (case index_find sender dx of
       Some it \<Rightarrow>
         (case map_of (dx_lru dx) it of
            None \<Rightarrow> dx\<lparr>dx_fault := True\<rparr>
          | Some e \<Rightarrow>
              deliver_to granted d (en_mailbox e)
                (dx\<lparr>dx_lru := (it, e\<lparr>en_last_active := now\<rparr>) # filter (\<lambda>p. fst p \<noteq> it) (dx_lru dx)\<rparr>))
     | None \<Rightarrow>
         if \<not> dx_accepting dx then dx
         else
           (let dx1 = make_room limit dx;
                it = dx_next dx1;
                dx2 = dx1\<lparr>dx_mailboxes := (dx_mailboxes dx1)(a \<mapsto> make_mailbox default_mailbox_capacity),
                          dx_lru := (it, \<lparr>en_source = sender, en_mailbox = a, en_last_active = now\<rparr>) # dx_lru dx1,
                          dx_index := (sender, it) # dx_index dx1,
                          dx_next := it + 1\<rparr>;
                conn = make_passive sender a
            in if sent then deliver_to granted d a (dx2\<lparr>dx_conns := (it, conn) # dx_conns dx2\<rparr>)
               else dx2\<lparr>dx_posted := dx_posted dx2 @ [Release sender a]\<rparr>))"

text \<open>
  One round of the idle sweep, after its timer has expired: nothing waits on the timer now, so that the
  shutdown in it cancels nothing, and the loop starts the timer again.
\<close>

function sweep_evict :: "int \<Rightarrow> ('e, 'd) demux \<Rightarrow> ('e, 'd) demux" where
  "sweep_evict cutoff dx =
    (if dx_lru dx \<noteq> [] \<and> en_last_active (snd (last (dx_lru dx))) < cutoff
     then sweep_evict cutoff (evict (fst (last (dx_lru dx))) idle dx)
     else dx)"
  by pat_completeness auto

lemma dx_lru_drop_mailbox [simp]: "dx_lru (drop_mailbox a dx) = dx_lru dx"
  by (simp add: drop_mailbox_def)

lemma evict_shorter:
  assumes "p \<in> set (dx_lru dx)"
  shows "length (dx_lru (evict (fst p) cause dx)) < length (dx_lru dx)"
proof -
  have "map_of (dx_lru dx) (fst p) \<noteq> None"
    unfolding map_of_eq_None_iff using assms by auto
  then obtain e where "map_of (dx_lru dx) (fst p) = Some e" by blast
  moreover have "length (filter (\<lambda>q. fst q \<noteq> fst p) (dx_lru dx)) < length (dx_lru dx)"
    using assms by (intro length_filter_less) auto
  ultimately show ?thesis by (simp add: evict_def)
qed

termination sweep_evict
  by (relation "measure (\<lambda>(cutoff, dx). length (dx_lru dx))") (auto intro: evict_shorter)

declare sweep_evict.simps [simp del]

definition sweep :: "int \<Rightarrow> int \<Rightarrow> ('e, 'd) demux \<Rightarrow> ('e, 'd) demux" where
  "sweep now idle_secs dx =
    (shut_down_if_unused (sweep_evict (now - idle_secs) dx))\<lparr>dx_sweeping := Timer_Pending\<rparr>"

text \<open>\<open>stop_accepting()\<close> and \<open>release()\<close> post a handler; \<open>run_task\<close> runs the first posted one.\<close>

definition stop_accepting :: "('e, 'd) demux \<Rightarrow> ('e, 'd) demux" where
  "stop_accepting dx = dx\<lparr>dx_posted := dx_posted dx @ [Stop]\<rparr>"

definition demux_release :: "'e \<Rightarrow> nat \<Rightarrow> ('e, 'd) demux \<Rightarrow> ('e, 'd) demux" where
  "demux_release source a dx = dx\<lparr>dx_posted := dx_posted dx @ [Release source a]\<rparr>"

fun exec_task :: "'e task \<Rightarrow> ('e, 'd) demux \<Rightarrow> ('e, 'd) demux" where
  "exec_task (Release source a) dx =
    shut_down_if_unused
      (case index_find source dx of
         None \<Rightarrow> dx
       | Some it \<Rightarrow>
           (case map_of (dx_lru dx) it of
              None \<Rightarrow> dx\<lparr>dx_fault := True\<rparr>
            | Some e \<Rightarrow> if en_mailbox e = a then evict it owner dx else dx))"
| "exec_task Stop dx = shut_down_if_unused (dx\<lparr>dx_accepting := False\<rparr>)"

definition run_task :: "('e, 'd) demux \<Rightarrow> ('e, 'd) demux" where
  "run_task dx =
    (case dx_posted dx of [] \<Rightarrow> dx | t # ts \<Rightarrow> exec_task t (dx\<lparr>dx_posted := ts\<rparr>))"

section \<open>Passive connections\<close>

definition upd_conn :: "nat \<Rightarrow> ('e passive_conn \<Rightarrow> 'e passive_conn) \<Rightarrow> ('e, 'd) demux \<Rightarrow> ('e, 'd) demux" where
  "upd_conn c f dx = dx\<lparr>dx_conns := map (\<lambda>p. if fst p = c then (c, f (snd p)) else p) (dx_conns dx)\<rparr>"

text \<open>\<open>accept()\<close>, once the channel has yielded a connection (or an error, when it is closed).\<close>

definition demux_accept :: "nat option \<Rightarrow> ('e, 'd) demux \<Rightarrow> nat result \<times> ('e, 'd) demux" where
  "demux_accept got dx =
    (case got of
       None \<Rightarrow> (Inl (taps_error ESTABLISHMENT_ERROR INVALID_STATE ''Listener stopped''), dx)
     | Some c \<Rightarrow> (Inr c, upd_conn c (\<lambda>pc. pc\<lparr>pc_state := ESTABLISHED\<rparr>) dx))"

definition passive_release :: "nat \<Rightarrow> ('e, 'd) demux \<Rightarrow> ('e, 'd) demux" where
  "passive_release c dx =
    (case map_of (dx_conns dx) c of
       None \<Rightarrow> dx
     | Some pc \<Rightarrow>
         if pc_released pc then dx
         else demux_release (pc_remote pc) (pc_mailbox pc) (upd_conn c (\<lambda>pc. pc\<lparr>pc_released := True\<rparr>) dx))"

definition passive_close :: "nat \<Rightarrow> ('e, 'd) demux \<Rightarrow> ('e, 'd) demux" where
  "passive_close c dx = passive_release c (upd_conn c (\<lambda>pc. pc\<lparr>pc_state := CLOSED\<rparr>) dx)"

definition passive_abort :: "nat \<Rightarrow> ('e, 'd) demux \<Rightarrow> ('e, 'd) demux" where
  "passive_abort c dx = passive_close c (upd_conn c (\<lambda>pc. pc\<lparr>pc_aborted := True\<rparr>) dx)"

text \<open>The destructor: \<open>release()\<close>, then the members go, and with them a reference to the mailbox.\<close>

definition passive_destroy :: "nat \<Rightarrow> ('e, 'd) demux \<Rightarrow> ('e, 'd) demux" where
  "passive_destroy c dx =
    (case map_of (dx_conns dx) c of
       None \<Rightarrow> dx
     | Some pc \<Rightarrow>
         (let dx1 = passive_release c dx
          in drop_mailbox (pc_mailbox pc) (dx1\<lparr>dx_conns := filter (\<lambda>p. fst p \<noteq> c) (dx_conns dx1)\<rparr>)))"

definition cancelled :: "ErrorEvent \<Rightarrow> bool \<Rightarrow> TAPSError" where
  "cancelled ev was_aborted =
    (if was_aborted then taps_error CONNECTION_ERROR LOCAL_ABORT ''Connection aborted''
     else taps_error ev INVALID_STATE ''Connection closed locally'')"

definition udp_failure :: "ErrorEvent \<Rightarrow> error_code \<Rightarrow> bool \<Rightarrow> TAPSError" where
  "udp_failure ev ec was_aborted =
    (if ec_value ec = EC_operation_aborted then cancelled ev was_aborted else io_error ev ec)"

definition close_error :: "CloseCause \<Rightarrow> bool \<Rightarrow> TAPSError" where
  "close_error cause was_aborted =
    (case cause of
       idle \<Rightarrow> taps_error CONNECTION_ERROR IDLE_TIMEOUT ''no traffic from the peer within the idle timeout''
     | displaced \<Rightarrow> taps_error CONNECTION_ERROR RESOURCE_EXHAUSTED ''evicted: the listener's connection table is full''
     | owner \<Rightarrow> cancelled RECEIVE_ERROR was_aborted)"

text \<open>
  \<open>receive()\<close>, one turn of its loop for the receiver \<open>r\<close>: \<open>None\<close> while it waits, otherwise the result.
\<close>

definition passive_receive :: "nat \<Rightarrow> nat \<Rightarrow> ('e, 'd) demux \<Rightarrow> 'd result option \<times> ('e, 'd) demux" where
  "passive_receive r c dx =
    (case map_of (dx_conns dx) c of
       None \<Rightarrow> (None, dx\<lparr>dx_fault := True\<rparr>)
     | Some pc \<Rightarrow>
         (case dx_mailboxes dx (pc_mailbox pc) of
            None \<Rightarrow> (None, dx\<lparr>dx_fault := True\<rparr>)
          | Some mb \<Rightarrow>
              (case receive_look r mb of
                 (res, mb') \<Rightarrow>
                   (let dx1 = dx\<lparr>dx_mailboxes := (dx_mailboxes dx)(pc_mailbox pc \<mapsto> mb')\<rparr>
                    in case res of
                         Got d \<Rightarrow> (Some (Inr d), dx1)
                       | Suspended \<Rightarrow> (None, dx1)
                       | Ended cause \<Rightarrow>
                           (Some (Inl (close_error cause (pc_aborted pc))),
                            upd_conn c (\<lambda>pc. pc\<lparr>pc_state := CLOSED\<rparr>) dx1)))))"

section \<open>Invariant\<close>

text \<open>
  The index is the list seen from the sources; sources, nodes and mailboxes are all different; every
  entry's mailbox exists and is open; every connection's mailbox exists; and no handler has used a
  node or a mailbox that is gone.
\<close>

definition lru_keys :: "(nat \<times> 'e entry) list \<Rightarrow> ('e \<times> nat) list" where
  "lru_keys l = map (\<lambda>p. (en_source (snd p), fst p)) l"

definition demux_inv :: "('e, 'd) demux \<Rightarrow> bool" where
  "demux_inv dx \<longleftrightarrow>
    mset (dx_index dx) = mset (lru_keys (dx_lru dx)) \<and>
    distinct (map (en_source \<circ> snd) (dx_lru dx)) \<and> distinct (map fst (dx_lru dx)) \<and>
    distinct (map (en_mailbox \<circ> snd) (dx_lru dx)) \<and>
    (\<forall>p\<in>set (dx_lru dx). fst p < dx_next dx) \<and>
    (\<forall>p\<in>set (dx_lru dx). \<exists>mb. dx_mailboxes dx (en_mailbox (snd p)) = Some mb \<and> mb_ok mb \<and> \<not> mb_closed mb) \<and>
    distinct (map fst (dx_conns dx)) \<and> (\<forall>p\<in>set (dx_conns dx). fst p < dx_next dx) \<and>
    (\<forall>p\<in>set (dx_conns dx). \<exists>mb. dx_mailboxes dx (pc_mailbox (snd p)) = Some mb \<and> mb_ok mb) \<and>
    \<not> dx_fault dx"

lemma demux_inv_make [simp]: "demux_inv make_demux"
  by (simp add: demux_inv_def make_demux_def lru_keys_def)

lemma lru_keys_simps [simp]: "lru_keys [] = []" "lru_keys (p # l) = (en_source (snd p), fst p) # lru_keys l"
  by (simp_all add: lru_keys_def)

lemma demux_invD:
  assumes "demux_inv dx"
  shows "length (dx_index dx) = length (dx_lru dx)" and "dx_index dx = [] \<longleftrightarrow> dx_lru dx = []"
    and "set (dx_index dx) = set (lru_keys (dx_lru dx))" and "distinct (map fst (dx_index dx))"
proof -
  have m: "mset (dx_index dx) = mset (lru_keys (dx_lru dx))"
    and d: "distinct (map (en_source \<circ> snd) (dx_lru dx))"
    using assms by (simp_all add: demux_inv_def)
  show l: "length (dx_index dx) = length (dx_lru dx)"
    using arg_cong [OF m, of size] by (simp add: lru_keys_def)
  then show "dx_index dx = [] \<longleftrightarrow> dx_lru dx = []" by (metis length_0_conv)
  show "set (dx_index dx) = set (lru_keys (dx_lru dx))" using m by (rule mset_eq_setD)
  have "mset (map fst (dx_index dx)) = mset (map (en_source \<circ> snd) (dx_lru dx))"
    using arg_cong [OF m, of "image_mset fst"] by (simp add: lru_keys_def multiset.map_comp comp_def)
  then show "distinct (map fst (dx_index dx))" using d mset_eq_imp_distinct_iff by blast
qed

text \<open>What a lookup in the index finds: the node of the entry with that source, if there is one.\<close>

lemma index_find_lru:
  assumes "demux_inv dx"
  shows "index_find e dx = Some it \<longleftrightarrow> (\<exists>en. (it, en) \<in> set (dx_lru dx) \<and> en_source en = e)"
proof -
  have "index_find e dx = Some it \<longleftrightarrow> (e, it) \<in> set (lru_keys (dx_lru dx))"
    using demux_invD(3,4) [OF assms] by (simp add: index_find_def)
  then show ?thesis by (force simp: lru_keys_def)
qed

lemma index_find_none:
  assumes "demux_inv dx"
  shows "index_find e dx = None \<longleftrightarrow> e \<notin> en_source ` snd ` set (dx_lru dx)"
proof -
  have "index_find e dx = None \<longleftrightarrow> (\<forall>it. index_find e dx \<noteq> Some it)" by (cases "index_find e dx") auto
  then show ?thesis by (force simp: index_find_lru [OF assms])
qed

lemma lru_find:
  assumes "demux_inv dx" and "(it, en) \<in> set (dx_lru dx)"
  shows "map_of (dx_lru dx) it = Some en" and "index_find (en_source en) dx = Some it"
  using assms index_find_lru [OF assms(1)] by (auto simp: demux_inv_def)

lemma lru_same:
  assumes "demux_inv dx" and "(it, en) \<in> set (dx_lru dx)" and "p \<in> set (dx_lru dx)"
    and "fst p = it \<or> en_source (snd p) = en_source en \<or> en_mailbox (snd p) = en_mailbox en"
  shows "p = (it, en)"
proof -
  have inj: "inj_on fst (set (dx_lru dx))" "inj_on (en_source \<circ> snd) (set (dx_lru dx))"
    "inj_on (en_mailbox \<circ> snd) (set (dx_lru dx))"
    using assms(1) by (simp_all add: demux_inv_def distinct_map)
  from assms(4) show ?thesis
  proof (elim disjE)
    assume "fst p = it"
    then show ?thesis using inj_onD [OF inj(1) _ assms(3,2)] by simp
  next
    assume "en_source (snd p) = en_source en"
    then show ?thesis using inj_onD [OF inj(2) _ assms(3,2)] by simp
  next
    assume "en_mailbox (snd p) = en_mailbox en"
    then show ?thesis using inj_onD [OF inj(3) _ assms(3,2)] by simp
  qed
qed

lemma demux_inv_drop_mailbox:
  assumes "demux_inv dx"
  shows "demux_inv (drop_mailbox a dx)"
  using assms by (auto simp: demux_inv_def drop_mailbox_def)

lemma filter_keys:
  assumes "demux_inv dx" and "(it, en) \<in> set (dx_lru dx)"
  shows "mset (filter (\<lambda>p. fst p \<noteq> en_source en) (dx_index dx))
    = mset (lru_keys (filter (\<lambda>p. fst p \<noteq> it) (dx_lru dx)))"
proof -
  have "mset (filter (\<lambda>p. fst p \<noteq> en_source en) (dx_index dx))
      = mset (filter (\<lambda>p. fst p \<noteq> en_source en) (lru_keys (dx_lru dx)))"
    using assms(1) by (simp add: demux_inv_def)
  also have "filter (\<lambda>p. fst p \<noteq> en_source en) (lru_keys (dx_lru dx))
      = lru_keys (filter (\<lambda>p. en_source (snd p) \<noteq> en_source en) (dx_lru dx))"
    by (simp add: lru_keys_def filter_map comp_def)
  also have "filter (\<lambda>p. en_source (snd p) \<noteq> en_source en) (dx_lru dx) = filter (\<lambda>p. fst p \<noteq> it) (dx_lru dx)"
  proof (rule filter_cong [OF refl])
    fix p assume p: "p \<in> set (dx_lru dx)"
    show "(en_source (snd p) \<noteq> en_source en) = (fst p \<noteq> it)"
      using lru_same [OF assms p] by (metis fst_conv snd_conv)
  qed
  finally show ?thesis .
qed

text \<open>Eviction removes one entry, closes its mailbox and leaves everybody else's alone.\<close>

lemma evict_correct:
  assumes inv: "demux_inv dx" and it: "(it, en) \<in> set (dx_lru dx)"
  shows "demux_inv (evict it cause dx)" and "dx_lru (evict it cause dx) = filter (\<lambda>p. fst p \<noteq> it) (dx_lru dx)"
    and "a \<noteq> en_mailbox en \<Longrightarrow> dx_mailboxes (evict it cause dx) a = dx_mailboxes dx a"
    and "\<exists>p\<in>set (dx_conns dx). pc_mailbox (snd p) = en_mailbox en \<Longrightarrow>
      dx_mailboxes (evict it cause dx) (en_mailbox en) = map_option (mb_close cause) (dx_mailboxes dx (en_mailbox en))"
    and "dx_conns (evict it cause dx) = dx_conns dx" and "dx_next (evict it cause dx) = dx_next dx"
    and "dx_accepting (evict it cause dx) = dx_accepting dx" and "dx_open (evict it cause dx) = dx_open dx"
    and "dx_posted (evict it cause dx) = dx_posted dx" and "dx_loop (evict it cause dx) = dx_loop dx"
    and "dx_sweeping (evict it cause dx) = dx_sweeping dx"
proof -
  let ?dx1 = "dx\<lparr>dx_mailboxes := close_mailbox cause (en_mailbox en) (dx_mailboxes dx),
               dx_index := filter (\<lambda>p. fst p \<noteq> en_source en) (dx_index dx),
               dx_lru := filter (\<lambda>p. fst p \<noteq> it) (dx_lru dx)\<rparr>"
  have ev: "evict it cause dx = drop_mailbox (en_mailbox en) ?dx1"
    using lru_find(1) [OF inv it] by (simp add: evict_def)
  have other: "en_mailbox (snd p) \<noteq> en_mailbox en" if "p \<in> set (dx_lru dx)" "fst p \<noteq> it" for p
    using lru_same [OF inv it that(1)] that(2) by auto
  have "demux_inv ?dx1"
    using inv filter_keys [OF inv it] other
    by (auto simp: demux_inv_def close_mailbox_def distinct_map_filter)
  then show "demux_inv (evict it cause dx)" unfolding ev by (rule demux_inv_drop_mailbox)
  show "dx_lru (evict it cause dx) = filter (\<lambda>p. fst p \<noteq> it) (dx_lru dx)" by (simp add: ev)
  show "a \<noteq> en_mailbox en \<Longrightarrow> dx_mailboxes (evict it cause dx) a = dx_mailboxes dx a"
    by (simp add: ev drop_mailbox_def close_mailbox_def)
  show "\<exists>p\<in>set (dx_conns dx). pc_mailbox (snd p) = en_mailbox en \<Longrightarrow>
      dx_mailboxes (evict it cause dx) (en_mailbox en) = map_option (mb_close cause) (dx_mailboxes dx (en_mailbox en))"
    by (auto simp: ev drop_mailbox_def close_mailbox_def)
qed (simp_all add: evict_def drop_mailbox_def split: option.splits)

lemma make_room_correct:
  assumes inv: "demux_inv dx" and limit: "1 \<le> limit" "length (dx_lru dx) \<le> limit"
  shows "demux_inv (make_room limit dx)" and "length (dx_lru (make_room limit dx)) < limit"
    and "dx_lru (make_room limit dx) = (if length (dx_lru dx) = limit then butlast (dx_lru dx) else dx_lru dx)"
    and "dx_conns (make_room limit dx) = dx_conns dx" and "dx_next (make_room limit dx) = dx_next dx"
    and "dx_accepting (make_room limit dx) = dx_accepting dx" and "dx_open (make_room limit dx) = dx_open dx"
    and "dx_posted (make_room limit dx) = dx_posted dx" and "dx_loop (make_room limit dx) = dx_loop dx"
proof -
  have len: "length (dx_index dx) = length (dx_lru dx)" using demux_invD(1) [OF inv] .
  have all: "demux_inv (make_room limit dx) \<and> length (dx_lru (make_room limit dx)) < limit \<and>
      dx_lru (make_room limit dx) = (if length (dx_lru dx) = limit then butlast (dx_lru dx) else dx_lru dx) \<and>
      dx_conns (make_room limit dx) = dx_conns dx \<and> dx_next (make_room limit dx) = dx_next dx \<and>
      dx_accepting (make_room limit dx) = dx_accepting dx \<and> dx_open (make_room limit dx) = dx_open dx \<and>
      dx_posted (make_room limit dx) = dx_posted dx \<and> dx_loop (make_room limit dx) = dx_loop dx"
  proof (cases "length (dx_lru dx) = limit")
    case True
    then obtain l it en where l: "dx_lru dx = l @ [(it, en)]"
      using limit(1) by (cases "dx_lru dx" rule: rev_exhaust) auto
    have in_l: "(it, en) \<in> set (dx_lru dx)" by (simp add: l)
    have "it \<notin> fst ` set l" using inv by (auto simp: demux_inv_def l)
    then have "filter (\<lambda>p. fst p \<noteq> it) (dx_lru dx) = l" by (auto simp: l filter_id_conv)
    moreover have "make_room limit dx = evict it displaced dx"
      using True len by (simp add: make_room_def l)
    ultimately show ?thesis
      using evict_correct [OF inv in_l, where cause = displaced] True l by simp
  next
    case False
    then have "make_room limit dx = dx" using len limit(2) by (simp add: make_room_def)
    with False inv limit(2) show ?thesis by simp
  qed
  show "demux_inv (make_room limit dx)" "length (dx_lru (make_room limit dx)) < limit"
    "dx_lru (make_room limit dx) = (if length (dx_lru dx) = limit then butlast (dx_lru dx) else dx_lru dx)"
    "dx_conns (make_room limit dx) = dx_conns dx" "dx_next (make_room limit dx) = dx_next dx"
    "dx_accepting (make_room limit dx) = dx_accepting dx" "dx_open (make_room limit dx) = dx_open dx"
    "dx_posted (make_room limit dx) = dx_posted dx" "dx_loop (make_room limit dx) = dx_loop dx"
    using all by blast+
qed

lemma demux_inv_mailbox:
  assumes "demux_inv dx" and "dx_mailboxes dx a = Some mb" and "mb_ok mb'" and "mb_closed mb' = mb_closed mb"
  shows "demux_inv (dx\<lparr>dx_mailboxes := (dx_mailboxes dx)(a \<mapsto> mb')\<rparr>)"
proof -
  have "\<exists>m. ((dx_mailboxes dx)(a \<mapsto> mb')) (en_mailbox (snd p)) = Some m \<and> mb_ok m \<and> \<not> mb_closed m"
    if "p \<in> set (dx_lru dx)" for p
    using assms that by (cases "en_mailbox (snd p) = a") (fastforce simp: demux_inv_def)+
  moreover have "\<exists>m. ((dx_mailboxes dx)(a \<mapsto> mb')) (pc_mailbox (snd p)) = Some m \<and> mb_ok m"
    if "p \<in> set (dx_conns dx)" for p
    using assms that by (cases "pc_mailbox (snd p) = a") (fastforce simp: demux_inv_def)+
  ultimately show ?thesis using assms(1) unfolding demux_inv_def by simp
qed

lemma deliver_to_correct:
  assumes inv: "demux_inv dx" and mb: "dx_mailboxes dx a = Some mb" "mb_ok mb"
  shows "demux_inv (deliver_to granted d a dx)" and "dx_lru (deliver_to granted d a dx) = dx_lru dx"
    and "dx_conns (deliver_to granted d a dx) = dx_conns dx"
    and "dx_open (deliver_to granted d a dx) = dx_open dx"
    and "dx_accepting (deliver_to granted d a dx) = dx_accepting dx"
    and "dx_posted (deliver_to granted d a dx) = dx_posted dx"
    and "dx_mailboxes (deliver_to granted d a dx) a = Some (snd (snd (deliver granted d mb)))"
    and "b \<noteq> a \<Longrightarrow> dx_mailboxes (deliver_to granted d a dx) b = dx_mailboxes dx b"
proof -
  obtain fin gone mb' where run: "deliver granted d mb = (fin, gone, mb')" by (metis prod.exhaust)
  note c = deliver_correct [OF mb(2) run]
  have dl: "deliver_to granted d a dx
      = (if fin then dx\<lparr>dx_mailboxes := (dx_mailboxes dx)(a \<mapsto> mb')\<rparr> else dx\<lparr>dx_loop := Read_Over\<rparr>)"
    using mb(1) run by (simp add: deliver_to_def)
  have "demux_inv (dx\<lparr>dx_loop := Read_Over\<rparr>)" using inv by (simp add: demux_inv_def)
  then show "demux_inv (deliver_to granted d a dx)"
    using demux_inv_mailbox [OF inv mb(1) c(1,3)] by (simp add: dl)
  show "dx_mailboxes (deliver_to granted d a dx) a = Some (snd (snd (deliver granted d mb)))"
    using run mb(1) c(5) dl by (cases fin) auto
  show "dx_lru (deliver_to granted d a dx) = dx_lru dx" "dx_conns (deliver_to granted d a dx) = dx_conns dx"
    "dx_open (deliver_to granted d a dx) = dx_open dx"
    "dx_accepting (deliver_to granted d a dx) = dx_accepting dx"
    "dx_posted (deliver_to granted d a dx) = dx_posted dx"
    "b \<noteq> a \<Longrightarrow> dx_mailboxes (deliver_to granted d a dx) b = dx_mailboxes dx b"
    by (simp_all add: dl)
qed

text \<open>A datagram from a known source.\<close>

lemma lru_split:
  assumes inv: "demux_inv dx" and en: "(it, en) \<in> set (dx_lru dx)"
  obtains xs ys where "dx_lru dx = xs @ (it, en) # ys" and "filter (\<lambda>p. fst p \<noteq> it) (dx_lru dx) = xs @ ys"
proof -
  obtain xs ys where l: "dx_lru dx = xs @ (it, en) # ys" using en by (meson split_list)
  have "it \<notin> fst ` set (xs @ ys)" using inv by (auto simp: demux_inv_def l)
  then have "filter (\<lambda>p. fst p \<noteq> it) xs = xs" "filter (\<lambda>p. fst p \<noteq> it) ys = ys"
    by (auto intro!: filter_True)
  then have "filter (\<lambda>p. fst p \<noteq> it) (dx_lru dx) = xs @ ys" by (simp add: l)
  with l show ?thesis using that by blast
qed

lemma on_datagram_known:
  assumes inv: "demux_inv dx" and en: "(it, en) \<in> set (dx_lru dx)"
    and run: "dx' = on_datagram limit now a sent granted (en_source en) d dx"
  shows "demux_inv dx'" and "dx_conns dx' = dx_conns dx" and "dx_open dx' = dx_open dx"
    and "dx_accepting dx' = dx_accepting dx" and "dx_posted dx' = dx_posted dx"
    and "dx_lru dx' = (it, en\<lparr>en_last_active := now\<rparr>) # filter (\<lambda>p. fst p \<noteq> it) (dx_lru dx)"
    and "\<exists>mb. dx_mailboxes dx (en_mailbox en) = Some mb \<and> \<not> mb_closed mb \<and> mb_ok mb \<and>
      dx_mailboxes dx' (en_mailbox en) = Some (snd (snd (deliver granted d mb)))"
    and "b \<noteq> en_mailbox en \<Longrightarrow> dx_mailboxes dx' b = dx_mailboxes dx b"
proof -
  let ?dx1 = "dx\<lparr>dx_lru := (it, en\<lparr>en_last_active := now\<rparr>) # filter (\<lambda>p. fst p \<noteq> it) (dx_lru dx)\<rparr>"
  obtain mb where mb: "dx_mailboxes dx (en_mailbox en) = Some mb" "mb_ok mb" "\<not> mb_closed mb"
    using inv en by (force simp: demux_inv_def)
  have dx': "dx' = deliver_to granted d (en_mailbox en) ?dx1"
    using lru_find [OF inv en] by (simp add: run on_datagram_def)
  obtain xs ys where l: "dx_lru dx = xs @ (it, en) # ys" "filter (\<lambda>p. fst p \<noteq> it) (dx_lru dx) = xs @ ys"
    using inv en by (rule lru_split)
  have i1: "demux_inv ?dx1"
    using inv unfolding demux_inv_def l(2) by (simp add: l(1) lru_keys_def ball_Un)
  have mb1: "dx_mailboxes ?dx1 (en_mailbox en) = Some mb" using mb(1) by simp
  note c = deliver_to_correct [OF i1 mb1 mb(2), where granted = granted and d = d]
  show "demux_inv dx'" "dx_conns dx' = dx_conns dx" "dx_open dx' = dx_open dx"
    "dx_accepting dx' = dx_accepting dx" "dx_posted dx' = dx_posted dx"
    "dx_lru dx' = (it, en\<lparr>en_last_active := now\<rparr>) # filter (\<lambda>p. fst p \<noteq> it) (dx_lru dx)"
    using c(1-6) by (simp_all add: dx')
  show "\<exists>mb. dx_mailboxes dx (en_mailbox en) = Some mb \<and> \<not> mb_closed mb \<and> mb_ok mb \<and>
      dx_mailboxes dx' (en_mailbox en) = Some (snd (snd (deliver granted d mb)))"
    using mb c(7) dx' by blast
  show "b \<noteq> en_mailbox en \<Longrightarrow> dx_mailboxes dx' b = dx_mailboxes dx b"
    using c(8) by (simp add: dx')
qed

text \<open>A datagram from a new source, while the listener accepts.\<close>

lemma on_datagram_new:
  assumes inv: "demux_inv dx" and acc: "dx_accepting dx"
    and new: "sender \<notin> en_source ` snd ` set (dx_lru dx)"
    and limit: "1 \<le> limit" "length (dx_lru dx) \<le> limit"
    and fresh: "dx_mailboxes (make_room limit dx) a = None"
    and run: "dx' = on_datagram limit now a sent granted sender d dx"
  shows "demux_inv dx'" and "dx_open dx' = dx_open dx" and "dx_accepting dx'"
    and "dx_lru dx' = (dx_next dx, \<lparr>en_source = sender, en_mailbox = a, en_last_active = now\<rparr>) #
      (if length (dx_lru dx) = limit then butlast (dx_lru dx) else dx_lru dx)"
    and "length (dx_lru dx') \<le> limit"
    and "b \<noteq> a \<Longrightarrow> dx_mailboxes dx' b = dx_mailboxes (make_room limit dx) b"
    and "sent \<Longrightarrow> dx_mailboxes dx' a
      = Some (snd (snd (deliver granted d (make_mailbox default_mailbox_capacity))))"
    and "sent \<Longrightarrow> dx_conns dx' = (dx_next dx, \<lparr>pc_remote = sender, pc_mailbox = a, pc_state = ESTABLISHING,
      pc_aborted = False, pc_released = False\<rparr>) # dx_conns dx \<and> dx_posted dx' = dx_posted dx"
    and "\<not> sent \<Longrightarrow> dx_conns dx' = dx_conns dx \<and> dx_posted dx' = dx_posted dx @ [Release sender a]"
proof -
  define dx1 where "dx1 = make_room limit dx"
  note r = make_room_correct [OF inv limit, folded dx1_def]
  define en where "en = \<lparr>en_source = sender, en_mailbox = a, en_last_active = now\<rparr>"
  define conn where "conn = \<lparr>pc_remote = sender, pc_mailbox = a, pc_state = ESTABLISHING, pc_aborted = False,
      pc_released = False\<rparr>"
  define dx2 where "dx2 = dx1\<lparr>dx_mailboxes := (dx_mailboxes dx1)(a \<mapsto> make_mailbox default_mailbox_capacity),
      dx_lru := (dx_next dx1, en) # dx_lru dx1, dx_index := (sender, dx_next dx1) # dx_index dx1,
      dx_next := dx_next dx1 + 1\<rparr>"
  have none: "index_find sender dx = None" using new index_find_none [OF inv] by blast
  define dx3 where "dx3 = dx2\<lparr>dx_conns := (dx_next dx1, conn) # dx_conns dx2\<rparr>"
  define dx4 where "dx4 = dx2\<lparr>dx_posted := dx_posted dx2 @ [Release sender a]\<rparr>"
  have dx': "dx' = (if sent then deliver_to granted d a dx3 else dx4)"
    using none acc
    by (simp add: run on_datagram_def dx4_def dx3_def dx2_def dx1_def en_def conn_def Let_def)
  have f3: "dx_lru dx3 = (dx_next dx, en) # dx_lru dx1" "dx_conns dx3 = (dx_next dx, conn) # dx_conns dx"
    "dx_open dx3 = dx_open dx" "dx_accepting dx3 = dx_accepting dx" "dx_posted dx3 = dx_posted dx"
    "dx_mailboxes dx3 = (dx_mailboxes dx1)(a \<mapsto> make_mailbox default_mailbox_capacity)"
    using r(4-8) by (simp_all add: dx3_def dx2_def)
  have f4: "dx_lru dx4 = (dx_next dx, en) # dx_lru dx1" "dx_conns dx4 = dx_conns dx"
    "dx_open dx4 = dx_open dx" "dx_accepting dx4 = dx_accepting dx"
    "dx_posted dx4 = dx_posted dx @ [Release sender a]"
    "dx_mailboxes dx4 = (dx_mailboxes dx1)(a \<mapsto> make_mailbox default_mailbox_capacity)"
    using r(4-8) by (simp_all add: dx4_def dx2_def)
  have sub: "set (dx_lru dx1) \<subseteq> set (dx_lru dx)" using r(3) by (auto dest: in_set_butlastD)
  have "sender \<notin> en_source ` snd ` set (dx_lru dx1)" using new sub by blast
  moreover have "en_mailbox (snd p) \<noteq> a" if "p \<in> set (dx_lru dx1)" for p
    using r(1) fresh that unfolding dx1_def [symmetric] by (force simp: demux_inv_def)
  moreover have "pc_mailbox (snd p) \<noteq> a" if "p \<in> set (dx_conns dx1)" for p
    using r(1) fresh that unfolding dx1_def [symmetric] by (force simp: demux_inv_def)
  ultimately have i2: "demux_inv dx2"
    using r(1) by (auto simp: demux_inv_def dx2_def en_def image_iff less_Suc_eq)
  have i3: "demux_inv dx3"
    using i2 r(1) by (auto simp: demux_inv_def dx3_def dx2_def conn_def less_Suc_eq)
  have i4: "demux_inv dx4"
    using i2 by (simp add: demux_inv_def dx4_def)
  have mb: "dx_mailboxes dx3 a = Some (make_mailbox default_mailbox_capacity)"
    by (simp add: f3)
  note c = deliver_to_correct [OF i3 mb mb_ok_make(1), where granted = granted and d = d]
  show "demux_inv dx'" using c(1) i4 by (simp add: dx')
  have "dx_lru dx' = (dx_next dx, en) # dx_lru dx1"
    using c(2) f3(1) f4(1) by (simp add: dx')
  then show l: "dx_lru dx' = (dx_next dx, \<lparr>en_source = sender, en_mailbox = a, en_last_active = now\<rparr>) #
      (if length (dx_lru dx) = limit then butlast (dx_lru dx) else dx_lru dx)"
    using r(3) by (simp add: en_def)
  show "length (dx_lru dx') \<le> limit" using r(2,3) by (simp add: l split: if_splits)
  show "dx_open dx' = dx_open dx" "dx_accepting dx'"
    using c(4,5) f3 f4 acc by (simp_all add: dx')
  show "b \<noteq> a \<Longrightarrow> dx_mailboxes dx' b = dx_mailboxes (make_room limit dx) b"
    using c(8) f3(6) f4(6) by (simp add: dx' dx1_def)
  show "sent \<Longrightarrow> dx_mailboxes dx' a
      = Some (snd (snd (deliver granted d (make_mailbox default_mailbox_capacity))))"
    using c(7) by (simp add: dx')
  show "sent \<Longrightarrow> dx_conns dx' = (dx_next dx, \<lparr>pc_remote = sender, pc_mailbox = a, pc_state = ESTABLISHING,
      pc_aborted = False, pc_released = False\<rparr>) # dx_conns dx \<and> dx_posted dx' = dx_posted dx"
    using c(3,6) f3 by (simp add: dx' conn_def)
  show "\<not> sent \<Longrightarrow> dx_conns dx' = dx_conns dx \<and> dx_posted dx' = dx_posted dx @ [Release sender a]"
    using f4 by (simp add: dx')
qed

section \<open>The idle sweep\<close>

definition by_activity :: "(nat \<times> 'e entry) list \<Rightarrow> bool" where
  "by_activity l \<longleftrightarrow> sorted_wrt (\<lambda>p q. en_last_active (snd q) \<le> en_last_active (snd p)) l"

definition fresh_entry :: "int \<Rightarrow> nat \<times> 'e entry \<Rightarrow> bool" where
  "fresh_entry cutoff p \<longleftrightarrow> cutoff \<le> en_last_active (snd p)"

lemma by_activity_simps [simp]:
  "by_activity []"
  "by_activity (p # l) \<longleftrightarrow> (\<forall>q\<in>set l. en_last_active (snd q) \<le> en_last_active (snd p)) \<and> by_activity l"
  by (simp_all add: by_activity_def)

lemma by_activity_snoc:
  "by_activity (l @ [p]) \<longleftrightarrow> (\<forall>q\<in>set l. en_last_active (snd p) \<le> en_last_active (snd q)) \<and> by_activity l"
  by (auto simp: by_activity_def sorted_wrt_append)

lemma by_activity_filter: "by_activity l \<Longrightarrow> by_activity (filter P l)"
  by (simp add: by_activity_def sorted_wrt_filter)

text \<open>Since the list is kept by activity, looking at its end only finds every idle source.\<close>

lemma sweep_evict_correct:
  assumes "demux_inv dx" and "by_activity (dx_lru dx)"
  shows "demux_inv (sweep_evict cutoff dx) \<and>
    dx_lru (sweep_evict cutoff dx) = filter (fresh_entry cutoff) (dx_lru dx) \<and>
    dx_conns (sweep_evict cutoff dx) = dx_conns dx \<and> dx_accepting (sweep_evict cutoff dx) = dx_accepting dx \<and>
    dx_open (sweep_evict cutoff dx) = dx_open dx \<and> dx_loop (sweep_evict cutoff dx) = dx_loop dx \<and>
    dx_sweeping (sweep_evict cutoff dx) = dx_sweeping dx \<and>
    (\<forall>a. if \<exists>p\<in>set (dx_lru dx). en_mailbox (snd p) = a \<and> \<not> fresh_entry cutoff p
         then (\<exists>p\<in>set (dx_conns dx). pc_mailbox (snd p) = a) \<longrightarrow>
           dx_mailboxes (sweep_evict cutoff dx) a = map_option (mb_close idle) (dx_mailboxes dx a)
         else dx_mailboxes (sweep_evict cutoff dx) a = dx_mailboxes dx a)"
  using assms
proof (induction cutoff dx rule: sweep_evict.induct)
  case (1 cutoff dx)
  show ?case
  proof (cases "dx_lru dx \<noteq> [] \<and> en_last_active (snd (last (dx_lru dx))) < cutoff")
    case True
    then obtain l it en where l: "dx_lru dx = l @ [(it, en)]"
      by (cases "dx_lru dx" rule: rev_exhaust) auto
    have idle_en: "\<not> fresh_entry cutoff (it, en)" using True by (simp add: l fresh_entry_def)
    have in_l: "(it, en) \<in> set (dx_lru dx)" by (simp add: l)
    define dx1 where "dx1 = evict it idle dx"
    have step: "sweep_evict cutoff dx = sweep_evict cutoff dx1"
      using True by (subst sweep_evict.simps) (simp add: l dx1_def)
    have "it \<notin> fst ` set l" using "1.prems"(1) by (auto simp: demux_inv_def l)
    then have lru1: "dx_lru dx1 = l"
      using evict_correct(2) [OF "1.prems"(1) in_l, of idle] by (auto simp: dx1_def l filter_id_conv)
    note e = evict_correct [OF "1.prems"(1) in_l, where cause = idle, folded dx1_def]
    have last_dx: "evict (fst (last (dx_lru dx))) idle dx = dx1" by (simp add: l dx1_def)
    have notin: "en_mailbox (snd p) \<noteq> en_mailbox en" if "p \<in> set l" for p
      using lru_same [OF "1.prems"(1) in_l, of p] that \<open>it \<notin> fst ` set l\<close> by (force simp: l)
    have IH: "demux_inv (sweep_evict cutoff dx1) \<and>
      dx_lru (sweep_evict cutoff dx1) = filter (fresh_entry cutoff) (dx_lru dx1) \<and>
      dx_conns (sweep_evict cutoff dx1) = dx_conns dx1 \<and> dx_accepting (sweep_evict cutoff dx1) = dx_accepting dx1 \<and>
      dx_open (sweep_evict cutoff dx1) = dx_open dx1 \<and> dx_loop (sweep_evict cutoff dx1) = dx_loop dx1 \<and>
      dx_sweeping (sweep_evict cutoff dx1) = dx_sweeping dx1 \<and>
      (\<forall>a. if \<exists>p\<in>set (dx_lru dx1). en_mailbox (snd p) = a \<and> \<not> fresh_entry cutoff p
         then (\<exists>p\<in>set (dx_conns dx1). pc_mailbox (snd p) = a) \<longrightarrow>
           dx_mailboxes (sweep_evict cutoff dx1) a = map_option (mb_close idle) (dx_mailboxes dx1 a)
         else dx_mailboxes (sweep_evict cutoff dx1) a = dx_mailboxes dx1 a)"
    proof (rule "1.IH" [OF True, unfolded last_dx])
      show "by_activity (dx_lru dx1)" using "1.prems"(2) by (simp add: l lru1 by_activity_snoc)
    qed (rule e(1))
    have "if \<exists>p\<in>set (dx_lru dx). en_mailbox (snd p) = a \<and> \<not> fresh_entry cutoff p
         then (\<exists>p\<in>set (dx_conns dx). pc_mailbox (snd p) = a) \<longrightarrow>
           dx_mailboxes (sweep_evict cutoff dx1) a = map_option (mb_close idle) (dx_mailboxes dx a)
         else dx_mailboxes (sweep_evict cutoff dx1) a = dx_mailboxes dx a" for a
    proof (cases "a = en_mailbox en")
      case True
      then have "dx_mailboxes (sweep_evict cutoff dx1) a = dx_mailboxes dx1 a"
        using IH notin lru1 by metis
      then show ?thesis using True idle_en e(4) by (auto simp: l)
    next
      case False
      then show ?thesis using IH e(3,5) lru1 by (simp add: l)
    qed
    then show ?thesis
      using IH e(5-11) lru1 idle_en unfolding step by (simp add: l)
  next
    case False
    then have "sweep_evict cutoff dx = dx" by (subst sweep_evict.simps) (rule if_not_P)
    moreover have fresh: "fresh_entry cutoff p" if "p \<in> set (dx_lru dx)" for p
    proof -
      obtain l q where l: "dx_lru dx = l @ [q]" using \<open>p \<in> set (dx_lru dx)\<close> by (cases "dx_lru dx" rule: rev_exhaust) auto
      then have "en_last_active (snd q) \<le> en_last_active (snd p)"
        using that "1.prems"(2) by (auto simp: by_activity_snoc)
      then show ?thesis using False by (simp add: l fresh_entry_def)
    qed
    ultimately show ?thesis using "1.prems"(1) by (auto simp: filter_id_conv)
  qed
qed

section \<open>Handlers and connections\<close>

lemma demux_inv_upd_conn:
  assumes "demux_inv dx" and "\<And>pc. pc_mailbox (f pc) = pc_mailbox pc"
  shows "demux_inv (upd_conn c f dx)"
proof -
  define C where "C = map (\<lambda>p. if fst p = c then (c, f (snd p)) else p) (dx_conns dx)"
  have "map fst C = map fst (dx_conns dx)"
    by (auto simp: C_def)
  moreover have "\<exists>q\<in>set (dx_conns dx). pc_mailbox (snd p) = pc_mailbox (snd q) \<and> fst p = fst q"
    if "p \<in> set C" for p
    using that assms(2) by (auto simp: C_def split: if_splits) force+
  then have "(\<forall>p\<in>set C. fst p < dx_next dx) \<and>
      (\<forall>p\<in>set C. \<exists>mb. dx_mailboxes dx (pc_mailbox (snd p)) = Some mb \<and> mb_ok mb)"
    using assms(1) unfolding demux_inv_def by metis
  moreover have "upd_conn c f dx = dx\<lparr>dx_conns := C\<rparr>" by (simp add: upd_conn_def C_def)
  ultimately show ?thesis using assms(1) unfolding demux_inv_def by simp
qed

lemma upd_conn_simps [simp]:
  "dx_lru (upd_conn c f dx) = dx_lru dx" "dx_open (upd_conn c f dx) = dx_open dx"
  "dx_accepting (upd_conn c f dx) = dx_accepting dx" "dx_loop (upd_conn c f dx) = dx_loop dx"
  "dx_sweeping (upd_conn c f dx) = dx_sweeping dx" "dx_mailboxes (upd_conn c f dx) = dx_mailboxes dx"
  "dx_posted (upd_conn c f dx) = dx_posted dx" "dx_index (upd_conn c f dx) = dx_index dx"
  by (simp_all add: upd_conn_def)

lemma shut_down_simps [simp]:
  "demux_inv (shut_down_if_unused dx) = demux_inv dx" "dx_lru (shut_down_if_unused dx) = dx_lru dx"
  "dx_mailboxes (shut_down_if_unused dx) = dx_mailboxes dx" "dx_conns (shut_down_if_unused dx) = dx_conns dx"
  "dx_accepting (shut_down_if_unused dx) = dx_accepting dx" "dx_posted (shut_down_if_unused dx) = dx_posted dx"
  "dx_index (shut_down_if_unused dx) = dx_index dx" "dx_next (shut_down_if_unused dx) = dx_next dx"
  "dx_fault (shut_down_if_unused dx) = dx_fault dx"
  by (simp_all add: shut_down_if_unused_def close_socket_def cancel_timer_def demux_inv_def)

lemma demux_inv_coroutines [simp]:
  "demux_inv (dx\<lparr>dx_loop := st\<rparr>) = demux_inv dx" "demux_inv (dx\<lparr>dx_sweeping := ti\<rparr>) = demux_inv dx"
  "demux_inv (begin_read dx) = demux_inv dx" "dx_lru (begin_read dx) = dx_lru dx"
  by (simp_all add: demux_inv_def begin_read_def)

text \<open>The part of the state that the lifetime of the socket depends on.\<close>

definition life_ok :: "('e, 'd) demux \<Rightarrow> bool" where
  "life_ok dx \<longleftrightarrow>
    (dx_loop dx = Read_Pending \<longrightarrow> dx_open dx) \<and> (\<not> dx_open dx \<longrightarrow> \<not> dx_accepting dx \<and> dx_lru dx = [])"

lemma life_ok_timer [simp]: "life_ok (dx\<lparr>dx_sweeping := ti\<rparr>) = life_ok dx"
  by (simp add: life_ok_def)

lemma life_ok_shut_down:
  "demux_inv dx \<Longrightarrow> life_ok dx \<Longrightarrow> life_ok (shut_down_if_unused dx)"
  using demux_invD(2) [of dx] by (auto simp: life_ok_def shut_down_if_unused_def close_socket_def cancel_timer_def)

lemma exec_release_correct:
  assumes inv: "demux_inv dx" and life: "life_ok dx" and run: "dx' = exec_task (Release source a) dx"
  shows "demux_inv dx'" and "life_ok dx'" and "dx_conns dx' = dx_conns dx" and "dx_posted dx' = dx_posted dx"
    and "dx_lru dx' = filter (\<lambda>p. \<not> (en_source (snd p) = source \<and> en_mailbox (snd p) = a)) (dx_lru dx)"
    and "b \<noteq> a \<Longrightarrow> dx_mailboxes dx' b = dx_mailboxes dx b"
    and "dx_accepting dx' = dx_accepting dx"
    and "\<not> dx_accepting dx \<Longrightarrow> dx_lru dx' = [] \<Longrightarrow> \<not> dx_open dx'"
proof -
  define dx1 where "dx1 = (case index_find source dx of None \<Rightarrow> dx
      | Some it \<Rightarrow> (case map_of (dx_lru dx) it of None \<Rightarrow> dx\<lparr>dx_fault := True\<rparr>
          | Some e \<Rightarrow> if en_mailbox e = a then evict it owner dx else dx))"
  have dx': "dx' = shut_down_if_unused dx1" by (simp add: run dx1_def)
  have one: "demux_inv dx1 \<and> life_ok dx1 \<and> dx_conns dx1 = dx_conns dx \<and> dx_posted dx1 = dx_posted dx \<and>
    dx_lru dx1 = filter (\<lambda>p. \<not> (en_source (snd p) = source \<and> en_mailbox (snd p) = a)) (dx_lru dx) \<and>
    (b \<noteq> a \<longrightarrow> dx_mailboxes dx1 b = dx_mailboxes dx b) \<and> dx_accepting dx1 = dx_accepting dx" for b
  proof (cases "\<exists>it en. (it, en) \<in> set (dx_lru dx) \<and> en_source en = source \<and> en_mailbox en = a")
    case True
    then obtain it en where en: "(it, en) \<in> set (dx_lru dx)" "en_source en = source" "en_mailbox en = a"
      by blast
    have d1: "dx1 = evict it owner dx"
      using lru_find [OF inv en(1)] en(2,3) by (simp add: dx1_def)
    have "filter (\<lambda>p. fst p \<noteq> it) (dx_lru dx)
        = filter (\<lambda>p. \<not> (en_source (snd p) = source \<and> en_mailbox (snd p) = a)) (dx_lru dx)"
    proof (rule filter_cong [OF refl])
      fix p assume p: "p \<in> set (dx_lru dx)"
      show "(fst p \<noteq> it) = (\<not> (en_source (snd p) = source \<and> en_mailbox (snd p) = a))"
        using lru_same [OF inv en(1) p] en(2,3) by (metis fst_conv snd_conv)
    qed
    then show ?thesis
      using evict_correct [OF inv en(1), where cause = owner] en(3) life by (simp add: d1 life_ok_def)
  next
    case False
    have "dx1 = dx"
    proof (cases "index_find source dx")
      case (Some it)
      then obtain en where "(it, en) \<in> set (dx_lru dx)" "en_source en = source"
        using index_find_lru [OF inv] by blast
      then show ?thesis using False lru_find [OF inv] Some by (auto simp: dx1_def)
    qed (simp add: dx1_def)
    moreover have "filter (\<lambda>p. \<not> (en_source (snd p) = source \<and> en_mailbox (snd p) = a)) (dx_lru dx) = dx_lru dx"
    proof (rule filter_True, rule ballI)
      fix p assume "p \<in> set (dx_lru dx)"
      then show "\<not> (en_source (snd p) = source \<and> en_mailbox (snd p) = a)" using False by (metis prod.collapse)
    qed
    ultimately show ?thesis using inv life by simp
  qed
  have l1: "life_ok (shut_down_if_unused dx1)" using one life_ok_shut_down by blast
  show "demux_inv dx'" "life_ok dx'" "dx_conns dx' = dx_conns dx" "dx_posted dx' = dx_posted dx"
    "dx_lru dx' = filter (\<lambda>p. \<not> (en_source (snd p) = source \<and> en_mailbox (snd p) = a)) (dx_lru dx)"
    "b \<noteq> a \<Longrightarrow> dx_mailboxes dx' b = dx_mailboxes dx b" "dx_accepting dx' = dx_accepting dx"
    using one l1 by (simp_all add: dx')
  show "\<not> dx_open dx'" if "\<not> dx_accepting dx" "dx_lru dx' = []"
  proof -
    have "dx_index dx1 = []" using that(2) demux_invD(2) [of dx1] one by (simp add: dx')
    then show ?thesis using that(1) one by (simp add: dx' shut_down_if_unused_def close_socket_def cancel_timer_def)
  qed
qed

lemma exec_stop_correct:
  assumes "demux_inv dx" and "life_ok dx"
  shows "demux_inv (exec_task Stop dx)" and "life_ok (exec_task Stop dx)"
    and "dx_lru (exec_task Stop dx) = dx_lru dx" and "dx_conns (exec_task Stop dx) = dx_conns dx"
    and "dx_lru dx = [] \<Longrightarrow> \<not> dx_open (exec_task Stop dx)"
proof -
  let ?dx = "dx\<lparr>dx_accepting := False\<rparr>"
  have i: "demux_inv ?dx" "life_ok ?dx" using assms by (simp_all add: demux_inv_def life_ok_def)
  show "demux_inv (exec_task Stop dx)" "dx_lru (exec_task Stop dx) = dx_lru dx"
    "dx_conns (exec_task Stop dx) = dx_conns dx"
    using i by simp_all
  show "life_ok (exec_task Stop dx)" using life_ok_shut_down [OF i] by simp
  show "dx_lru dx = [] \<Longrightarrow> \<not> dx_open (exec_task Stop dx)"
    using demux_invD(2) [OF assms(1)] by (simp add: shut_down_if_unused_def close_socket_def cancel_timer_def)
qed

lemma passive_release_correct:
  assumes "demux_inv dx"
  shows "demux_inv (passive_release c dx)" and "dx_lru (passive_release c dx) = dx_lru dx"
    and "dx_mailboxes (passive_release c dx) = dx_mailboxes dx"
    and "life_ok (passive_release c dx) = life_ok dx"
proof -
  have "demux_inv (upd_conn c (\<lambda>pc. pc\<lparr>pc_released := True\<rparr>) dx)"
    using assms by (rule demux_inv_upd_conn) simp
  then show "demux_inv (passive_release c dx)"
    using assms by (simp add: passive_release_def demux_release_def demux_inv_def split: option.splits)
qed (simp_all add: passive_release_def demux_release_def life_ok_def split: option.splits)

lemma life_ok_upd_conn [simp]: "life_ok (upd_conn c f dx) = life_ok dx"
  by (simp add: life_ok_def)

lemma passive_close_correct:
  assumes "demux_inv dx"
  shows "demux_inv (passive_close c dx)" "dx_lru (passive_close c dx) = dx_lru dx"
    "life_ok (passive_close c dx) = life_ok dx"
    "demux_inv (passive_abort c dx)" "dx_lru (passive_abort c dx) = dx_lru dx"
    "life_ok (passive_abort c dx) = life_ok dx"
proof -
  have i: "demux_inv (upd_conn c (\<lambda>pc. pc\<lparr>pc_state := CLOSED\<rparr>) dx)" if "demux_inv dx" for dx :: "('a, 'b) demux"
    using that by (rule demux_inv_upd_conn) simp
  have j: "demux_inv (upd_conn c (\<lambda>pc. pc\<lparr>pc_aborted := True\<rparr>) dx)"
    using assms by (rule demux_inv_upd_conn) simp
  show "demux_inv (passive_close c dx)" "dx_lru (passive_close c dx) = dx_lru dx"
    "life_ok (passive_close c dx) = life_ok dx"
    using passive_release_correct [OF i [OF assms]] by (simp_all add: passive_close_def)
  show "demux_inv (passive_abort c dx)" "dx_lru (passive_abort c dx) = dx_lru dx"
    "life_ok (passive_abort c dx) = life_ok dx"
    using passive_release_correct [OF i [OF j]] by (simp_all add: passive_abort_def passive_close_def)
qed

lemma passive_destroy_correct:
  assumes "demux_inv dx"
  shows "demux_inv (passive_destroy c dx)" and "dx_lru (passive_destroy c dx) = dx_lru dx"
    and "life_ok (passive_destroy c dx) = life_ok dx"
proof -
  let ?f = "\<lambda>dx :: ('a, 'b) demux. dx\<lparr>dx_conns := filter (\<lambda>p. fst p \<noteq> c) (dx_conns dx)\<rparr>"
  have "demux_inv (?f (passive_release c dx))"
    using passive_release_correct(1) [OF assms] by (simp add: demux_inv_def distinct_map_filter)
  then show "demux_inv (passive_destroy c dx)"
    using assms by (simp add: passive_destroy_def Let_def demux_inv_drop_mailbox split: option.splits)
  have "life_ok (drop_mailbox a dx) = life_ok dx" for a and dx :: "('a, 'b) demux"
    by (simp add: drop_mailbox_def life_ok_def)
  moreover have "life_ok (?f dx) = life_ok dx" for dx
    by (simp add: life_ok_def)
  ultimately show "life_ok (passive_destroy c dx) = life_ok dx"
    using passive_release_correct(4) [OF assms] by (simp add: passive_destroy_def Let_def split: option.splits)
  show "dx_lru (passive_destroy c dx) = dx_lru dx"
    using passive_release_correct(2) [OF assms] by (simp add: passive_destroy_def Let_def split: option.splits)
qed

lemma passive_receive_correct:
  assumes inv: "demux_inv dx" and c: "map_of (dx_conns dx) c = Some pc"
  shows "demux_inv (snd (passive_receive r c dx))" and "dx_lru (snd (passive_receive r c dx)) = dx_lru dx"
    and "life_ok (snd (passive_receive r c dx)) = life_ok dx"
proof -
  have "(c, pc) \<in> set (dx_conns dx)" using c by (rule map_of_SomeD)
  then obtain mb where mb: "dx_mailboxes dx (pc_mailbox pc) = Some mb" "mb_ok mb"
    using inv by (force simp: demux_inv_def)
  obtain res mb' where look: "receive_look r mb = (res, mb')" by fastforce
  note t = try_pop_correct [OF mb(2)]
  have mb': "mb_ok mb'" "mb_closed mb' = mb_closed mb"
    using look t(1,3) by (auto simp: receive_look_def mb_wait_def split: prod.splits option.splits if_splits)
  let ?dx1 = "dx\<lparr>dx_mailboxes := (dx_mailboxes dx)(pc_mailbox pc \<mapsto> mb')\<rparr>"
  have i: "demux_inv ?dx1" using demux_inv_mailbox [OF inv mb(1) mb'] .
  have "demux_inv (upd_conn c (\<lambda>pc. pc\<lparr>pc_state := CLOSED\<rparr>) ?dx1)"
    using i by (rule demux_inv_upd_conn) simp
  with i show "demux_inv (snd (passive_receive r c dx))"
    using c mb look by (simp add: passive_receive_def Let_def split: look.splits)
  show "dx_lru (snd (passive_receive r c dx)) = dx_lru dx"
    using c mb look by (simp add: passive_receive_def Let_def split: look.splits)
  show "life_ok (snd (passive_receive r c dx)) = life_ok dx"
    using c mb look by (simp add: passive_receive_def Let_def life_ok_def split: look.splits)
qed

section \<open>Runs\<close>

text \<open>
  The turns of the receive loop that handle no datagram: it starts a read, or ends because acquiring a block
  threw; it drops a datagram that was read into the sink, or ends because making its chain threw; it goes on
  after an error, and ends when its read was cancelled.
\<close>

inductive loop_step :: "('e, 'd) demux \<Rightarrow> ('e, 'd) demux \<Rightarrow> bool" where
  loop_reads: "dx_loop dx = Read_Next \<Longrightarrow> loop_step dx (begin_read dx)"
| loop_no_block: "dx_loop dx = Read_Next \<Longrightarrow> loop_step dx (dx\<lparr>dx_loop := Read_Over\<rparr>)"
| loop_drops: "dx_loop dx = Read_Done \<Longrightarrow> loop_step dx (dx\<lparr>dx_loop := Read_Next\<rparr>)"
| loop_no_chain: "dx_loop dx = Read_Done \<Longrightarrow> loop_step dx (dx\<lparr>dx_loop := Read_Over\<rparr>)"
| loop_retries: "dx_loop dx = Read_Failed \<Longrightarrow> loop_step dx (dx\<lparr>dx_loop := Read_Next\<rparr>)"
| loop_ends: "dx_loop dx = Read_Cancelled \<Longrightarrow> loop_step dx (dx\<lparr>dx_loop := Read_Over\<rparr>)"

text \<open>What the system does: a read completes, the timer expires. A cancelled wait ends \<open>sweep_loop()\<close>.\<close>

inductive event_step :: "('e, 'd) demux \<Rightarrow> ('e, 'd) demux \<Rightarrow> bool" where
  event_datagram: "dx_loop dx = Read_Pending \<Longrightarrow> event_step dx (dx\<lparr>dx_loop := Read_Done\<rparr>)"
| event_error: "dx_loop dx = Read_Pending \<Longrightarrow> event_step dx (dx\<lparr>dx_loop := Read_Failed\<rparr>)"
| event_expired: "dx_sweeping dx = Timer_Pending \<Longrightarrow> event_step dx (dx\<lparr>dx_sweeping := Timer_Expired\<rparr>)"
| event_cancelled: "dx_sweeping dx = Timer_Cancelled \<Longrightarrow> event_step dx (dx\<lparr>dx_sweeping := Timer_Over\<rparr>)"

text \<open>Neither touches anything but where the coroutines stand.\<close>

definition coroutines_only :: "('e, 'd) demux \<Rightarrow> ('e, 'd) demux \<Rightarrow> bool" where
  "coroutines_only dx dx' \<longleftrightarrow>
    dx' = dx\<lparr>dx_loop := dx_loop dx', dx_sweeping := dx_sweeping dx'\<rparr> \<and>
    (dx_loop dx' = Read_Pending \<longrightarrow> dx_open dx \<or> dx_loop dx = Read_Pending)"

lemma loop_step_only: "loop_step dx dx' \<Longrightarrow> coroutines_only dx dx'"
  by (induction rule: loop_step.induct) (simp_all add: coroutines_only_def begin_read_def)

lemma event_step_only: "event_step dx dx' \<Longrightarrow> coroutines_only dx dx'"
  by (induction rule: event_step.induct) (simp_all add: coroutines_only_def)

lemma coroutines_only_fields:
  assumes "coroutines_only dx dx'"
  shows "dx_open dx' = dx_open dx" and "dx_accepting dx' = dx_accepting dx" and "dx_lru dx' = dx_lru dx"
    and "dx_index dx' = dx_index dx" and "dx_next dx' = dx_next dx" and "dx_mailboxes dx' = dx_mailboxes dx"
    and "dx_conns dx' = dx_conns dx" and "dx_posted dx' = dx_posted dx" and "dx_fault dx' = dx_fault dx"
proof -
  have dx': "dx' = dx\<lparr>dx_loop := dx_loop dx', dx_sweeping := dx_sweeping dx'\<rparr>"
    using assms by (simp only: coroutines_only_def)
  show "dx_open dx' = dx_open dx" "dx_accepting dx' = dx_accepting dx" "dx_lru dx' = dx_lru dx"
    "dx_index dx' = dx_index dx" "dx_next dx' = dx_next dx" "dx_mailboxes dx' = dx_mailboxes dx"
    "dx_conns dx' = dx_conns dx" "dx_posted dx' = dx_posted dx" "dx_fault dx' = dx_fault dx"
    by (subst dx', simp)+
qed

text \<open>
  The handlers that run on the strand, in any order. The state is paired with the time of the last
  event; the clock is steady. The limit and the idle timeout are what the environment says. (Between a turn of
  the receive loop and its next read the strand runs no other handler; that the relation allows it only adds runs.)
\<close>

inductive demux_step :: "nat \<Rightarrow> int \<Rightarrow> int \<times> ('e, 'd) demux \<Rightarrow> int \<times> ('e, 'd) demux \<Rightarrow> bool"
  for limit idle_secs where
  dstep_loop: "loop_step dx dx' \<Longrightarrow> demux_step limit idle_secs (t, dx) (t, dx')"
| dstep_event: "event_step dx dx' \<Longrightarrow> demux_step limit idle_secs (t, dx) (t, dx')"
| dstep_datagram: "t \<le> now \<Longrightarrow> dx_loop dx = Read_Done \<Longrightarrow> dx_mailboxes (make_room limit dx) a = None \<Longrightarrow>
    demux_step limit idle_secs (t, dx)
      (now, on_datagram limit now a sent granted sender d (dx\<lparr>dx_loop := Read_Next\<rparr>))"
| dstep_sweep: "t \<le> now \<Longrightarrow> dx_sweeping dx = Timer_Expired \<Longrightarrow>
    demux_step limit idle_secs (t, dx) (now, sweep now idle_secs dx)"
| dstep_task: "dx_posted dx \<noteq> [] \<Longrightarrow> demux_step limit idle_secs (t, dx) (t, run_task dx)"
| dstep_stop: "demux_step limit idle_secs (t, dx) (t, stop_accepting dx)"
| dstep_accept: "demux_step limit idle_secs (t, dx) (t, snd (demux_accept got dx))"
| dstep_close: "demux_step limit idle_secs (t, dx) (t, passive_close c dx)"
| dstep_abort: "demux_step limit idle_secs (t, dx) (t, passive_abort c dx)"
| dstep_destroy: "demux_step limit idle_secs (t, dx) (t, passive_destroy c dx)"
| dstep_receive: "map_of (dx_conns dx) c \<noteq> None \<Longrightarrow>
    demux_step limit idle_secs (t, dx) (t, snd (passive_receive r c dx))"

inductive demux_reachable :: "nat \<Rightarrow> int \<Rightarrow> int \<times> ('e, 'd) demux \<Rightarrow> bool" for limit idle_secs where
  dreach_init: "demux_reachable limit idle_secs (t, snd (demux_start None make_demux))"
| dreach_step: "demux_reachable limit idle_secs s \<Longrightarrow> demux_step limit idle_secs s s' \<Longrightarrow>
    demux_reachable limit idle_secs s'"

lemma reachable_run:
  "(demux_step limit idle_secs)\<^sup>*\<^sup>* s s' \<Longrightarrow> demux_reachable limit idle_secs s \<Longrightarrow> demux_reachable limit idle_secs s'"
  by (induction rule: rtranclp_induct) (auto intro: dreach_step)

definition table_ok :: "nat \<Rightarrow> int \<times> ('e, 'd) demux \<Rightarrow> bool" where
  "table_ok limit s \<longleftrightarrow>
    demux_inv (snd s) \<and> life_ok (snd s) \<and> length (dx_lru (snd s)) \<le> limit \<and>
    by_activity (dx_lru (snd s)) \<and> (\<forall>p\<in>set (dx_lru (snd s)). en_last_active (snd p) \<le> fst s)"

lemma table_ok_same_lru:
  assumes "table_ok limit (t, dx)" and "demux_inv dx'" and "life_ok dx'" and "dx_lru dx' = dx_lru dx"
  shows "table_ok limit (t, dx')"
  using assms by (simp add: table_ok_def)

lemma table_ok_coroutines:
  assumes "table_ok limit (t, dx)" and "coroutines_only dx dx'"
  shows "table_ok limit (t, dx')"
proof -
  note f = coroutines_only_fields [OF assms(2)]
  have "dx_loop dx' = Read_Pending \<longrightarrow> dx_open dx \<or> dx_loop dx = Read_Pending"
    using assms(2) unfolding coroutines_only_def by (rule conjunct2)
  then show ?thesis using assms(1) by (auto simp: f table_ok_def life_ok_def demux_inv_def)
qed

lemma datagram_open: "dx_open (on_datagram limit now a sent granted sender d dx) = dx_open dx"
  by (auto simp: on_datagram_def deliver_to_def make_room_def evict_def drop_mailbox_def Let_def
      split: option.splits prod.splits bool.splits)

text \<open>The receive loop stands where it stood, unless the delivery threw.\<close>

lemma datagram_loop:
  "dx_loop (on_datagram limit now a sent granted sender d dx) = dx_loop dx \<or>
   dx_loop (on_datagram limit now a sent granted sender d dx) = Read_Over"
  by (auto simp: on_datagram_def deliver_to_def make_room_def evict_def drop_mailbox_def Let_def
      split: option.splits prod.splits bool.splits)

lemma datagram_not_pending:
  "dx_loop dx \<noteq> Read_Pending \<Longrightarrow> dx_loop (on_datagram limit now a sent granted sender d dx) \<noteq> Read_Pending"
  using datagram_loop [of limit now a sent granted sender d dx] by auto

lemma make_room_coroutines [simp]: "make_room limit (dx\<lparr>dx_loop := st\<rparr>) = (make_room limit dx)\<lparr>dx_loop := st\<rparr>"
proof -
  have "(drop_mailbox a dx1)\<lparr>dx_loop := st\<rparr> = drop_mailbox a (dx1\<lparr>dx_loop := st\<rparr>)" for a and dx1 :: "('a, 'b) demux"
    by (simp add: drop_mailbox_def)
  then show ?thesis by (cases dx) (simp add: make_room_def evict_def split: option.split)
qed

lemma table_ok_datagram:
  assumes ok: "table_ok limit (t, dx)" and limit: "1 \<le> limit" and now: "t \<le> now" and loop: "dx_loop dx \<noteq> Read_Pending"
    and fresh: "dx_mailboxes (make_room limit dx) a = None"
  shows "table_ok limit (now, on_datagram limit now a sent granted sender d dx)"
proof -
  let ?dx' = "on_datagram limit now a sent granted sender d dx"
  have inv: "demux_inv dx" and life: "life_ok dx" and len: "length (dx_lru dx) \<le> limit"
    and act: "by_activity (dx_lru dx)" and old: "\<forall>p\<in>set (dx_lru dx). en_last_active (snd p) \<le> now"
    using ok now by (auto simp: table_ok_def)
  have loop': "dx_loop ?dx' \<noteq> Read_Pending" using loop by (rule datagram_not_pending)
  have life': "life_ok ?dx'" if "dx_open dx"
    using that loop' by (simp add: life_ok_def datagram_open)
  show ?thesis
  proof (cases "index_find sender dx")
    case (Some it)
    then obtain en where en: "(it, en) \<in> set (dx_lru dx)" "en_source en = sender"
      using index_find_lru [OF inv] by blast
    have run: "?dx' = on_datagram limit now a sent granted (en_source en) d dx" using en(2) by simp
    note k = on_datagram_known [OF inv en(1) run]
    obtain xs ys where l: "dx_lru dx = xs @ (it, en) # ys" "filter (\<lambda>p. fst p \<noteq> it) (dx_lru dx) = xs @ ys"
      using inv en(1) by (rule lru_split)
    have "by_activity (xs @ ys)" using by_activity_filter [OF act, of "\<lambda>p. fst p \<noteq> it"] l(2) by simp
    moreover have "dx_open dx" using life en(1) by (auto simp: life_ok_def)
    ultimately show ?thesis
      using k(1,6) len old life' l by (auto simp: table_ok_def)
  next
    case None
    then have new: "sender \<notin> en_source ` snd ` set (dx_lru dx)" using index_find_none [OF inv] by blast
    show ?thesis
    proof (cases "dx_accepting dx")
      case True
      note n = on_datagram_new [OF inv True new limit len fresh refl]
      have "by_activity (butlast (dx_lru dx))"
        using act by (cases "dx_lru dx" rule: rev_exhaust) (auto simp: by_activity_snoc)
      moreover have "dx_open dx" using life True by (auto simp: life_ok_def)
      ultimately show ?thesis
        using n(1,4,5) act old life' by (auto simp: table_ok_def dest: in_set_butlastD)
    next
      case False
      then have "?dx' = dx" using None by (simp add: on_datagram_def)
      then show ?thesis using ok now by (auto simp: table_ok_def)
    qed
  qed
qed

lemma table_ok_sweep:
  assumes ok: "table_ok limit (t, dx)" and now: "t \<le> t'"
  shows "table_ok limit (t', sweep now idle_secs dx)"
proof -
  have inv: "demux_inv dx" and act: "by_activity (dx_lru dx)" and life: "life_ok dx"
    using ok by (simp_all add: table_ok_def)
  let ?d = "sweep_evict (now - idle_secs) dx"
  note s = sweep_evict_correct [OF inv act, of "now - idle_secs"]
  have "life_ok ?d" using life s by (auto simp: life_ok_def)
  moreover have "length (dx_lru ?d) \<le> limit"
    using s ok le_trans [OF length_filter_le] by (auto simp: table_ok_def)
  ultimately show ?thesis
    using s life_ok_shut_down [of ?d] by_activity_filter [OF act] ok now
    by (auto simp: table_ok_def sweep_def)
qed

lemma table_ok_task:
  assumes ok: "table_ok limit (t, dx)" and ts: "dx_posted dx = task # ts"
  shows "table_ok limit (t, exec_task task (dx\<lparr>dx_posted := ts\<rparr>))"
proof -
  let ?dx = "dx\<lparr>dx_posted := ts\<rparr>"
  have i: "demux_inv ?dx" "life_ok ?dx" using ok by (simp_all add: table_ok_def demux_inv_def life_ok_def)
  show ?thesis
  proof (cases task)
    case (Release source a)
    note e = exec_release_correct [OF i refl, where source = source and a = a]
    have "length (dx_lru (exec_task (Release source a) ?dx)) \<le> limit"
      using e(5) ok le_trans [OF length_filter_le] by (auto simp: table_ok_def)
    then show ?thesis
      using e(1,2,5) ok by_activity_filter unfolding Release by (auto simp: table_ok_def)
  next
    case Stop
    then show ?thesis
      using exec_stop_correct(1-3) [OF i] ok by (simp add: table_ok_def)
  qed
qed

lemma table_ok_step:
  assumes "demux_step limit idle_secs s s'" and "table_ok limit s" and "1 \<le> limit"
  shows "table_ok limit s'"
  using assms
proof (induction rule: demux_step.induct)
  case (dstep_loop dx dx' t)
  then show ?case using table_ok_coroutines loop_step_only by blast
next
  case (dstep_event dx dx' t)
  then show ?case using table_ok_coroutines event_step_only by blast
next
  case (dstep_datagram t now dx a sent granted sender d)
  then have "table_ok limit (t, dx\<lparr>dx_loop := Read_Next\<rparr>)" by (simp add: table_ok_def life_ok_def)
  then show ?case using dstep_datagram by (intro table_ok_datagram) auto
next
  case (dstep_sweep t now dx)
  then show ?case by (intro table_ok_sweep) auto
next
  case (dstep_task dx t)
  then obtain task ts where ts: "dx_posted dx = task # ts" by (cases "dx_posted dx") auto
  then show ?case using table_ok_task [OF dstep_task.prems(1) ts] by (simp add: run_task_def)
next
  case (dstep_stop t dx)
  then show ?case by (simp add: table_ok_def stop_accepting_def demux_inv_def life_ok_def)
next
  case (dstep_accept t dx got)
  have "demux_inv (upd_conn c (\<lambda>pc. pc\<lparr>pc_state := ESTABLISHED\<rparr>) dx)" for c
    using dstep_accept by (intro demux_inv_upd_conn) (simp_all add: table_ok_def)
  then show ?case using dstep_accept
    by (cases got) (auto simp: demux_accept_def intro: table_ok_same_lru simp: table_ok_def)
next
  case (dstep_close t dx c)
  then show ?case using passive_close_correct [of dx c]
    by (intro table_ok_same_lru [OF dstep_close.prems(1)]) (simp_all add: table_ok_def)
next
  case (dstep_abort t dx c)
  then show ?case using passive_close_correct [of dx c]
    by (intro table_ok_same_lru [OF dstep_abort.prems(1)]) (simp_all add: table_ok_def)
next
  case (dstep_destroy t dx c)
  then show ?case using passive_destroy_correct [of dx c]
    by (intro table_ok_same_lru [OF dstep_destroy.prems(1)]) (simp_all add: table_ok_def)
next
  case (dstep_receive dx c t r)
  then obtain pc where "map_of (dx_conns dx) c = Some pc" by blast
  then show ?case using passive_receive_correct [of dx c pc r] dstep_receive
    by (intro table_ok_same_lru [OF dstep_receive.prems(1)]) (simp_all add: table_ok_def)
qed

lemma table_ok_reachable:
  "demux_reachable limit idle_secs s \<Longrightarrow> 1 \<le> limit \<Longrightarrow> table_ok limit s"
proof (induction rule: demux_reachable.induct)
  case (dreach_init t)
  then show ?case
    by (simp add: table_ok_def demux_start_def demux_inv_def life_ok_def make_demux_def)
next
  case (dreach_step s s')
  then show ?case using table_ok_step by blast
qed

text \<open>What a shutdown does, and that every posted handler ends with one.\<close>

lemma shut_down_outcome:
  assumes "demux_inv dx"
  shows "if dx_accepting dx \<or> dx_lru dx \<noteq> [] then shut_down_if_unused dx = dx
    else \<not> dx_open (shut_down_if_unused dx) \<and>
      dx_loop (shut_down_if_unused dx) = (if dx_loop dx = Read_Pending then Read_Cancelled else dx_loop dx) \<and>
      dx_sweeping (shut_down_if_unused dx) =
        (if dx_sweeping dx = Timer_Pending then Timer_Cancelled else dx_sweeping dx)"
  using demux_invD(2) [OF assms] by (auto simp: shut_down_if_unused_def cancel_timer_def close_socket_def)

lemma exec_task_shuts_down:
  assumes "demux_inv dx" and "life_ok dx"
  shows "\<exists>dx1. exec_task task dx = shut_down_if_unused dx1 \<and> demux_inv dx1 \<and> dx_loop dx1 = dx_loop dx \<and>
    dx_sweeping dx1 = dx_sweeping dx"
proof (cases task)
  case (Release source a)
  define dx1 where "dx1 = (case index_find source dx of None \<Rightarrow> dx
      | Some it \<Rightarrow> (case map_of (dx_lru dx) it of None \<Rightarrow> dx\<lparr>dx_fault := True\<rparr>
          | Some e \<Rightarrow> if en_mailbox e = a then evict it owner dx else dx))"
  have e: "exec_task task dx = shut_down_if_unused dx1" by (simp add: Release dx1_def)
  moreover have "demux_inv dx1"
    using exec_release_correct(1) [OF assms refl, of source a] by (simp only: e [unfolded Release] shut_down_simps)
  moreover have "dx_loop dx1 = dx_loop dx" "dx_sweeping dx1 = dx_sweeping dx"
    by (auto simp: dx1_def evict_def drop_mailbox_def split: option.split)
  ultimately show ?thesis by blast
next
  case Stop
  show ?thesis
    by (rule exI [of _ "dx\<lparr>dx_accepting := False\<rparr>"]) (use Stop assms(1) in \<open>simp add: demux_inv_def\<close>)
qed

text \<open>Nothing opens the socket again, except another start.\<close>

lemma closed_shut_down: "\<not> dx_open dx \<Longrightarrow> \<not> dx_open (shut_down_if_unused dx)"
  by (simp add: shut_down_if_unused_def close_socket_def cancel_timer_def)

lemma open_evict [simp]:
  "dx_open (drop_mailbox a dx) = dx_open dx" "dx_open (evict it cause dx) = dx_open dx"
  by (simp_all add: drop_mailbox_def evict_def split: option.split)

lemma open_sweep_evict [simp]: "dx_open (sweep_evict cutoff dx) = dx_open dx"
proof (induction cutoff dx rule: sweep_evict.induct)
  case (1 cutoff dx)
  then show ?case by (subst sweep_evict.simps) auto
qed

lemma socket_closed_step: "demux_step limit idle_secs s s' \<Longrightarrow> \<not> dx_open (snd s) \<Longrightarrow> \<not> dx_open (snd s')"
proof (induction rule: demux_step.induct)
  case (dstep_loop dx dx' t)
  then show ?case using coroutines_only_fields(1) [OF loop_step_only] by fastforce
next
  case (dstep_event dx dx' t)
  then show ?case using coroutines_only_fields(1) [OF event_step_only] by fastforce
next
  case (dstep_task dx t)
  have "\<not> dx_open (exec_task task dx1)" if "\<not> dx_open dx1" for task and dx1 :: "('a, 'b) demux"
    using that by (cases task) (auto intro!: closed_shut_down split: option.split)
  then show ?case using dstep_task by (auto simp: run_task_def split: list.split)
next
  case (dstep_accept t dx got)
  then show ?case by (cases got) (simp_all add: demux_accept_def)
next
  case (dstep_receive dx c t r)
  then show ?case by (auto simp: passive_receive_def Let_def split: option.split prod.split look.split)
qed (auto simp: datagram_open sweep_def closed_shut_down stop_accepting_def passive_close_def passive_abort_def
    passive_destroy_def passive_release_def demux_release_def Let_def split: option.split)

lemma closed_for_good:
  "(demux_step limit idle_secs)\<^sup>*\<^sup>* s s' \<Longrightarrow> \<not> dx_open (snd s) \<Longrightarrow> \<not> dx_open (snd s')"
  by (induction rule: rtranclp_induct) (auto dest: socket_closed_step)

section \<open>Properties\<close>

lemma env_or_pos: "0 < def \<Longrightarrow> 0 < env_or getenv name def"
  by (simp add: env_or_def Let_def split: option.splits)

lemma max_connections_pos: "1 \<le> max_connections getenv"
  using env_or_pos [of kMaxConnections getenv] by (simp add: max_connections_def kMaxConnections_def Suc_le_eq)

text \<open>A run in which the loop reads a datagram and handles it, and one in which the sweep runs.\<close>

lemma reach_read: "demux_reachable limit idle_secs (t, dx) \<Longrightarrow> dx_loop dx = Read_Next \<Longrightarrow>
    demux_reachable limit idle_secs (t, begin_read dx)"
  by (blast intro: dreach_step dstep_loop loop_reads)

lemma reach_datagram:
  assumes "demux_reachable limit idle_secs (t, dx)" and "dx_loop dx = Read_Pending" and "t \<le> now"
    and "dx_mailboxes (make_room limit dx) a = None"
  shows "demux_reachable limit idle_secs (now, on_datagram limit now a sent granted sender d (dx\<lparr>dx_loop := Read_Next\<rparr>))"
proof -
  have "demux_reachable limit idle_secs (t, dx\<lparr>dx_loop := Read_Done\<rparr>)"
    using assms(1,2) by (blast intro: dreach_step dstep_event event_datagram)
  from dreach_step [OF this dstep_datagram] show ?thesis using assms(3,4) by simp
qed

lemma reach_sweep:
  assumes "demux_reachable limit idle_secs (t, dx)" and "dx_sweeping dx = Timer_Pending" and "t \<le> now"
  shows "demux_reachable limit idle_secs (now, sweep now idle_secs (dx\<lparr>dx_sweeping := Timer_Expired\<rparr>))"
proof -
  have "demux_reachable limit idle_secs (t, dx\<lparr>dx_sweeping := Timer_Expired\<rparr>)"
    using assms(1,2) by (blast intro: dreach_step dstep_event event_expired)
  from dreach_step [OF this dstep_sweep] show ?thesis using assms(3) by simp
qed

text \<open>For the witnesses: source 1 has sent a datagram at time 0 and has a connection, and the next read is pending.\<close>

definition started_demux :: "(nat, nat) demux" where
  "started_demux = begin_read (snd (demux_start None make_demux))"

lemma started_demux_reachable: "demux_reachable limit idle_secs (t, started_demux)"
  unfolding started_demux_def by (rule reach_read [OF dreach_init]) code_simp

definition demo_demux :: "(nat, nat) demux" where
  "demo_demux = begin_read (on_datagram 1024 0 7 True True 1 100 (started_demux\<lparr>dx_loop := Read_Next\<rparr>))"

lemma demo_demux_reachable: "demux_reachable 1024 30 (0, demo_demux)"
  unfolding demo_demux_def
  by (intro reach_read reach_datagram [OF started_demux_reachable [of _ _ 0]]) code_simp+

lemma demo_demux_lru:
  "dx_lru demo_demux = [(0, \<lparr>en_source = 1, en_mailbox = 7, en_last_active = 0\<rparr>)]"
  "map_of (dx_conns demo_demux) 0 \<noteq> None"
  by code_simp+

text \<open>
  C28. The table of sources is bounded and consistent in every reachable state, whatever the
  environment sets the limits to: the index and the list describe the same sources, each once, in the
  order of their last activity; there are never more than the limit; each has its own open mailbox;
  and no handler ever used an entry or mailbox that was gone.
\<close>

theorem demux_table_invariant:
  assumes "demux_reachable (max_connections getenv) (idle_timeout getenv) (t, dx)"
  shows "mset (dx_index dx) = mset (lru_keys (dx_lru dx)) \<and>
    distinct (map (en_source \<circ> snd) (dx_lru dx)) \<and> distinct (map (en_mailbox \<circ> snd) (dx_lru dx)) \<and>
    length (dx_lru dx) \<le> max_connections getenv \<and> by_activity (dx_lru dx) \<and>
    (\<forall>p\<in>set (dx_lru dx). \<exists>mb. dx_mailboxes dx (en_mailbox (snd p)) = Some mb \<and> mb_ok mb \<and> \<not> mb_closed mb) \<and>
    \<not> dx_fault dx"
  using table_ok_reachable [OF assms max_connections_pos] by (simp add: table_ok_def demux_inv_def)

lemma chrono_small: "n < 2 ^ 63 \<Longrightarrow> chrono_seconds n = int n"
  by (simp add: chrono_seconds_def signed_of_nat signed_take_bit_int_eq_self)

lemma no_environment: "max_connections (\<lambda>_. None) = 1024" "idle_timeout (\<lambda>_. None) = 30"
  by (simp_all add: max_connections_def idle_timeout_def env_or_def kMaxConnections_def kIdleTimeout_def chrono_small)

lemma demux_table_invariant_witness:
  "length (dx_lru demo_demux) \<le> 1024 \<and> \<not> dx_fault demo_demux"
  using demux_table_invariant [of "\<lambda>_. None" 0 demo_demux] demo_demux_reachable
  by (simp add: no_environment)

text \<open>
  A datagram from a source in the table is delivered to that source's mailbox and to no other,
  the source becomes the most recently active one, and no connection is created.
\<close>

lemma datagram_reaches_its_source:
  assumes "demux_reachable limit idle_secs (t, dx)" and "1 \<le> limit" and "(it, en) \<in> set (dx_lru dx)"
  shows "let dx' = on_datagram limit now a sent granted (en_source en) d dx in
    (\<exists>mb. dx_mailboxes dx (en_mailbox en) = Some mb \<and> \<not> mb_closed mb \<and>
       dx_mailboxes dx' (en_mailbox en) = Some (snd (snd (deliver granted d mb)))) \<and>
    (\<forall>b. b \<noteq> en_mailbox en \<longrightarrow> dx_mailboxes dx' b = dx_mailboxes dx b) \<and>
    hd (dx_lru dx') = (it, en\<lparr>en_last_active := now\<rparr>) \<and>
    mset (map (en_source \<circ> snd) (dx_lru dx')) = mset (map (en_source \<circ> snd) (dx_lru dx)) \<and>
    dx_conns dx' = dx_conns dx"
proof -
  have inv: "demux_inv dx" using table_ok_reachable [OF assms(1,2)] by (simp add: table_ok_def)
  obtain xs ys where l: "dx_lru dx = xs @ (it, en) # ys" "filter (\<lambda>p. fst p \<noteq> it) (dx_lru dx) = xs @ ys"
    using inv assms(3) by (rule lru_split)
  note k = on_datagram_known [OF inv assms(3) refl, where limit = limit and now = now and a = a
      and sent = sent and granted = granted and d = d]
  have "mset (map (en_source \<circ> snd) ((it, en\<lparr>en_last_active := now\<rparr>) # xs @ ys))
      = mset (map (en_source \<circ> snd) (dx_lru dx))"
    by (simp add: l(1))
  then show ?thesis using k(2,6,7,8) unfolding Let_def l(2) by auto
qed

text \<open>
  C29. A datagram from a new source. If the listener no longer accepts, nothing happens. Otherwise the
  source enters the table, displacing the least recently active one exactly when the table is full, and
  if the accept channel takes its connection the datagram is the first in its new mailbox.
\<close>

theorem datagram_from_new_source:
  assumes "demux_reachable limit idle_secs (t, dx)" and "1 \<le> limit"
    and "sender \<notin> en_source ` snd ` set (dx_lru dx)" and "dx_mailboxes (make_room limit dx) a = None"
  shows "let dx' = on_datagram limit now a sent granted sender d dx in
    if \<not> dx_accepting dx then dx' = dx
    else map (en_source \<circ> snd) (dx_lru dx') =
        sender # map (en_source \<circ> snd) (if length (dx_lru dx) = limit then butlast (dx_lru dx) else dx_lru dx) \<and>
      (if sent then dx_mailboxes dx' a = Some (snd (snd (deliver granted d (make_mailbox default_mailbox_capacity)))) \<and>
         pc_mailbox (snd (hd (dx_conns dx'))) = a \<and> tl (dx_conns dx') = dx_conns dx
       else dx_conns dx' = dx_conns dx \<and> dx_posted dx' = dx_posted dx @ [Release sender a])"
proof -
  have ok: "demux_inv dx" "length (dx_lru dx) \<le> limit"
    using table_ok_reachable [OF assms(1,2)] by (simp_all add: table_ok_def)
  show ?thesis
  proof (cases "dx_accepting dx")
    case True
    note n = on_datagram_new [OF ok(1) True assms(3,2) ok(2) assms(4) refl, where now = now and sent = sent
        and granted = granted and d = d]
    show ?thesis using n(4,7,8,9) True unfolding Let_def by (cases sent) auto
  next
    case False
    moreover have "index_find sender dx = None" using index_find_none [OF ok(1)] assms(3) by blast
    ultimately show ?thesis by (simp add: on_datagram_def)
  qed
qed

lemma datagram_from_new_source_witness:
  "map (en_source \<circ> snd) (dx_lru (on_datagram 1 5 9 True True 2 (200 :: nat) (snd (demux_start None make_demux)))) = [2 :: nat]"
proof -
  let ?dx = "snd (demux_start None make_demux) :: (nat, nat) demux"
  have "dx_accepting ?dx" "dx_lru ?dx = []" "dx_mailboxes (make_room 1 ?dx) 9 = None"
    by (simp_all add: demux_start_def make_demux_def make_room_def)
  then show ?thesis
    using datagram_from_new_source [OF dreach_init [of 1 30 0], of "2 :: nat" 9 5 True True "200 :: nat"]
    by (simp add: Let_def)
qed

text \<open>
  C30. The idle sweep evicts exactly the sources that have been quiet for longer than the timeout,
  although it only ever looks at the end of the list: the others stay, with their mailboxes untouched,
  and the connections of the evicted find their mailbox closed for idleness.
\<close>

theorem sweep_evicts_exactly_the_idle:
  assumes "demux_reachable limit idle_secs (t, dx)" and "1 \<le> limit"
  shows "dx_lru (sweep now idle_secs dx) = filter (\<lambda>p. now - idle_secs \<le> en_last_active (snd p)) (dx_lru dx) \<and>
    (\<forall>p\<in>set (dx_lru dx). now - idle_secs \<le> en_last_active (snd p) \<longrightarrow>
       dx_mailboxes (sweep now idle_secs dx) (en_mailbox (snd p)) = dx_mailboxes dx (en_mailbox (snd p))) \<and>
    (\<forall>p\<in>set (dx_lru dx). \<forall>q\<in>set (dx_conns dx).
       en_last_active (snd p) < now - idle_secs \<longrightarrow> pc_mailbox (snd q) = en_mailbox (snd p) \<longrightarrow>
       (\<exists>mb. dx_mailboxes (sweep now idle_secs dx) (en_mailbox (snd p)) = Some mb \<and>
          mb_closed mb \<and> mb_cause mb = idle))"
proof -
  have inv: "demux_inv dx" and act: "by_activity (dx_lru dx)"
    using table_ok_reachable [OF assms] by (simp_all add: table_ok_def)
  let ?c = "now - idle_secs"
  note s = sweep_evict_correct [OF inv act, of ?c]
  have mb: "dx_mailboxes (sweep now idle_secs dx) a = dx_mailboxes (sweep_evict ?c dx) a" for a
    by (simp add: sweep_def)
  have keep: "dx_mailboxes (sweep now idle_secs dx) (en_mailbox (snd p)) = dx_mailboxes dx (en_mailbox (snd p))"
    if p: "p \<in> set (dx_lru dx)" and f: "fresh_entry ?c p" for p
  proof -
    have "q = p" if "q \<in> set (dx_lru dx)" "en_mailbox (snd q) = en_mailbox (snd p)" for q
      using lru_same [OF inv, of "fst p" "snd p" q] p that by auto
    then have "\<not> (\<exists>q\<in>set (dx_lru dx). en_mailbox (snd q) = en_mailbox (snd p) \<and> \<not> fresh_entry ?c q)"
      using f by blast
    then show ?thesis using s mb by metis
  qed
  have gone: "\<exists>mb. dx_mailboxes (sweep now idle_secs dx) (en_mailbox (snd p)) = Some mb \<and> mb_closed mb \<and> mb_cause mb = idle"
    if p: "p \<in> set (dx_lru dx)" and f: "\<not> fresh_entry ?c p"
      and q: "\<exists>q\<in>set (dx_conns dx). pc_mailbox (snd q) = en_mailbox (snd p)" for p
  proof -
    obtain mb0 where "dx_mailboxes dx (en_mailbox (snd p)) = Some mb0" "\<not> mb_closed mb0"
      using inv p by (force simp: demux_inv_def)
    moreover have "dx_mailboxes (sweep now idle_secs dx) (en_mailbox (snd p))
        = map_option (mb_close idle) (dx_mailboxes dx (en_mailbox (snd p)))"
      using s mb p f q by metis
    ultimately show ?thesis by simp
  qed
  have "dx_lru (sweep now idle_secs dx) = filter (fresh_entry ?c) (dx_lru dx)"
    using s by (simp add: sweep_def)
  moreover have "fresh_entry ?c p \<longleftrightarrow> ?c \<le> en_last_active (snd p)" for p by (simp add: fresh_entry_def)
  ultimately show ?thesis using keep gone by (auto simp: not_le fresh_entry_def [abs_def])
qed

lemma sweep_evicts_exactly_the_idle_witness:
  "dx_lru (sweep 31 30 demo_demux) = [] \<and> dx_lru (sweep 30 30 demo_demux) = dx_lru demo_demux"
  using sweep_evicts_exactly_the_idle [OF demo_demux_reachable, of 31]
    sweep_evicts_exactly_the_idle [OF demo_demux_reachable, of 30]
  by (simp add: demo_demux_lru)



text \<open>
  C32. Releasing is guarded by the address of the mailbox only, and an address can be used again. The
  connection of an evicted source is destroyed, which posts its release; before that handler runs,
  the same source sends again and its new mailbox gets the old address; the handler then closes the
  new connection's mailbox, although the application never closed that connection.
\<close>

definition aba_run :: "(nat, nat) demux" where
  "aba_run =
    run_task (begin_read (on_datagram 1024 101 7 True True 1 200
      ((passive_destroy 0 (sweep 100 30 (demo_demux\<lparr>dx_sweeping := Timer_Expired\<rparr>)))\<lparr>dx_loop := Read_Next\<rparr>)))"

theorem release_hits_reused_address:
  "demux_reachable 1024 30 (101, aba_run) \<and>
    (\<exists>pc mb. map_of (dx_conns aba_run) 1 = Some pc \<and> \<not> pc_released pc \<and>
      dx_mailboxes aba_run (pc_mailbox pc) = Some mb \<and> mb_closed mb \<and> mb_cause mb = owner) \<and>
    dx_lru aba_run = []"
proof -
  let ?a = "sweep 100 30 (demo_demux\<lparr>dx_sweeping := Timer_Expired\<rparr>)"
  let ?b = "passive_destroy 0 ?a"
  let ?c = "begin_read (on_datagram 1024 101 7 True True 1 200 (?b\<lparr>dx_loop := Read_Next\<rparr>))"
  have "demux_reachable 1024 30 (100, ?a)"
    by (rule reach_sweep [OF demo_demux_reachable]) (code_simp, simp)
  then have "demux_reachable 1024 30 (100, ?b)"
    by (rule dreach_step) (rule dstep_destroy)
  then have "demux_reachable 1024 30 (101, ?c)"
    by (intro reach_read reach_datagram [where t = 100]) (assumption, code_simp+)
  moreover have "dx_posted ?c \<noteq> []" by code_simp
  ultimately have r: "demux_reachable 1024 30 (101, aba_run)"
    unfolding aba_run_def by (blast intro: dreach_step dstep_task)
  have c: "map_of (dx_conns aba_run) 1 = Some \<lparr>pc_remote = 1, pc_mailbox = 7, pc_state = ESTABLISHING,
      pc_aborted = False, pc_released = False\<rparr>"
    by code_simp
  have m: "(case dx_mailboxes aba_run 7 of None \<Rightarrow> False | Some mb \<Rightarrow> mb_closed mb \<and> mb_cause mb = owner)"
    by code_simp
  have "dx_lru aba_run = []" by code_simp
  with r c m show ?thesis by (auto split: option.splits)
qed

end
