(* ===== verification/Growth.thy ===== *)
theory Growth
  imports Messages
begin

text \<open>
  What no operation on blocks, chains and messages takes back: addresses are not reused (\<open>h_next\<close> only
  grows), and a memory resource that grants everything goes on doing so. The second half shows that
  then nothing throws.
\<close>

definition later :: "heap \<Rightarrow> heap \<Rightarrow> bool" where
  "later h h' \<longleftrightarrow> h_next h \<le> h_next h' \<and> (h_grants h = [] \<longrightarrow> h_grants h' = [])"

lemma later_refl [simp]: "later h h"
  by (simp add: later_def)

lemma later_trans [trans]: "later h h1 \<Longrightarrow> later h1 h2 \<Longrightarrow> later h h2"
  by (auto simp: later_def)

lemma later_pool_ok: "later h h' \<Longrightarrow> pool_ok p h \<Longrightarrow> pool_ok p h'"
  by (force simp: later_def pool_ok_def)

section \<open>Blocks and handles\<close>

lemma later_same: "h_next h' = h_next h \<Longrightarrow> h_grants h' = h_grants h \<Longrightarrow> later h h'"
  by (simp add: later_def)

lemma later_allocate: "res_allocate u h = (ok, h') \<Longrightarrow> later h h'"
  by (auto simp: later_def res_allocate.simps split: list.splits bool.splits)

lemma later_deallocate [simp]:
  "later h (res_deallocate u h1) \<longleftrightarrow> later h h1" "later (res_deallocate u h) h1 \<longleftrightarrow> later h h1"
  by (simp_all add: later_def res_deallocate_def)

lemma later_release [simp]: "later h (release b h)"
  by (auto simp: later_def release_def destroy_block_def res_deallocate_def Let_def split: option.splits)

lemma later_ref_drop [simp]: "later h (ref_drop r h)"
  by (simp add: ref_drop_def split: option.split)

lemma later_via_drop: "later (ref_drop r h) h' \<Longrightarrow> later h h'"
  by (rule later_trans [OF later_ref_drop])

lemma later_add_ref [simp]: "later h (add_ref b h)"
  by (auto simp: later_def add_ref_def split: option.splits)

lemma later_ref_copy [simp]: "later h (snd (ref_copy r h))"
  by (simp add: ref_copy_def split: option.split)

lemma later_fill_block [simp]: "later h (fill_block b p bytes h)"
  by (auto simp: later_def fill_block_def split: option.splits)

lemma later_fold_drop [simp]: "later h (fold ref_drop d h)"
  by (induction d arbitrary: h) (auto intro: later_via_drop)

lemma later_create_block: "create_block res cap live h = (ob, h') \<Longrightarrow> later h h'"
  by (auto simp: create_block_def Let_def later_def res_deallocate_def simp del: res_allocate.simps
      split: prod.splits bool.splits dest!: later_allocate)

lemma later_acquire: "acquire p h = (r, h') \<Longrightarrow> later h h'"
proof -
  have u: "later (h\<lparr>h_live := f\<rparr>) h'' \<longleftrightarrow> later h h''" "later h (h''\<lparr>h_live := f\<rparr>) \<longleftrightarrow> later h h''" for f h h''
    by (simp_all add: later_def)
  show "acquire p h = (r, h') \<Longrightarrow> later h h'"
    by (auto simp: acquire_def ref_make_def Let_def u split: option.splits prod.splits if_splits
        dest!: later_create_block intro: later_trans)
qed

section \<open>Chains\<close>

lemma later_reset_slots: "later h (fst (reset_slots i n (h, d)))"
  by (induction n arbitrary: i h d) (auto simp: ref_reset_def intro: later_via_drop)

lemma later_chain_clear: "later h (fst (chain_clear (h, c)))"
  using later_reset_slots [of h "ch_head c" "ch_count c" "ch_data c"]
  by (auto simp: chain_clear_def split: prod.split)

lemma later_release_storage: "later h (fst (release_storage (h, c)))"
  by (auto simp: release_storage_def split: option.split)

lemma later_chain_destroy [simp]: "later h (chain_destroy (h, c))"
proof -
  obtain h1 c1 where 1: "chain_clear (h, c) = (h1, c1)" by fastforce
  obtain h2 c2 where 2: "release_storage (h1, c1) = (h2, c2)" by fastforce
  have "later h h1" using later_chain_clear [of h c] 1 by simp
  also have "later h1 h2" using later_release_storage [of h1 c1] 2 by simp
  also have "later h2 (fold ref_drop (ch_slots c2) h2)" by simp
  finally show ?thesis by (simp add: chain_destroy_def 1 2)
qed

lemma later_move_slot: "later h (fst (move_slot i j (h, d)))"
  by (simp add: move_slot_def ref_assign_move_def)

lemma later_shift_down: "later h (fst (shift_down h0 i n (h, d)))"
proof (induction n arbitrary: i h d)
  case (Suc n)
  obtain h1 d1 where 1: "move_slot i (h0 + i) (h, d) = (h1, d1)" by fastforce
  have "later h h1" using later_move_slot [of h i "h0 + i" d] 1 by simp
  with Suc [of h1 "Suc i" d1] show ?case by (simp add: 1 later_trans)
qed simp

lemma later_chain_grow: "chain_grow (h, c) = (ok, h', c') \<Longrightarrow> later h h'"
  using later_shift_down [of h "ch_head c" 0 "ch_count c" "ch_data c"]
  by (auto simp: chain_grow_def Let_def simp del: res_allocate.simps
      split: if_splits prod.splits bool.splits dest!: later_allocate
      intro: later_trans)
     (metis fst_conv later_release_storage later_reset_slots later_trans)+

lemma later_push_back: "chain_push_back r (h, c) = (ok, h', c') \<Longrightarrow> later h h'"
  by (auto simp: chain_push_back_def ref_assign_move_def Let_def split: if_splits prod.splits bool.splits
      dest!: later_chain_grow intro: later_trans later_ref_drop)

lemma later_append: "chain_append r (h, c) = (ok, h', c') \<Longrightarrow> later h h'"
  by (auto simp: chain_append_def Let_def split: if_splits dest: later_push_back)

lemma later_consume_loop: "consume_loop n (h, c) = Some (h', c') \<Longrightarrow> later h h'"
proof (induction n "(h, c)" arbitrary: h c rule: consume_loop.induct)
  case (1 n h c)
  show ?case
  proof (cases "n = 0 \<or> ch_count c = 0 \<or> ch_capacity c \<le> ch_head c \<or> n < ref_size (ch_data c ! ch_head c)")
    case True
    with "1.prems" show ?thesis by (subst (asm) consume_loop.simps) (auto simp: Let_def split: if_splits)
  next
    case False
    then have "later (ref_drop (ch_data c ! ch_head c) h) h'"
      using 1 by (subst (asm) (2) consume_loop.simps) (simp add: Let_def ref_reset_def)
    then show ?thesis by (rule later_via_drop)
  qed
qed

lemma later_consume_front: "consume_front n (h, c) = Some (h', c') \<Longrightarrow> later h h'"
  by (auto simp: consume_front_def Let_def simp del: consume_loop.simps dest: later_consume_loop)

lemma later_first_loop: "first_loop rs len (h, out) = (h', res) \<Longrightarrow> later h h'"
proof (induction rs len "(h, out)" arbitrary: h out rule: first_loop.induct)
  case (2 r rs len h out)
  obtain h1 where 1: "ref_copy r h = (r, h1)" using fst_ref_copy [of r h] by (metis prod.collapse)
  have "later h h1" using later_ref_copy [of h r] 1 by simp
  with 2 1 show ?case
    by (auto simp: Let_def split: if_splits prod.splits bool.splits dest!: later_append
        intro: later_trans later_chain_destroy)
qed simp

lemma later_chain_first: "chain_first len (h, c) = (h', res) \<Longrightarrow> later h h'"
  by (auto simp: chain_first_def dest: later_first_loop)

lemma later_move_entries: "later h (fst (move_entries h0 i n (h, dst, src)))"
proof (induction n arbitrary: i h dst src)
  case (Suc n)
  show ?case
    using later_via_drop [OF Suc] by (simp add: ref_assign_move_def)
qed simp

lemma later_move_assign:
  assumes "chain_move_assign c (h, d) = (h', c', d')"
  shows "later h h'"
proof -
  obtain h0 c0 where 0: "chain_clear (h, c) = (h0, c0)" by fastforce
  obtain h1 c1 where 1: "release_storage (h0, c0) = (h1, c1)" by fastforce
  have l1: "later h h1"
    using later_chain_clear [of h c] later_release_storage [of h0 c0] 0 1 by (auto intro: later_trans)
  obtain h2 dst src where 2: "move_entries (ch_head d) 0 (ch_count d) (h1, ch_slots c1, ch_slots d) = (h2, dst, src)"
    using prod_cases3 by blast
  have l2: "later h1 h2"
    using later_move_entries [of h1 "ch_head d" 0 "ch_count d" "ch_slots c1" "ch_slots d"] 2 by simp
  have l3: "later h2 (fst (chain_clear (h2, d\<lparr>ch_size := 0, ch_slots := src\<rparr>)))"
    by (rule later_chain_clear)
  show ?thesis
    using assms l1 l2 l3 by (auto simp: chain_move_assign_def 0 1 2 Let_def split: prod.splits option.splits
        intro: later_trans)
qed

lemma later_make_chain: "make_chain res (h, tmp) = (h', oc) \<Longrightarrow> later h h'"
  by (auto simp: make_chain_def simp del: res_allocate.simps split: prod.splits bool.splits
      dest!: later_allocate later_move_assign intro: later_trans later_chain_destroy)

section \<open>Messages\<close>

lemma later_as_bytes: "as_bytes (h, m) = (ob, h', m') \<Longrightarrow> later h h'"
  by (auto simp: as_bytes_def ensure_gathered_def Let_def simp del: res_allocate.simps
      split: if_splits option.splits prod.splits bool.splits dest: later_allocate)

lemma later_message_destroy [simp]: "later h (message_destroy (h, m))"
proof -
  have "later (res_deallocate u h) (chain_destroy (res_deallocate u h, c))" for u c
    by (rule later_chain_destroy)
  then have "later h (chain_destroy (res_deallocate u h, c))" for u c by (simp only: later_deallocate)
  then show ?thesis by (simp add: message_destroy_def Let_def split: option.split)
qed

section \<open>Nothing throws\<close>

lemma granted:
  "h_grants h = [] \<Longrightarrow> res_allocate u h = (True, h\<lparr>h_out := add_mset u (h_out h)\<rparr>)"
  by (simp add: res_allocate.simps)

lemma acquire_granted: "h_grants h = [] \<Longrightarrow> fst (acquire p h) \<noteq> None"
  by (simp add: acquire_def create_block_def Let_def ref_make_def granted split: option.split)

lemma grow_granted: "h_grants h = [] \<Longrightarrow> fst (chain_grow (h, c))"
  by (simp add: chain_grow_def Let_def granted split: prod.split)

lemma append_granted: "h_grants h = [] \<Longrightarrow> fst (chain_append r (h, c))"
  using grow_granted
  by (auto simp: chain_append_def chain_push_back_def ref_assign_move_def Let_def
      split: prod.split bool.split) (metis fst_conv)+

lemma append_granted_correct:
  assumes ok: "chain_ok c" and inv: "heap_inv h (add_mset r (mset (ch_live c) + R)) (chain_units c + X)"
    and g: "h_grants h = []"
  obtains h' c' where "chain_append r (h, c) = (True, h', c')" "chain_ok c'" "ch_live c' = append_refs (ch_live c) r"
    "heap_inv h' (mset (ch_live c') + R) (chain_units c' + X)" "keeps (mset (ch_live c') + R) h h'"
    "chain_bytes h' c' = chain_bytes h c @ ref_bytes h r" "later h h'"
proof -
  obtain h' c' where app: "chain_append r (h, c) = (True, h', c')"
    using append_granted [OF g] by (metis fst_conv prod.collapse)
  then show ?thesis
    using that chain_append_correct [OF ok inv app, unfolded if_True] chain_append_bytes [OF ok inv app] later_append by blast
qed

lemma first_loop_granted: "h_grants h = [] \<Longrightarrow> snd (first_loop rs len (h, out)) \<noteq> None"
proof (induction rs len "(h, out)" arbitrary: h out rule: first_loop.induct)
  case (2 r rs len h out)
  obtain h1 where 1: "ref_copy r h = (r, h1)" using fst_ref_copy [of r h] by (metis prod.collapse)
  have g: "h_grants h1 = []" using later_ref_copy [of h r] 1 2(2) by (simp add: later_def)
  obtain h2 out2 where 2: "chain_append (set_range (br_begin r) (br_begin r + min (ref_size r) len) r) (h1, out) = (True, h2, out2)"
    using append_granted [OF g] by (metis fst_conv prod.collapse)
  have "h_grants h2 = []" using later_append [OF 2] g by (simp add: later_def)
  with "2.hyps" 1 2 show ?case by (auto simp: Let_def)
qed simp

lemma chain_first_granted: "h_grants h = [] \<Longrightarrow> snd (chain_first len (h, c)) \<noteq> None"
  by (simp add: chain_first_def first_loop_granted)

lemma make_chain_granted: "h_grants h = [] \<Longrightarrow> snd (make_chain res (h, tmp)) \<noteq> None"
  by (simp add: make_chain_def granted split: prod.split)

end
