(* ===== verification/Properties.thy ===== *)
theory Properties
  imports Prelude Errors
begin

text \<open>
  What an application asks for: transport properties (src/TransportProperties.cpp), security parameters
  and endpoints (include/taps/taps_api.h, src/Endpoint.cpp).
\<close>

section \<open>Transport properties\<close>

datatype SelectionProperty = REQUIRE | PREFER | IGNORE | AVOID | PROHIBIT

datatype PropertyKey =
    RELIABILITY | PRESERVE_ORDER | PRESERVE_MSG_BOUNDARIES | PER_MSG_RELIABILITY | PRESERVE_DATA
  | CONGESTION_CONTROL | KEEP_ALIVE | INTERFACE_INSTANCE | DIRECTION | MULTIPATH
  | CHECKSUM_COVERAGE_SEND | CHECKSUM_COVERAGE_RECEIVE

datatype Direction = UNIDIRECTIONAL_SEND | UNIDIRECTIONAL_RECEIVE | BIDIRECTIONAL

type_synonym transport_properties = "PropertyKey \<rightharpoonup> SelectionProperty"

definition set_property :: "PropertyKey \<Rightarrow> SelectionProperty \<Rightarrow> transport_properties \<Rightarrow> transport_properties" where
  "set_property key value props = props(key \<mapsto> value)"

definition get_property :: "transport_properties \<Rightarrow> PropertyKey \<Rightarrow> SelectionProperty" where
  "get_property props key = (case props key of Some v \<Rightarrow> v | None \<Rightarrow> IGNORE)"

definition requires_reliable_transport :: "transport_properties \<Rightarrow> bool" where
  "requires_reliable_transport props =
    (let reliability = get_property props RELIABILITY in reliability = REQUIRE \<or> reliability = PREFER)"

definition requires_ordered_delivery :: "transport_properties \<Rightarrow> bool" where
  "requires_ordered_delivery props =
    (let ordering = get_property props PRESERVE_ORDER in ordering = REQUIRE \<or> ordering = PREFER)"

definition requires_message_boundaries :: "transport_properties \<Rightarrow> bool" where
  "requires_message_boundaries props =
    (let boundaries = get_property props PRESERVE_MSG_BOUNDARIES in boundaries = REQUIRE \<or> boundaries = PREFER)"

definition get_direction :: "transport_properties \<Rightarrow> Direction" where
  "get_direction props = BIDIRECTIONAL"

lemma get_set_property:
  "get_property (set_property k v props) k' = (if k' = k then v else get_property props k')"
  by (simp add: get_property_def set_property_def)

section \<open>Security parameters\<close>

datatype TLSVersion = TLS_1_2 | TLS_1_3

datatype SecurityProtocol = TLS

record security_parameters =
  sp_allowed_protocols :: "SecurityProtocol list"
  sp_pre_shared_keys :: "string list"
  sp_trust_anchors :: "string list"
  sp_server_name :: string
  sp_certificate_chain_file :: string
  sp_private_key_file :: string
  sp_alpn :: "string list"
  sp_ciphersuites :: "string list"
  sp_supported_groups :: "string list"
  sp_min_tls_version :: TLSVersion
  sp_max_tls_version :: TLSVersion

definition default_security :: security_parameters where
  "default_security =
    \<lparr>sp_allowed_protocols = [], sp_pre_shared_keys = [], sp_trust_anchors = [], sp_server_name = [],
     sp_certificate_chain_file = [], sp_private_key_file = [], sp_alpn = [], sp_ciphersuites = [],
     sp_supported_groups = [], sp_min_tls_version = TLS_1_2, sp_max_tls_version = TLS_1_3\<rparr>"

definition require_tls :: "security_parameters \<Rightarrow> security_parameters" where
  "require_tls p = p\<lparr>sp_allowed_protocols := [TLS]\<rparr>"

definition set_allowed_protocols :: "SecurityProtocol list \<Rightarrow> security_parameters \<Rightarrow> security_parameters" where
  "set_allowed_protocols ps p = p\<lparr>sp_allowed_protocols := ps\<rparr>"

definition set_tls_version_range :: "TLSVersion \<Rightarrow> TLSVersion \<Rightarrow> security_parameters \<Rightarrow> security_parameters" where
  "set_tls_version_range lo hi p = p\<lparr>sp_min_tls_version := lo, sp_max_tls_version := hi\<rparr>"

definition add_trust_anchor :: "string \<Rightarrow> security_parameters \<Rightarrow> security_parameters" where
  "add_trust_anchor path p = p\<lparr>sp_trust_anchors := sp_trust_anchors p @ [path]\<rparr>"

definition set_server_name :: "string \<Rightarrow> security_parameters \<Rightarrow> security_parameters" where
  "set_server_name name p = p\<lparr>sp_server_name := name\<rparr>"

definition add_alpn :: "string \<Rightarrow> security_parameters \<Rightarrow> security_parameters" where
  "add_alpn i p = p\<lparr>sp_alpn := sp_alpn p @ [i]\<rparr>"

definition set_ciphersuites :: "string list \<Rightarrow> security_parameters \<Rightarrow> security_parameters" where
  "set_ciphersuites suites p = p\<lparr>sp_ciphersuites := suites\<rparr>"

definition set_supported_groups :: "string list \<Rightarrow> security_parameters \<Rightarrow> security_parameters" where
  "set_supported_groups groups p = p\<lparr>sp_supported_groups := groups\<rparr>"

definition set_certificate_chain_file :: "string \<Rightarrow> security_parameters \<Rightarrow> security_parameters" where
  "set_certificate_chain_file path p = p\<lparr>sp_certificate_chain_file := path\<rparr>"

definition set_private_key_file :: "string \<Rightarrow> security_parameters \<Rightarrow> security_parameters" where
  "set_private_key_file path p = p\<lparr>sp_private_key_file := path\<rparr>"

definition set_pre_shared_key :: "string \<Rightarrow> security_parameters \<Rightarrow> security_parameters" where
  "set_pre_shared_key key p = p\<lparr>sp_pre_shared_keys := sp_pre_shared_keys p @ [key]\<rparr>"

definition is_enabled :: "security_parameters \<Rightarrow> bool" where
  "is_enabled p = (sp_allowed_protocols p \<noteq> [])"

lemma is_enabled_simps [simp]:
  "is_enabled (require_tls p)" "is_enabled (set_allowed_protocols ps p) \<longleftrightarrow> ps \<noteq> []" "\<not> is_enabled default_security"
  by (simp_all add: is_enabled_def require_tls_def set_allowed_protocols_def default_security_def)

section \<open>Endpoints\<close>

datatype AddressFamily = IPv4 | IPv6 | UNSPEC

record endpoint =
  ep_hostname :: string
  ep_port :: u16
  ep_family :: AddressFamily

text \<open>
  A socket address: the wildcard address of a protocol, or an address that the resolver returned, which is
  outside the library. Local and remote endpoints differ only in how they resolve.
\<close>

datatype inet_address = Any_IPv4 | Any_IPv6 | Resolved string

type_synonym inet_endpoint = "inet_address \<times> u16"

definition make_endpoint :: "string \<Rightarrow> u16 \<Rightarrow> endpoint" where
  "make_endpoint host port = \<lparr>ep_hostname = host, ep_port = port, ep_family = UNSPEC\<rparr>"

definition default_endpoint :: endpoint where
  "default_endpoint = make_endpoint [] 0"

definition with_hostname :: "string \<Rightarrow> endpoint \<Rightarrow> endpoint" where
  "with_hostname host e = e\<lparr>ep_hostname := host\<rparr>"

definition with_port :: "u16 \<Rightarrow> endpoint \<Rightarrow> endpoint" where
  "with_port port e = e\<lparr>ep_port := port\<rparr>"

text \<open>
  The resolver is an argument: it answers a host name and the decimal port with addresses, or throws
  (\<open>None\<close>), and then the result is empty.
\<close>

type_synonym resolver = "string \<Rightarrow> string \<Rightarrow> inet_endpoint list option"

definition resolve_remote :: "resolver \<Rightarrow> endpoint \<Rightarrow> inet_endpoint list" where
  "resolve_remote rs e =
    (case rs (ep_hostname e) (to_string (unat (ep_port e))) of Some results \<Rightarrow> results | None \<Rightarrow> [])"

definition resolve_local :: "resolver \<Rightarrow> endpoint \<Rightarrow> inet_endpoint list" where
  "resolve_local rs e =
    (if ep_hostname e = []
     then (if ep_family e = IPv4 then [(Any_IPv4, ep_port e)]
           else if ep_family e = IPv6 then [(Any_IPv6, ep_port e)]
           else [(Any_IPv4, ep_port e), (Any_IPv6, ep_port e)])
     else (case rs (ep_hostname e) (to_string (unat (ep_port e))) of Some results \<Rightarrow> results | None \<Rightarrow> []))"

end
