(* ===== verification/Tls.thy ===== *)
theory Tls
  imports Properties
begin

text \<open>
  Securing a connection (src/security/tls_provider.cpp, src/security/tls_stream.cpp) and ending a stream
  (src/transport/plain_stream.h). OpenSSL and the socket are outside: what their calls answer is an
  argument (\<open>ssl_library\<close>, \<open>ssl_session\<close>, error codes).
\<close>

section \<open>Helpers\<close>

definition TLS1_2_VERSION :: nat where
  "TLS1_2_VERSION = 0x0303"

definition TLS1_3_VERSION :: nat where
  "TLS1_3_VERSION = 0x0304"

fun openssl_version :: "TLSVersion \<Rightarrow> nat" where
  "openssl_version TLS_1_2 = TLS1_2_VERSION"
| "openssl_version TLS_1_3 = TLS1_3_VERSION"

text \<open>What a C function sees of a \<open>std::string\<close> passed as \<open>c_str()\<close>.\<close>

definition c_str :: "string \<Rightarrow> string" where
  "c_str s = takeWhile (\<lambda>c. c \<noteq> CHR 0x00) s"

definition quoted :: "string \<Rightarrow> string" where
  "quoted s = [CHR 0x27] @ s @ [CHR 0x27]"

definition join :: "string list \<Rightarrow> char \<Rightarrow> string" where
  "join parts sep = foldl (\<lambda>out p. (if out = [] then [] else out @ [sep]) @ p) [] parts"

text \<open>The length-prefixed list of ALPN identifiers; empty if one of them is invalid.\<close>

fun alpn_wire_loop :: "string list \<Rightarrow> string \<Rightarrow> string" where
  "alpn_wire_loop [] wire = wire"
| "alpn_wire_loop (i # ids) wire =
    (if i = [] \<or> length i > 255 then [] else alpn_wire_loop ids (wire @ [char_of (length i)] @ i))"

definition alpn_wire :: "string list \<Rightarrow> string" where
  "alpn_wire ids = alpn_wire_loop ids []"

definition config_fail :: "string \<Rightarrow> 'a result" where
  "config_fail msg = Inl (taps_error ESTABLISHMENT_ERROR INVALID_CONFIGURATION msg)"

section \<open>The provider\<close>

datatype Role = Client | Server

text \<open>What the calls that configure an SSL context answer; \<open>None\<close> is no error.\<close>

record ssl_library =
  ssl_ctx_new :: bool
  ssl_verify_mode :: "error_code option"
  ssl_load_verify_file :: "string \<Rightarrow> error_code option"
  ssl_use_certificate_chain :: "string \<Rightarrow> error_code option"
  ssl_use_private_key :: "string \<Rightarrow> error_code option"
  ssl_set_ciphersuites :: "string \<Rightarrow> bool"
  ssl_set_groups :: "string \<Rightarrow> bool"
  ssl_set_alpn :: "string \<Rightarrow> bool"

text \<open>
  The context: what the calls have set. Like the code, the model does not look at the results of
  \<open>SSL_CTX_set_min_proto_version\<close> and \<open>SSL_CTX_set_max_proto_version\<close>: they are taken to succeed, as is documented
  for the versions that \<open>openssl_version\<close> yields, on a library that supports them.
\<close>

record ssl_context =
  cx_min_version :: nat
  cx_max_version :: nat
  cx_verify_peer :: bool
  cx_anchors :: "string list"
  cx_chain_file :: string
  cx_key_file :: string
  cx_ciphersuites :: "string option"
  cx_groups :: "string option"
  cx_alpn_protos :: string
  cx_alpn_callback :: bool

definition fresh_context :: "security_parameters \<Rightarrow> ssl_context" where
  "fresh_context params =
    \<lparr>cx_min_version = openssl_version (sp_min_tls_version params),
     cx_max_version = openssl_version (sp_max_tls_version params),
     cx_verify_peer = False, cx_anchors = [], cx_chain_file = [], cx_key_file = [], cx_ciphersuites = None,
     cx_groups = None, cx_alpn_protos = [], cx_alpn_callback = False\<rparr>"

record tls_provider =
  tp_context :: ssl_context
  tp_role :: Role
  tp_required_alpn :: "string list"
  tp_alpn_wire :: string

definition make_provider :: "ssl_context \<Rightarrow> Role \<Rightarrow> string list \<Rightarrow> tls_provider" where
  "make_provider ctx role required =
    \<lparr>tp_context = ctx, tp_role = role, tp_required_alpn = required, tp_alpn_wire = []\<rparr>"

fun load_anchors :: "(string \<Rightarrow> error_code option) \<Rightarrow> string list \<Rightarrow> ssl_context \<Rightarrow> ssl_context result" where
  "load_anchors load [] ctx = Inr ctx"
| "load_anchors load (path # paths) ctx =
    (case load path of
       Some ec \<Rightarrow> config_fail (''cannot load trust anchor '' @ quoted path @ '': '' @ ec_message ec)
     | None \<Rightarrow> load_anchors load paths (ctx\<lparr>cx_anchors := cx_anchors ctx @ [path]\<rparr>))"

definition client_setup :: "ssl_library \<Rightarrow> security_parameters \<Rightarrow> ssl_context \<Rightarrow> ssl_context result" where
  "client_setup ssl params ctx =
    (case ssl_verify_mode ssl of
       Some ec \<Rightarrow> config_fail (''set_verify_mode: '' @ ec_message ec)
     | None \<Rightarrow>
         if sp_trust_anchors params = []
         then config_fail ''no trust anchor set (add_trust_anchor is required with verify_peer)''
         else load_anchors (ssl_load_verify_file ssl) (sp_trust_anchors params) (ctx\<lparr>cx_verify_peer := True\<rparr>))"

definition server_setup :: "ssl_library \<Rightarrow> security_parameters \<Rightarrow> ssl_context \<Rightarrow> ssl_context result" where
  "server_setup ssl params ctx =
    (let chain = sp_certificate_chain_file params; key = sp_private_key_file params
     in if chain = [] \<or> key = []
        then config_fail ''server TLS needs set_certificate_chain_file and set_private_key_file''
        else
          (case ssl_use_certificate_chain ssl chain of
             Some ec \<Rightarrow> config_fail (''cannot load certificate chain '' @ quoted chain @ '': '' @ ec_message ec)
           | None \<Rightarrow>
               (case ssl_use_private_key ssl key of
                  Some ec \<Rightarrow> config_fail (''cannot load private key '' @ quoted key @ '': '' @ ec_message ec)
                | None \<Rightarrow> Inr (ctx\<lparr>cx_chain_file := chain, cx_key_file := key\<rparr>))))"

definition cipher_setup :: "ssl_library \<Rightarrow> security_parameters \<Rightarrow> ssl_context \<Rightarrow> ssl_context result" where
  "cipher_setup ssl params ctx =
    (if sp_ciphersuites params = [] then Inr ctx
     else
       (let l = join (sp_ciphersuites params) CHR '':''
        in if ssl_set_ciphersuites ssl (c_str l) then Inr (ctx\<lparr>cx_ciphersuites := Some (c_str l)\<rparr>)
           else config_fail (''unknown TLS 1.3 cipher suite in '' @ quoted l)))"

definition group_setup :: "ssl_library \<Rightarrow> security_parameters \<Rightarrow> ssl_context \<Rightarrow> ssl_context result" where
  "group_setup ssl params ctx =
    (if sp_supported_groups params = [] then Inr ctx
     else
       (let l = join (sp_supported_groups params) CHR '':''
        in if ssl_set_groups ssl (c_str l) then Inr (ctx\<lparr>cx_groups := Some (c_str l)\<rparr>)
           else config_fail (''unknown supported group in '' @ quoted l)))"

text \<open>The rest of \<open>create\<close>: the ALPN list of a client, or the callback of a server.\<close>

definition alpn_setup :: "ssl_library \<Rightarrow> security_parameters \<Rightarrow> Role \<Rightarrow> ssl_context \<Rightarrow> tls_provider result" where
  "alpn_setup ssl params role ctx =
    (if sp_alpn params = [] then Inr (make_provider ctx role [])
     else
       (let wire = alpn_wire (sp_alpn params)
        in if wire = [] then config_fail ''invalid ALPN id''
           else if role = Client
           then (if ssl_set_alpn ssl wire
                 then Inr (make_provider (ctx\<lparr>cx_alpn_protos := wire\<rparr>) role (sp_alpn params))
                 else config_fail ''failed to set ALPN list'')
           else Inr ((make_provider (ctx\<lparr>cx_alpn_callback := True\<rparr>) role (sp_alpn params))
                      \<lparr>tp_alpn_wire := wire\<rparr>)))"

definition create_provider :: "ssl_library \<Rightarrow> security_parameters \<Rightarrow> Role \<Rightarrow> tls_provider result" where
  "create_provider ssl params role =
    (if \<not> ssl_ctx_new ssl then config_fail ''SSL_CTX_new failed''
     else
       (case (if role = Client then client_setup ssl params (fresh_context params)
              else server_setup ssl params (fresh_context params)) of
          Inl e \<Rightarrow> Inl e
        | Inr ctx1 \<Rightarrow>
            (case cipher_setup ssl params ctx1 of
               Inl e \<Rightarrow> Inl e
             | Inr ctx2 \<Rightarrow>
                 (case group_setup ssl params ctx2 of
                    Inl e \<Rightarrow> Inl e
                  | Inr ctx3 \<Rightarrow> alpn_setup ssl params role ctx3))))"

text \<open>
  The callback of a server: \<open>SSL_select_next_proto\<close> is an argument that answers the server's and the
  client's list with the protocol it negotiated, or \<open>None\<close> when it did not (the fatal alert).
\<close>

definition alpn_select_cb ::
  "(string \<Rightarrow> string \<Rightarrow> string option) \<Rightarrow> tls_provider \<Rightarrow> string \<Rightarrow> string option" where
  "alpn_select_cb select p offered = select (tp_alpn_wire p) offered"

section \<open>The handshake\<close>

text \<open>What the calls on one session answer. \<open>ss_alpn\<close> is what the peer selected, if anything.\<close>

record ssl_session =
  ss_set_sni :: bool
  ss_set_verify :: "error_code option"
  ss_handshake :: "error_code option"
  ss_alpn :: "string option"
  ss_version :: "string option"
  ss_cipher :: "string option"
  ss_group :: "string option"

text \<open>A secured stream: the name sent to the peer and the one its certificate is checked against.\<close>

record tls_stream =
  ts_context :: ssl_context
  ts_sni :: "string option"
  ts_verify_host :: "string option"
  ts_session :: ssl_session

definition make_tls_stream :: "ssl_context \<Rightarrow> ssl_session \<Rightarrow> tls_stream" where
  "make_tls_stream ctx ss = \<lparr>ts_context = ctx, ts_sni = None, ts_verify_host = None, ts_session = ss\<rparr>"

definition handshake_failed :: "error_code \<Rightarrow> TAPSError" where
  "handshake_failed ec =
    taps_error ESTABLISHMENT_ERROR ESTABLISHMENT_FAILED (''TLS handshake failed: '' @ ec_message ec)"

definition handshake_client :: "string \<Rightarrow> tls_stream \<Rightarrow> tls_stream result" where
  "handshake_client server_name st =
    (let ss = ts_session st;
         named = (if server_name = [] then Inr st
                  else if \<not> ss_set_sni ss
                  then Inl (taps_error ESTABLISHMENT_ERROR INTERNAL_ERROR ''failed to set TLS SNI host name'')
                  else (case ss_set_verify ss of
                          Some ec \<Rightarrow> Inl (taps_error ESTABLISHMENT_ERROR INTERNAL_ERROR
                                           (''set_verify_callback: '' @ ec_message ec))
                        | None \<Rightarrow> Inr (st\<lparr>ts_sni := Some (c_str server_name),
                                          ts_verify_host := Some server_name\<rparr>)))
     in case named of
          Inl e \<Rightarrow> Inl e
        | Inr st1 \<Rightarrow> (case ss_handshake ss of Some ec \<Rightarrow> Inl (handshake_failed ec) | None \<Rightarrow> Inr st1))"

definition handshake_server :: "tls_stream \<Rightarrow> tls_stream result" where
  "handshake_server st =
    (case ss_handshake (ts_session st) of Some ec \<Rightarrow> Inl (handshake_failed ec) | None \<Rightarrow> Inr st)"

definition negotiated_alpn :: "tls_stream \<Rightarrow> string" where
  "negotiated_alpn st = (case ss_alpn (ts_session st) of None \<Rightarrow> [] | Some proto \<Rightarrow> proto)"

definition secure :: "tls_provider \<Rightarrow> ssl_session \<Rightarrow> string \<Rightarrow> tls_stream result" where
  "secure p ss server_name =
    (let st = make_tls_stream (tp_context p) ss
     in if tp_role p = Client
        then
          (case handshake_client server_name st of
             Inl e \<Rightarrow> Inl e
           | Inr st1 \<Rightarrow>
               if tp_required_alpn p \<noteq> [] \<and> \<not> list_ex (\<lambda>a. a = negotiated_alpn st1) (tp_required_alpn p)
               then Inl (taps_error ESTABLISHMENT_ERROR ESTABLISHMENT_FAILED
                          (''ALPN mismatch: server selected '' @ quoted (negotiated_alpn st1)))
               else Inr st1)
        else handshake_server st)"

record SecurityInfo =
  si_tls_version :: string
  si_cipher :: string
  si_group :: string
  si_alpn :: string
  si_openssl_version :: string

definition security_info :: "string \<Rightarrow> tls_stream \<Rightarrow> SecurityInfo" where
  "security_info library_version st =
    (let ss = ts_session st; or_empty = (\<lambda>x. case x of None \<Rightarrow> [] | Some s \<Rightarrow> s)
     in \<lparr>si_tls_version = or_empty (ss_version ss), si_cipher = or_empty (ss_cipher ss),
         si_group = or_empty (ss_group ss), si_alpn = negotiated_alpn st,
         si_openssl_version = library_version\<rparr>)"

section \<open>Ending a stream\<close>

text \<open>
  \<open>drain_until_eof\<close> over the completions of its reads; \<open>None\<close> means that it still waits for one.
\<close>

fun drain_until_eof :: "error_code option list \<Rightarrow> unit result option" where
  "drain_until_eof [] = None"
| "drain_until_eof (None # reads) = drain_until_eof reads"
| "drain_until_eof (Some ec # reads) =
    (if ec_value ec = EC_eof then Some (Inr ()) else Some (Inl (io_error CONNECTION_ERROR ec)))"

definition plain_shutdown :: "error_code option \<Rightarrow> error_code option list \<Rightarrow> unit result option" where
  "plain_shutdown ec reads =
    (case ec of Some e \<Rightarrow> Some (Inl (io_error CONNECTION_ERROR e)) | None \<Rightarrow> drain_until_eof reads)"

definition tls_shutdown :: "error_code option \<Rightarrow> error_code option list \<Rightarrow> unit result option" where
  "tls_shutdown ec reads =
    (case ec of
       None \<Rightarrow> Some (Inr ())
     | Some e \<Rightarrow>
         if ec_value e = EC_eof \<or> ec_value e = EC_stream_truncated then Some (Inr ())
         else if ec_value e = EC_data_after_close_notify then drain_until_eof reads
         else Some (Inl (io_error CONNECTION_ERROR e)))"

datatype byte_stream = PlainStream | TlsStream tls_stream

definition stream_shutdown :: "byte_stream \<Rightarrow> error_code option \<Rightarrow> error_code option list \<Rightarrow> unit result option" where
  "stream_shutdown st ec reads =
    (case st of PlainStream \<Rightarrow> plain_shutdown ec reads | TlsStream _ \<Rightarrow> tls_shutdown ec reads)"

text \<open>A library that accepts everything, for concrete runs.\<close>

definition quiet_ssl :: ssl_library where
  "quiet_ssl =
    \<lparr>ssl_ctx_new = True, ssl_verify_mode = None, ssl_load_verify_file = (\<lambda>_. None),
     ssl_use_certificate_chain = (\<lambda>_. None), ssl_use_private_key = (\<lambda>_. None),
     ssl_set_ciphersuites = (\<lambda>_. True), ssl_set_groups = (\<lambda>_. True), ssl_set_alpn = (\<lambda>_. True)\<rparr>"

section \<open>What the provider guarantees\<close>

lemma load_anchors_loaded:
  "load_anchors load paths ctx = Inr ctx' \<Longrightarrow> ctx' = ctx\<lparr>cx_anchors := cx_anchors ctx @ paths\<rparr>"
  by (induction paths arbitrary: ctx) (force simp: config_fail_def split: option.splits)+

lemma load_anchors_error:
  "load_anchors load paths ctx = Inl e \<Longrightarrow>
    err_event e = ESTABLISHMENT_ERROR \<and> err_reason e = INVALID_CONFIGURATION"
  by (induction paths arbitrary: ctx) (auto simp: config_fail_def split: option.splits)

lemmas provider_defs =
  create_provider_def client_setup_def server_setup_def cipher_setup_def group_setup_def alpn_setup_def
  config_fail_def make_provider_def fresh_context_def Let_def

lemma create_provider_error:
  assumes "create_provider ssl params role = Inl e"
  shows "err_event e = ESTABLISHMENT_ERROR \<and> err_reason e = INVALID_CONFIGURATION"
  using assms
  by (auto simp: provider_defs split: if_splits sum.splits option.splits dest: load_anchors_error)

lemma create_client:
  assumes "create_provider ssl params Client = Inr p"
  shows "tp_role p = Client \<and> tp_required_alpn p = sp_alpn params \<and> cx_verify_peer (tp_context p) \<and>
    cx_anchors (tp_context p) = sp_trust_anchors params \<and> sp_trust_anchors params \<noteq> [] \<and>
    cx_min_version (tp_context p) = openssl_version (sp_min_tls_version params) \<and>
    cx_max_version (tp_context p) = openssl_version (sp_max_tls_version params) \<and>
    cx_alpn_protos (tp_context p) = alpn_wire (sp_alpn params)"
  using assms
  by (auto simp: provider_defs alpn_wire_def split: if_splits sum.splits option.splits dest!: load_anchors_loaded)

lemma create_server:
  assumes "create_provider ssl params Server = Inr p"
  shows "tp_role p = Server \<and> tp_required_alpn p = sp_alpn params \<and>
    cx_chain_file (tp_context p) = sp_certificate_chain_file params \<and> sp_certificate_chain_file params \<noteq> [] \<and>
    cx_key_file (tp_context p) = sp_private_key_file params \<and> sp_private_key_file params \<noteq> [] \<and>
    cx_min_version (tp_context p) = openssl_version (sp_min_tls_version params) \<and>
    cx_max_version (tp_context p) = openssl_version (sp_max_tls_version params) \<and>
    tp_alpn_wire p = alpn_wire (sp_alpn params) \<and> (cx_alpn_callback (tp_context p) \<longleftrightarrow> sp_alpn params \<noteq> [])"
  using assms
  by (auto simp: provider_defs alpn_wire_def split: if_splits sum.splits option.splits)

lemma secure_client:
  assumes "secure p ss name = Inr st" and "tp_role p = Client"
  shows "ts_context st = tp_context p \<and> ss_handshake (ts_session st) = None \<and> ts_session st = ss \<and>
    ts_verify_host st = (if name = [] then None else Some name) \<and>
    (tp_required_alpn p \<noteq> [] \<longrightarrow> negotiated_alpn st \<in> set (tp_required_alpn p))"
  using assms
  by (auto simp: secure_def handshake_client_def make_tls_stream_def Let_def list_ex_iff
      split: if_splits sum.splits option.splits)

lemma secure_error:
  assumes "secure p ss name = Inl e"
  shows "err_event e = ESTABLISHMENT_ERROR"
  using assms
  by (auto simp: secure_def handshake_client_def handshake_server_def handshake_failed_def Let_def
      split: if_splits sum.splits option.splits)

section \<open>The wire form of an ALPN list\<close>

text \<open>The decoding of RFC 7301, which the peer applies to the list: length-prefixed names.\<close>

fun alpn_names :: "string \<Rightarrow> string list option" where
  "alpn_names [] = Some []"
| "alpn_names (c # rest) =
    (let n = of_char c :: nat
     in if n = 0 \<or> length rest < n then None
        else map_option ((#) (take n rest)) (alpn_names (drop n rest)))"

definition alpn_id_ok :: "string \<Rightarrow> bool" where
  "alpn_id_ok i \<longleftrightarrow> i \<noteq> [] \<and> length i \<le> 255"

lemma alpn_wire_loop_valid:
  "list_all alpn_id_ok ids \<Longrightarrow>
    alpn_wire_loop ids wire = wire @ concat (map (\<lambda>i. char_of (length i) # i) ids)"
  by (induction ids arbitrary: wire) (auto simp: alpn_id_ok_def)

lemma alpn_wire_loop_invalid: "\<not> list_all alpn_id_ok ids \<Longrightarrow> alpn_wire_loop ids wire = []"
  by (induction ids arbitrary: wire) (auto simp: alpn_id_ok_def)

lemma alpn_names_encoded:
  "list_all alpn_id_ok ids \<Longrightarrow> alpn_names (concat (map (\<lambda>i. char_of (length i) # i) ids)) = Some ids"
proof (induction ids)
  case (Cons i ids)
  have "of_char (char_of (length i) :: char) = length i"
    using Cons.prems by (simp add: alpn_id_ok_def)
  then show ?case
    using Cons by (simp add: alpn_id_ok_def Let_def)
qed simp

text \<open>
  C33. What a client offers is what the server's TLS reads. If every ALPN identifier has 1 to 255
  characters, decoding the wire form gives the identifiers back, in order; if one has not, \<open>alpn_wire\<close> is
  empty, and creating a provider with such a list is an error in either role.
\<close>

theorem alpn_wire_roundtrip:
  "(if list_all alpn_id_ok ids then alpn_names (alpn_wire ids) = Some ids else alpn_wire ids = []) \<and>
   (\<not> list_all alpn_id_ok ids \<longrightarrow> sp_alpn params = ids \<longrightarrow>
     (\<exists>e. create_provider ssl params role = Inl e \<and> err_event e = ESTABLISHMENT_ERROR \<and>
          err_reason e = INVALID_CONFIGURATION))"
proof -
  have "\<exists>e. create_provider ssl params role = Inl e" if "\<not> list_all alpn_id_ok ids" "sp_alpn params = ids"
  proof -
    have "alpn_wire ids = []" "ids \<noteq> []"
      using that by (auto simp: alpn_wire_def alpn_wire_loop_invalid)
    then have "\<exists>e. alpn_setup ssl params role ctx = Inl e" for ctx
      using that(2) by (simp add: alpn_setup_def config_fail_def)
    then show ?thesis
      by (auto simp: create_provider_def config_fail_def split: sum.splits)
  qed
  then show ?thesis
    by (auto simp: alpn_wire_def alpn_wire_loop_valid alpn_names_encoded alpn_wire_loop_invalid
        dest: create_provider_error)
qed

theorem alpn_wire_roundtrip_witness:
  "alpn_names (alpn_wire [''h2'', ''http/1.1'']) = Some [''h2'', ''http/1.1''] \<and> alpn_wire [''h2'', []] = [] \<and>
   (\<exists>e. create_provider quiet_ssl (default_security\<lparr>sp_alpn := [''h2'', []]\<rparr>) Server = Inl e \<and>
     err_reason e = INVALID_CONFIGURATION)"
proof -
  have ok: "list_all alpn_id_ok [''h2'', ''http/1.1'']" "\<not> list_all alpn_id_ok [''h2'', []]"
    by (simp_all add: alpn_id_ok_def)
  show ?thesis
    using alpn_wire_roundtrip [of "[''h2'', ''http/1.1'']"]
      alpn_wire_roundtrip [of "[''h2'', []]" "default_security\<lparr>sp_alpn := [''h2'', []]\<rparr>" quiet_ssl Server] ok
    by auto
qed

end
