(* ===== verification/Tcp.thy ===== *)
theory Tcp
  imports Messages Framer Tls
begin

text \<open>
  TCP connections (class \<open>TCPConnection\<close>, src/TCPConnection.cpp).

  A coroutine runs until it waits for the socket and goes on when the operation completes; each
  stretch between two waits is one definition here. The socket and the peer are outside: what an
  operation completes with is an argument (\<open>read_event\<close>, error codes). The stream behind the connection
  is a plain socket or TLS; the build option TAPS_WITH_TLS is the parameter \<open>with_tls\<close>.

  An exception \<open>std::bad_alloc\<close> of the memory resource leaves \<open>receive()\<close>: it is the outcome \<open>Thrown\<close>.

  A framer is the pair of its functions; framers that keep a state of their own between calls (the two
  of the library do not) are not modelled.
\<close>

section \<open>State\<close>

record framer =
  fr_parse :: "cursor \<Rightarrow> bool \<Rightarrow> parse_result"
  fr_write_header :: "byte list \<Rightarrow> byte list"
  fr_max_header :: nat

definition lp_framer_of :: "endian \<Rightarrow> lp_framer \<Rightarrow> framer" where
  "lp_framer_of native f =
    \<lparr>fr_parse = lp_parse native f, fr_write_header = (\<lambda>m. lp_write_header native f (length m)),
     fr_max_header = lp_field_size f\<rparr>"

definition pass_framer_of :: "bool \<Rightarrow> framer" where
  "pass_framer_of g =
    \<lparr>fr_parse = pass_parse g, fr_write_header = (\<lambda>m. pass_write_header (length m)), fr_max_header = 0\<rparr>"

type_synonym socket_address = "string \<times> u16"

record tcp_conn =
  tc_state :: ConnectionState
  tc_framer :: "framer option"
  tc_pool :: pool
  tc_chain :: chain
  tc_current :: block_ref
  tc_eof :: bool
  tc_ended :: bool
  tc_message_open :: bool
  tc_aborted :: bool
  tc_socket_open :: bool
  tc_cached_remote :: "socket_address option"
  tc_cached_local :: "socket_address option"
  tc_stream :: byte_stream

text \<open>
  The two constructors: for a connection to be initiated, and for an accepted socket, whose endpoints
  are read, the remote one first, until one of them fails (\<open>None\<close>).
\<close>

definition make_tcp :: "pool \<Rightarrow> tcp_conn" where
  "make_tcp p =
    \<lparr>tc_state = ESTABLISHING, tc_framer = None, tc_pool = p, tc_chain = empty_chain, tc_current = ref_null,
     tc_eof = False, tc_ended = False, tc_message_open = False, tc_aborted = False, tc_socket_open = False,
     tc_cached_remote = None, tc_cached_local = None, tc_stream = PlainStream\<rparr>"

definition make_accepted :: "pool \<Rightarrow> socket_address option \<Rightarrow> socket_address option \<Rightarrow> tcp_conn" where
  "make_accepted p remote local =
    (make_tcp p)\<lparr>tc_state := ESTABLISHED, tc_socket_open := True, tc_cached_remote := remote,
                tc_cached_local := (if remote = None then None else local)\<rparr>"

definition set_framer :: "framer \<Rightarrow> tcp_conn \<Rightarrow> tcp_conn" where
  "set_framer f c = c\<lparr>tc_framer := Some f\<rparr>"

section \<open>Establishing and closing\<close>

text \<open>
  \<open>connect()\<close>: what it answers at once, or what it does when \<open>async_connect\<close> completes. The argument says
  which of connecting, reading the remote and reading the local endpoint failed, if any (reading the
  endpoints of a closed socket does).
\<close>

definition connect_refused :: "tcp_conn \<Rightarrow> TAPSError option" where
  "connect_refused c =
    (if tc_state c \<noteq> ESTABLISHING
     then Some (taps_error ESTABLISHMENT_ERROR INVALID_STATE ''Connection not in establishing state'')
     else None)"

definition connect_done ::
  "string + socket_address \<times> (string + socket_address) \<Rightarrow> tcp_conn \<Rightarrow> unit result \<times> tcp_conn" where
  "connect_done completion c =
    (let failed = (\<lambda>what. Inl (taps_error ESTABLISHMENT_ERROR ESTABLISHMENT_FAILED what))
     in case completion of
          Inl what \<Rightarrow> (failed what, c\<lparr>tc_state := CLOSED\<rparr>)
        | Inr (remote, Inl what) \<Rightarrow> (failed what, c\<lparr>tc_cached_remote := Some remote, tc_state := CLOSED\<rparr>)
        | Inr (remote, Inr local) \<Rightarrow>
            (Inr (), c\<lparr>tc_socket_open := True, tc_cached_remote := Some remote, tc_cached_local := Some local,
                       tc_state := ESTABLISHED\<rparr>))"

definition apply_security_done :: "tls_stream result \<Rightarrow> tcp_conn \<Rightarrow> unit result \<times> tcp_conn" where
  "apply_security_done secured c =
    (case secured of
       Inl e \<Rightarrow> (Inl e, c\<lparr>tc_state := CLOSED\<rparr>)
     | Inr st \<Rightarrow> (Inr (), c\<lparr>tc_stream := TlsStream st\<rparr>))"

definition tcp_security_info :: "string \<Rightarrow> tcp_conn \<Rightarrow> SecurityInfo option" where
  "tcp_security_info library_version c =
    (case tc_stream c of PlainStream \<Rightarrow> None | TlsStream st \<Rightarrow> Some (security_info library_version st))"

text \<open>
  \<open>close()\<close>: \<open>None\<close> means that it now waits for the stream's shutdown; \<open>close_done\<close> is the rest, with the
  result of the shutdown and the error of closing the socket, if any.
\<close>

definition close_start :: "tcp_conn \<Rightarrow> unit result option \<times> tcp_conn" where
  "close_start c =
    (if tc_state c = CLOSED \<or> tc_state c = CLOSING then (Some (Inr ()), c)
     else (None, c\<lparr>tc_state := CLOSING\<rparr>))"

definition close_done :: "unit result \<Rightarrow> error_code option \<Rightarrow> tcp_conn \<Rightarrow> unit result \<times> tcp_conn" where
  "close_done sd ec c =
    (let c1 = c\<lparr>tc_socket_open := False, tc_state := CLOSED\<rparr>
     in case sd of
          Inl e \<Rightarrow> (Inl e, c1)
        | Inr _ \<Rightarrow>
            (case ec of
               Some e \<Rightarrow> (Inl (taps_error CONNECTION_ERROR INTERNAL_ERROR (ec_message e)), c1)
             | None \<Rightarrow> (Inr (), c1)))"

definition tcp_abort :: "error_code option \<Rightarrow> tcp_conn \<Rightarrow> unit result \<times> tcp_conn" where
  "tcp_abort ec c =
    (let c1 = c\<lparr>tc_aborted := True, tc_socket_open := False, tc_state := CLOSED\<rparr>
     in case ec of
          Some e \<Rightarrow> (Inl (taps_error CONNECTION_ERROR INTERNAL_ERROR (ec_message e)), c1)
        | None \<Rightarrow> (Inr (), c1))"

definition get_remote_endpoint :: "tcp_conn \<Rightarrow> socket_address" where
  "get_remote_endpoint c = (case tc_cached_remote c of Some e \<Rightarrow> e | None \<Rightarrow> ([], 0))"

definition get_local_endpoint :: "tcp_conn \<Rightarrow> socket_address" where
  "get_local_endpoint c = (case tc_cached_local c of Some e \<Rightarrow> e | None \<Rightarrow> ([], 0))"

definition can_receive :: "tcp_conn \<Rightarrow> bool" where
  "can_receive c = (tc_state c = ESTABLISHED \<and> \<not> tc_ended c)"

definition can_send :: "tcp_conn \<Rightarrow> bool" where
  "can_send c = (tc_state c = ESTABLISHED)"

section \<open>Sending\<close>

text \<open>
  \<open>send(message)\<close>: refused, or the buffers handed to the socket's write; \<open>send_done\<close> is what follows
  its completion. The header is written to an array of 64 bytes.
\<close>

definition framing_header :: "framer option \<Rightarrow> heap \<Rightarrow> message \<Rightarrow> byte list" where
  "framing_header f h m = (case f of None \<Rightarrow> [] | Some fr \<Rightarrow> fr_write_header fr (message_bytes h m))"

definition send_start :: "heap \<Rightarrow> message \<Rightarrow> tcp_conn \<Rightarrow> TAPSError + buffer_seq" where
  "send_start h m c =
    (if tc_state c \<noteq> ESTABLISHED
     then Inl (taps_error SEND_ERROR INVALID_STATE ''Connection not established'')
     else Inr (seq_of_message h (framing_header (tc_framer c) h m) m))"

definition send_done :: "error_code option \<Rightarrow> tcp_conn \<Rightarrow> unit result \<times> tcp_conn" where
  "send_done ec c =
    (case ec of
       None \<Rightarrow> (Inr (), c)
     | Some e \<Rightarrow>
         if ec_value e = EC_operation_aborted \<and> \<not> tc_aborted c
         then (Inl (taps_error SEND_ERROR INVALID_STATE ''Connection closed locally''), c)
         else (Inl (io_error CONNECTION_ERROR e), c\<lparr>tc_state := CLOSED\<rparr>))"

section \<open>Reading from the socket\<close>

text \<open>What a read completes with: bytes, placed where the connection asked for them, or an error.\<close>

datatype read_event = Data "byte list" | Failed error_code

type_synonym tcp = "heap \<times> tcp_conn"

definition reuse_threshold :: "tcp_conn \<Rightarrow> nat" where
  "reuse_threshold c = pool_block_size (tc_pool c) div 4"

datatype 'a outcome_of = Returned 'a | Thrown

text \<open>
  \<open>start_read()\<close>: makes sure that \<open>current_block_\<close> has room, and offers the buffer behind its window. The
  result is the size of that buffer.
\<close>

definition start_read :: "tcp \<Rightarrow> nat result outcome_of \<times> tcp" where
  "start_read s =
    (case s of (h, c) \<Rightarrow>
      if \<not> ref_valid (tc_current c) \<or> capacity_after_begin h (tc_current c) < reuse_threshold c
      then
        (case acquire (tc_pool c) h of
           (None, h1) \<Rightarrow> (Thrown, h1, c)
         | (Some r, h1) \<Rightarrow>
             (case ref_assign_move (tc_current c) r h1 of
                (cur, left, h2) \<Rightarrow>
                  (let h3 = ref_drop left h2; c1 = c\<lparr>tc_current := cur\<rparr>
                   in if \<not> ref_valid cur
                      then (Returned (Inl (taps_error RECEIVE_ERROR RESOURCE_EXHAUSTED
                                             ''receive block pool exhausted'')), h3, c1)
                      else (Returned (Inr (capacity_after_begin h3 cur)), h3, c1))))
      else (Returned (Inr (capacity_after_begin h (tc_current c))), h, c))"

text \<open>
  \<open>finish_read(ec, n)\<close>, after the socket has stored the bytes of \<open>Data\<close> in the buffer: a handle on what
  arrived (an invalid one at the end of the stream), or the error.
\<close>

definition finish_read :: "bool \<Rightarrow> read_event \<Rightarrow> tcp \<Rightarrow> block_ref result \<times> tcp" where
  "finish_read with_tls ev s =
    (case s of (h, c) \<Rightarrow>
      (case ev of
         Failed ec \<Rightarrow>
           if ec_value ec = EC_eof then (Inr ref_null, h, c\<lparr>tc_eof := True\<rparr>)
           else
             (let error = read_failure with_tls ec
              in (Inl error, h, if err_event error = RECEIVE_ERROR then c\<lparr>tc_eof := True\<rparr> else c))
       | Data bytes \<Rightarrow>
           (let b = the (br_blk (tc_current c)); begin' = br_begin (tc_current c); n = length bytes;
                h1 = fill_block b begin' bytes h
            in case ref_make b begin' (begin' + n) h1 of
                 (delivered, h2) \<Rightarrow>
                   (let cur = set_range (begin' + n) (begin' + n) (tc_current c)
                    in if capacity_after_begin h2 cur < reuse_threshold c
                       then (case ref_reset cur h2 of
                               (cur', h3) \<Rightarrow> (Inr delivered, h3, c\<lparr>tc_current := cur'\<rparr>))
                       else (Inr delivered, h2, c\<lparr>tc_current := cur\<rparr>)))))"

definition receive_failure :: "TAPSError \<Rightarrow> tcp_conn \<Rightarrow> TAPSError \<times> tcp_conn" where
  "receive_failure error c =
    (let error1 = (if err_reason error = LOCAL_ABORT \<and> \<not> tc_aborted c
                   then taps_error RECEIVE_ERROR INVALID_STATE ''Connection closed locally'' else error)
     in (error1,
         if err_event error1 = CONNECTION_ERROR then c\<lparr>tc_state := CLOSED\<rparr>
         else if tc_eof c then c\<lparr>tc_ended := True\<rparr> else c))"

definition receive_refused :: "tcp_conn \<Rightarrow> TAPSError option" where
  "receive_refused c =
    (if can_receive c then None
     else Some (taps_error RECEIVE_ERROR INVALID_STATE
                 (if tc_ended c then ''the stream has ended: no more Messages''
                  else ''Connection not established'')))"

section \<open>Receiving\<close>

text \<open>
  How far \<open>receive()\<close> has come: it has a result, it waits for a read into a buffer of the given size, or
  an exception has left it.
\<close>

datatype receiving = Done "message result" | Reading nat | Raised

definition fail_with :: "TAPSError \<Rightarrow> tcp \<Rightarrow> receiving \<times> tcp" where
  "fail_with e s = (case s of (h, c) \<Rightarrow> (case receive_failure e c of (e1, c1) \<Rightarrow> (Done (Inl e1), h, c1)))"

definition await_read :: "tcp \<Rightarrow> receiving \<times> tcp" where
  "await_read s =
    (case start_read s of
       (Thrown, s1) \<Rightarrow> (Raised, s1)
     | (Returned (Inl e), s1) \<Rightarrow> fail_with e s1
     | (Returned (Inr n), s1) \<Rightarrow> (Reading n, s1))"

text \<open>\<open>chain->consume_front\<close> on the receive chain (which always returns, by \<open>consume_front_correct\<close>).\<close>

definition drop_received :: "nat \<Rightarrow> tcp \<Rightarrow> tcp" where
  "drop_received n s =
    (case s of (h, c) \<Rightarrow>
      (case consume_front n (h, tc_chain c) of
         None \<Rightarrow> (h\<lparr>h_fault := True\<rparr>, c)
       | Some (h1, ch) \<Rightarrow> (h1, c\<lparr>tc_chain := ch\<rparr>)))"

text \<open>The gathered copy, made at once when the framer asks for it; its exception destroys the message.\<close>

definition gather_if :: "bool \<Rightarrow> message \<Rightarrow> tcp \<Rightarrow> receiving \<times> tcp" where
  "gather_if g m s =
    (case s of (h, c) \<Rightarrow>
      if g
      then (case as_bytes (h, m) of
              (None, h1, m1) \<Rightarrow> (Raised, message_destroy (h1, m1), c)
            | (Some _, h1, m1) \<Rightarrow> (Done (Inr m1), h1, c))
      else (Done (Inr m), h, c))"

text \<open>The record the framer emitted, as a message; the exceptions of \<open>first\<close>, \<open>make_chain\<close> and the
  gathering leave what has been consumed so far consumed.\<close>

definition deliver_record :: "parse_result \<Rightarrow> tcp \<Rightarrow> receiving \<times> tcp" where
  "deliver_record pr s =
    (let s1 = (if pr_discard_before pr > 0 then drop_received (unat (pr_discard_before pr)) s else s)
     in case s1 of (h1, c1) \<Rightarrow>
       (case chain_first (unat (pr_deliver pr)) (h1, tc_chain c1) of
          (h2, None) \<Rightarrow> (Raised, h2, c1)
        | (h2, Some tmp) \<Rightarrow>
            (case make_chain (pool_resource (tc_pool c1)) (h2, tmp) of
               (h3, None) \<Rightarrow> (Raised, h3, c1)
             | (h3, Some ch) \<Rightarrow>
                 (case drop_received (unat (pr_deliver pr)) (h3, c1) of
                    (h4, c4) \<Rightarrow>
                      gather_if (pr_gather pr)
                        (message_of_chain (pool_resource (tc_pool c1), ch) default_context (pr_end_of_message pr))
                        (h4, c4\<lparr>tc_message_open := \<not> pr_end_of_message pr\<rparr>)))))"

definition empty_message :: "bool \<Rightarrow> tcp \<Rightarrow> receiving \<times> tcp" where
  "empty_message eom s =
    (case s of (h, c) \<Rightarrow>
      (case make_chain (pool_resource (tc_pool c)) (h, empty_chain) of
         (h1, None) \<Rightarrow> (Raised, h1, c)
       | (h1, Some ch) \<Rightarrow>
           (Done (Inr (message_of_chain (pool_resource (tc_pool c), ch) default_context eom)), h1, c)))"

text \<open>One turn of the loop of \<open>receive_framed()\<close>, up to its result or its wait.\<close>

definition framed_turn :: "framer \<Rightarrow> tcp \<Rightarrow> receiving \<times> tcp" where
  "framed_turn f s =
    (case s of (h, c) \<Rightarrow>
      (let pr = fr_parse f (h, tc_chain c) (tc_eof c)
       in if pr_action pr = Emit
          then
            (let consumed = pr_discard_before pr + pr_deliver pr
             in if consumed = 0 \<or> unat consumed > ch_size (tc_chain c)
                then fail_with (taps_error RECEIVE_ERROR DEFRAMING_FAILED
                       (if consumed = 0 then ''Message Framer emitted a record that consumes no data''
                        else ''Message Framer emitted a record beyond the received data'')) s
                else deliver_record pr s)
          else if tc_eof c
          then
            (let unparsed = ch_size (tc_chain c)
             in if tc_message_open c \<or> unparsed > 0
                then
                  (let what = (if tc_message_open c then ''stream ended before the end of the Message''
                               else ''stream ended with '' @ to_string unparsed @
                                    '' bytes the Message Framer could not parse'')
                   in case drop_received unparsed s of
                        (h1, c1) \<Rightarrow>
                          fail_with (taps_error RECEIVE_ERROR DEFRAMING_FAILED what)
                            (h1, c1\<lparr>tc_message_open := False\<rparr>))
                else empty_message True (h, c\<lparr>tc_ended := True\<rparr>))
          else await_read s))"

text \<open>What \<open>receive_framed()\<close> does when its read completes.\<close>

definition framed_resume :: "bool \<Rightarrow> framer \<Rightarrow> read_event \<Rightarrow> tcp \<Rightarrow> receiving \<times> tcp" where
  "framed_resume with_tls f ev s =
    (case finish_read with_tls ev s of
       (Inl e, s1) \<Rightarrow> fail_with e s1
     | (Inr chunk, h1, c1) \<Rightarrow>
         if ref_valid chunk
         then (case chain_append chunk (h1, tc_chain c1) of
                 (False, h2, ch) \<Rightarrow> (Raised, h2, c1\<lparr>tc_chain := ch\<rparr>)
               | (True, h2, ch) \<Rightarrow> framed_turn f (h2, c1\<lparr>tc_chain := ch\<rparr>))
         else framed_turn f (h1, c1))"

text \<open>\<open>receive_unframed()\<close>: each chunk is delivered as it arrives, as a message of its own.\<close>

definition chunk_message :: "block_ref \<Rightarrow> tcp \<Rightarrow> receiving \<times> tcp" where
  "chunk_message chunk s =
    (case s of (h, c) \<Rightarrow>
      (case make_chain (pool_resource (tc_pool c)) (h, empty_chain) of
         (h1, None) \<Rightarrow> (Raised, ref_drop chunk h1, c)
       | (h1, Some ch) \<Rightarrow>
           (case chain_append chunk (h1, ch) of
              (False, h2, ch2) \<Rightarrow>
                (Raised, res_deallocate (Chain_Alloc (pool_resource (tc_pool c))) (chain_destroy (h2, ch2)), c)
            | (True, h2, ch2) \<Rightarrow>
                (Done (Inr (message_of_chain (pool_resource (tc_pool c), ch2) default_context False)), h2, c))))"

definition unframed_resume :: "bool \<Rightarrow> read_event \<Rightarrow> tcp \<Rightarrow> receiving \<times> tcp" where
  "unframed_resume with_tls ev s =
    (case finish_read with_tls ev s of
       (Inl e, s1) \<Rightarrow> fail_with e s1
     | (Inr chunk, h1, c1) \<Rightarrow>
         if \<not> ref_valid chunk then empty_message True (h1, c1\<lparr>tc_ended := True\<rparr>)
         else chunk_message chunk (h1, c1))"

text \<open>\<open>receive()\<close>: the mode is chosen when it is called, the state is checked when it starts to run.\<close>

definition receive_start :: "framer option \<Rightarrow> tcp \<Rightarrow> receiving \<times> tcp" where
  "receive_start f s =
    (case receive_refused (snd s) of
       Some e \<Rightarrow> (Done (Inl e), s)
     | None \<Rightarrow> (case f of Some fr \<Rightarrow> framed_turn fr s | None \<Rightarrow> await_read s))"

definition receive_resume :: "bool \<Rightarrow> framer option \<Rightarrow> read_event \<Rightarrow> tcp \<Rightarrow> receiving \<times> tcp" where
  "receive_resume with_tls f ev s =
    (case f of Some fr \<Rightarrow> framed_resume with_tls fr ev s | None \<Rightarrow> unframed_resume with_tls ev s)"

end
