(* ===== verification/Tcp_Receive.thy ===== *)
theory Tcp_Receive
  imports Tcp Growth
begin

text \<open>
  Memory safety of the TCP receive path: the connection and its messages share blocks, and the socket
  writes into the tail of a block whose head has been delivered already. The invariant says why that is
  safe, and it holds whatever the socket, the memory resource and the framer answer.
\<close>

section \<open>Invariant\<close>

text \<open>The handles in \<open>R\<close> still show the same bytes.\<close>

definition same_bytes :: "block_ref multiset \<Rightarrow> heap \<Rightarrow> heap \<Rightarrow> bool" where
  "same_bytes R h h' \<longleftrightarrow> (\<forall>r\<in>#R. ref_bytes h' r = ref_bytes h r)"

text \<open>No handle in \<open>R\<close> sees anything of the block of \<open>cur\<close> from its position on.\<close>

definition tail_free :: "block_ref multiset \<Rightarrow> block_ref \<Rightarrow> bool" where
  "tail_free R cur \<longleftrightarrow> (\<forall>r\<in>#R. br_blk r \<noteq> None \<longrightarrow> br_blk r = br_blk cur \<longrightarrow> br_end r \<le> br_begin cur)"

text \<open>
  The handles of the connection are those of the receive chain and \<open>current_block_\<close>, an empty window
  where the next read goes; \<open>R\<close> and \<open>X\<close> are the handles and allocations of everybody else, among them
  the messages delivered so far. \<open>chain_ok\<close> adds that \<open>size_\<close> of the chain is right.
\<close>

definition tcp_mem :: "heap \<Rightarrow> tcp_conn \<Rightarrow> block_ref multiset \<Rightarrow> alloc_unit multiset \<Rightarrow> bool" where
  "tcp_mem h c R X \<longleftrightarrow>
    chain_shape (tc_chain c) \<and>
    heap_inv h (add_mset (tc_current c) (mset (ch_live (tc_chain c)) + R)) (chain_units (tc_chain c) + X) \<and>
    pool_ok (tc_pool c) h \<and> br_begin (tc_current c) = br_end (tc_current c) \<and>
    tail_free (mset (ch_live (tc_chain c)) + R) (tc_current c)"

definition tcp_inv :: "heap \<Rightarrow> tcp_conn \<Rightarrow> block_ref multiset \<Rightarrow> alloc_unit multiset \<Rightarrow> bool" where
  "tcp_inv h c R X \<longleftrightarrow> tcp_mem h c R X \<and> chain_ok (tc_chain c)"

lemma tcp_memI [intro?]:
  assumes "chain_shape (tc_chain c)"
    and "heap_inv h (add_mset (tc_current c) (mset (ch_live (tc_chain c)) + R)) (chain_units (tc_chain c) + X)"
    and "pool_ok (tc_pool c) h" and "br_begin (tc_current c) = br_end (tc_current c)"
    and "tail_free (mset (ch_live (tc_chain c)) + R) (tc_current c)"
  shows "tcp_mem h c R X"
  using assms by (simp add: tcp_mem_def)

lemma tcp_inv_parts:
  assumes "tcp_inv h c R X"
  shows "tcp_mem h c R X" and "chain_ok (tc_chain c)" and "chain_shape (tc_chain c)"
    and "heap_inv h (add_mset (tc_current c) (mset (ch_live (tc_chain c)) + R)) (chain_units (tc_chain c) + X)"
    and "heap_inv h (mset (ch_live (tc_chain c)) + add_mset (tc_current c) R) (chain_units (tc_chain c) + X)"
    and "pool_ok (tc_pool c) h" and "br_begin (tc_current c) = br_end (tc_current c)"
    and "tail_free (mset (ch_live (tc_chain c)) + R) (tc_current c)"
  using assms by (simp_all add: tcp_inv_def tcp_mem_def)

text \<open>The rest of the connection plays no part in it.\<close>

lemma tcp_mem_update [simp]:
  "tcp_mem h (c\<lparr>tc_state := st\<rparr>) R X = tcp_mem h c R X" "tcp_mem h (c\<lparr>tc_eof := b\<rparr>) R X = tcp_mem h c R X"
  "tcp_mem h (c\<lparr>tc_ended := b\<rparr>) R X = tcp_mem h c R X"
  "tcp_mem h (c\<lparr>tc_message_open := b\<rparr>) R X = tcp_mem h c R X"
  by (simp_all add: tcp_mem_def)

lemma tcp_inv_update [simp]:
  "tcp_inv h (c\<lparr>tc_state := st\<rparr>) R X = tcp_inv h c R X" "tcp_inv h (c\<lparr>tc_eof := b\<rparr>) R X = tcp_inv h c R X"
  "tcp_inv h (c\<lparr>tc_ended := b\<rparr>) R X = tcp_inv h c R X"
  "tcp_inv h (c\<lparr>tc_message_open := b\<rparr>) R X = tcp_inv h c R X"
  by (simp_all add: tcp_inv_def)

text \<open>Two states of a connection that differ at most in the receive chain and the position in it.\<close>

definition same_conn :: "tcp_conn \<Rightarrow> tcp_conn \<Rightarrow> bool" where
  "same_conn c c' \<longleftrightarrow>
    tc_state c' = tc_state c \<and> tc_framer c' = tc_framer c \<and> tc_pool c' = tc_pool c \<and> tc_eof c' = tc_eof c \<and>
    tc_ended c' = tc_ended c \<and> tc_aborted c' = tc_aborted c \<and> tc_socket_open c' = tc_socket_open c"

lemma same_conn_refl [simp]: "same_conn c c"
  by (simp add: same_conn_def)

lemma same_conn_trans: "same_conn c c1 \<Longrightarrow> same_conn c1 c2 \<Longrightarrow> same_conn c c2"
  by (simp add: same_conn_def)

lemma same_conn_update [simp]:
  "same_conn c (c'\<lparr>tc_chain := ch\<rparr>) = same_conn c c'" "same_conn c (c'\<lparr>tc_current := r\<rparr>) = same_conn c c'"
  "same_conn c (c'\<lparr>tc_message_open := b\<rparr>) = same_conn c c'"
  by (simp_all add: same_conn_def)

lemma same_bytes_refl [simp]: "same_bytes R h h"
  by (simp add: same_bytes_def)

lemma same_bytes_trans: "same_bytes R h h1 \<Longrightarrow> same_bytes R h1 h2 \<Longrightarrow> same_bytes R h h2"
  by (simp add: same_bytes_def)

lemma same_bytes_union [simp]: "same_bytes (R + S) h h' \<longleftrightarrow> same_bytes R h h' \<and> same_bytes S h h'"
  by (auto simp: same_bytes_def)

lemma keeps_same_bytes: "keeps R h h' \<Longrightarrow> same_bytes R h h'"
  by (simp add: same_bytes_def keeps_ref_bytes)

lemma same_bytes_chain: "same_bytes (mset (ch_live c)) h h' \<Longrightarrow> chain_bytes h' c = chain_bytes h c"
  by (simp add: same_bytes_def chain_bytes_def refs_bytes_def cong: map_cong)

lemma same_bytes_message:
  "same_bytes (message_refs m) h h' \<Longrightarrow> message_bytes h' m = message_bytes h m"
  by (simp add: message_refs_def message_bytes_def same_bytes_chain split: option.splits prod.splits)

section \<open>Where windows end\<close>

lemma tail_free_le:
  assumes "tail_free R cur"
    and "\<And>q. q \<in># S \<Longrightarrow> br_blk q \<noteq> None \<Longrightarrow> \<exists>p\<in>#R. br_blk q = br_blk p \<and> br_end q \<le> br_end p"
  shows "tail_free S cur"
  unfolding tail_free_def
proof (intro ballI impI)
  fix q assume q: "q \<in># S" "br_blk q \<noteq> None" "br_blk q = br_blk cur"
  then obtain p where p: "p \<in># R" "br_blk q = br_blk p" "br_end q \<le> br_end p" using assms(2) by blast
  then have "br_end p \<le> br_begin cur" using assms(1) q by (auto simp: tail_free_def)
  with p show "br_end q \<le> br_begin cur" by simp
qed

lemma tail_free_null [simp]: "br_blk cur = None \<Longrightarrow> tail_free R cur"
  by (auto simp: tail_free_def)

lemma tail_free_union [simp]: "tail_free (R + S) cur \<longleftrightarrow> tail_free R cur \<and> tail_free S cur"
  by (auto simp: tail_free_def)

lemma tail_free_empty [simp]: "tail_free {#} cur"
  by (simp add: tail_free_def)

lemma tail_free_add [simp]:
  "tail_free (add_mset r R) cur \<longleftrightarrow>
    (br_blk r \<noteq> None \<longrightarrow> br_blk r = br_blk cur \<longrightarrow> br_end r \<le> br_begin cur) \<and> tail_free R cur"
  by (simp add: tail_free_def)

lemma append_refs_end:
  "q \<in> set (append_refs rs r) \<Longrightarrow> \<exists>p\<in>insert r (set rs). br_blk q = br_blk p \<and> br_end q = br_end p"
  by (auto simp: append_refs_def set_range_def split: if_splits dest: in_set_butlastD)

lemma consume_refs_end:
  "q \<in> set (consume_refs n rs) \<Longrightarrow> \<exists>p\<in>set rs. br_blk q = br_blk p \<and> br_end q = br_end p"
  by (induction n rs rule: consume_refs.induct) (auto simp: advance_begin_def split: if_splits)

lemma first_refs_end:
  assumes "q \<in> set (first_refs out len rs)" and "\<And>r. r \<in> set rs \<Longrightarrow> br_begin r \<le> br_end r"
  shows "\<exists>p\<in>set out \<union> set rs. br_blk q = br_blk p \<and> br_end q \<le> br_end p"
  using assms
proof (induction out len rs rule: first_refs.induct)
  case (2 out len r rs)
  let ?tk = "min (ref_size r) len"
  let ?piece = "set_range (br_begin r) (br_begin r + ?tk) r"
  have e: "br_end ?piece \<le> br_end r" "br_blk ?piece = br_blk r"
    using 2(3) [of r] by (auto simp: set_range_def ref_size_def)
  show ?case
  proof (cases "len = 0")
    case False
    then obtain p where p: "p \<in> set (append_refs out ?piece) \<union> set rs" "br_blk q = br_blk p" "br_end q \<le> br_end p"
      using 2 by (auto simp: Let_def)
    show ?thesis
    proof (cases "p \<in> set rs")
      case False
      then obtain p' where "p' \<in> insert ?piece (set out)" "br_blk p = br_blk p'" "br_end p = br_end p'"
        using p(1) append_refs_end by blast
      then show ?thesis using p(2,3) e by (cases "p' = ?piece") force+
    qed (use p in auto)
  qed (use 2 in auto)
qed auto

section \<open>Reading\<close>

lemma start_read_correct:
  assumes inv: "tcp_mem h c R X" and run: "start_read (h, c) = (res, h', c')"
  shows "tcp_mem h' c' R X" and "same_conn c c'" and "tc_chain c' = tc_chain c"
    and "keeps (mset (ch_live (tc_chain c)) + R) h h'" and "later h h'"
    and "case res of Thrown \<Rightarrow> True
      | Returned (Inl e) \<Rightarrow> e = taps_error RECEIVE_ERROR RESOURCE_EXHAUSTED ''receive block pool exhausted''
      | Returned (Inr n) \<Rightarrow> ref_valid (tc_current c') \<and> n = capacity_after_begin h' (tc_current c') \<and>
          reuse_threshold c \<le> n"
    and "tc_message_open c' = tc_message_open c"
proof -
  let ?cur = "tc_current c" and ?S = "mset (ch_live (tc_chain c)) + R" and ?Y = "chain_units (tc_chain c) + X"
  have hi: "heap_inv h (add_mset ?cur ?S) ?Y" and ok: "pool_ok (tc_pool c) h"
    using inv by (simp_all add: tcp_mem_def)
  have "tcp_mem h' c' R X \<and> same_conn c c' \<and> tc_chain c' = tc_chain c \<and> keeps ?S h h' \<and> later h h' \<and>
    (case res of Thrown \<Rightarrow> True
      | Returned (Inl e) \<Rightarrow> e = taps_error RECEIVE_ERROR RESOURCE_EXHAUSTED ''receive block pool exhausted''
      | Returned (Inr n) \<Rightarrow> ref_valid (tc_current c') \<and> n = capacity_after_begin h' (tc_current c') \<and>
          reuse_threshold c \<le> n) \<and> tc_message_open c' = tc_message_open c"
  proof (cases "\<not> ref_valid ?cur \<or> capacity_after_begin h ?cur < reuse_threshold c")
    case False
    then show ?thesis using run inv by (auto simp: start_read_def)
  next
    case True
    obtain ar h1 where acq: "acquire (tc_pool c) h = (ar, h1)" by fastforce
    have l: "later h h1" using acq by (rule later_acquire)
    from hi ok acq show ?thesis
    proof (cases rule: acquire_cases)
      case (acquired r b)
      let ?h3 = "ref_drop ?cur h1"
      have res: "res = Returned (Inr (capacity_after_begin ?h3 r))" "h' = ?h3" "c' = c\<lparr>tc_current := r\<rparr>"
        using run True acq acquired(1,2) by (auto simp: start_read_def ref_assign_move_def ref_valid_def Let_def)
      have "heap_inv h1 (add_mset ?cur (add_mset r ?S)) ?Y" using acquired(6) by (simp add: add_mset_commute)
      note d = heap_inv_ref_drop [OF this]
      have l3: "later h ?h3" using l by (rule later_trans) simp
      have fresh: "tail_free ?S r"
        unfolding tail_free_def
        using acquired(2,5) heap_inv_alive [OF hi] by (metis insert_iff not_None_eq set_mset_add_mset_insert)
      have "block_data ?h3 b = block_data h1 b" using d(2) acquired(2) by (simp add: keeps_def)
      then have cap: "capacity_after_begin ?h3 r = pool_block_size (tc_pool c)"
        using acquired(2,3,9) by (simp add: capacity_after_begin_def)
      have "tcp_mem ?h3 (c\<lparr>tc_current := r\<rparr>) R X"
        using d(1) fresh inv acquired(3,4) later_pool_ok [OF l3 ok] by (simp add: tcp_mem_def)
      moreover have "keeps ?S h ?h3" using acquired(7) d(2) by (auto intro: keeps_trans)
      ultimately show ?thesis
        using l3 cap acquired(2) by (simp add: res ref_valid_def reuse_threshold_def)
    next
      case (at_cap k)
      have res: "res = Returned (Inl (taps_error RECEIVE_ERROR RESOURCE_EXHAUSTED ''receive block pool exhausted''))"
        "h' = ref_drop ?cur h" "c' = c\<lparr>tc_current := ref_null\<rparr>"
        using run True acq at_cap
        by (auto simp: start_read_def ref_assign_move_def ref_valid_def ref_null_def Let_def ref_moved_def ref_drop_def)
      note d = heap_inv_ref_drop [OF hi]
      have "tcp_mem h' c' R X"
        using d(1) inv later_pool_ok [OF later_ref_drop ok] by (simp add: tcp_mem_def res ref_null_def)
      then show ?thesis using d(2) by (simp add: res)
    next
      case thrown
      have res: "res = Thrown" "h' = h1" "c' = c"
        using run True acq thrown(1) by (auto simp: start_read_def)
      have "tcp_mem h1 c R X" using thrown(2,4) inv by (simp add: tcp_mem_def)
      then show ?thesis using thrown(3) l by (simp add: res)
    qed
  qed
  then show "tcp_mem h' c' R X" and "same_conn c c'" and "tc_chain c' = tc_chain c" and "keeps ?S h h'" and "later h h'"
    and "case res of Thrown \<Rightarrow> True
      | Returned (Inl e) \<Rightarrow> e = taps_error RECEIVE_ERROR RESOURCE_EXHAUSTED ''receive block pool exhausted''
      | Returned (Inr n) \<Rightarrow> ref_valid (tc_current c') \<and> n = capacity_after_begin h' (tc_current c') \<and>
          reuse_threshold c \<le> n"
    and "tc_message_open c' = tc_message_open c"
    by blast+
qed

text \<open>
  The bytes the socket stores arrive in the delivered handle and change nothing that anybody else sees.
\<close>

lemma finish_read_data:
  assumes inv: "tcp_mem h c R X" and blk: "br_blk (tc_current c) = Some b"
    and fits: "length bytes \<le> capacity_after_begin h (tc_current c)"
    and room: "size (mset (ch_live (tc_chain c)) + R) + 2 < 2 ^ 32"
    and run: "finish_read tls (Data bytes) (h, c) = (res, h', c')"
  obtains r where "res = Inr r" "br_blk r = Some b" "br_begin r \<le> br_end r" "ref_bytes h' r = bytes"
    "same_conn c c'" "tc_chain c' = tc_chain c" "tcp_mem h' c' (add_mset r R) X"
    "same_bytes (mset (ch_live (tc_chain c)) + R) h h'" "later h h'" "tc_message_open c' = tc_message_open c"
proof -
  let ?cur = "tc_current c" and ?S = "mset (ch_live (tc_chain c)) + R" and ?Y = "chain_units (tc_chain c) + X"
  let ?i = "br_begin ?cur" and ?n = "length bytes"
  define h1 where "h1 = fill_block b ?i bytes h"
  define r where "r = \<lparr>br_blk = Some b, br_begin = ?i, br_end = ?i + ?n\<rparr>"
  define cur where "cur = set_range (?i + ?n) (?i + ?n) ?cur"
  define h2 where "h2 = add_ref b h1"
  have hi: "heap_inv h (add_mset ?cur ?S) ?Y" and empty: "br_begin ?cur = br_end ?cur" and tf: "tail_free ?S ?cur"
    using inv by (simp_all add: tcp_mem_def)
  have "ref_fits h ?cur" using hi blk by (intro heap_inv_ref_fits) auto
  then have space: "?i + ?n \<le> length (block_data h b)"
    using fits blk by (simp add: capacity_after_begin_def ref_fits_def empty)
  have cin: "?cur \<in># add_mset ?cur ?S" by simp
  note fill = heap_inv_fill_block [OF hi cin blk space, folded h1_def]
  have data1: "block_data h1 b = overwrite ?i bytes (block_data h b)" using fill(2) by simp
  have "ref_bytes h1 q = ref_bytes h q" if "q \<in># ?S" for q
    unfolding h1_def using hi cin blk space
    by (rule ref_bytes_fill_block) (use that tf blk in \<open>auto simp: tail_free_def\<close>)
  then have same1: "same_bytes ?S h h1" by (simp add: same_bytes_def)
  have fit1: "ref_fits h1 r" "ref_fits h1 cur"
    using space blk by (simp_all add: ref_fits_def r_def cur_def set_range_def data1)
  have "heap_inv h2 (add_mset r (add_mset ?cur ?S)) ?Y"
    unfolding h2_def using fill(1) cin blk by (rule heap_inv_add_ref) (use room fit1 in \<open>auto simp: r_def intro: window_okI\<close>)
  then have "heap_inv h2 (add_mset ?cur (add_mset r ?S)) ?Y" by (simp add: add_mset_commute)
  moreover have d2: "block_data h2 = block_data h1" by (rule ext) (simp add: h2_def heap_simps)
  ultimately have hi2: "heap_inv h2 (add_mset cur (add_mset r ?S)) ?Y"
    using fit1(2) by (rule_tac heap_inv_window) (auto simp: cur_def set_range_def ref_fits_def intro!: window_okI)
  have bytes2: "ref_bytes h2 r = bytes"
    using space by (simp add: ref_bytes_def r_def d2 data1 slice_overwrite_same)
  have tf2: "tail_free (add_mset r ?S) cur"
    using tf blk by (auto simp: tail_free_def cur_def set_range_def r_def)
  have later2: "later h h2" unfolding h1_def h2_def by (rule later_trans [OF later_fill_block later_add_ref])
  have keep: "ref_bytes h2 q = ref_bytes h1 q" for q by (simp add: ref_bytes_def d2 split: option.split)
  show ?thesis
  proof (cases "capacity_after_begin h2 cur < reuse_threshold c")
    case True
    have res: "res = Inr r" "h' = ref_drop cur h2" "c' = c\<lparr>tc_current := ref_null\<rparr>"
      using run True blk
      by (auto simp: finish_read_def ref_make_def ref_reset_def Let_def r_def cur_def h2_def h1_def)
    note d = heap_inv_ref_drop [OF hi2]
    have l: "later h h'" unfolding res using later2 by (rule later_trans) simp
    have s: "same_bytes (add_mset r ?S) h2 h'" using d(2) unfolding res by (rule keeps_same_bytes)
    show ?thesis
    proof (rule that [OF res(1)])
      show "ref_bytes h' r = bytes" using s bytes2 by (simp add: same_bytes_def)
      show "tcp_mem h' c' (add_mset r R) X"
        using d(1) inv later_pool_ok [OF l] by (auto simp: tcp_mem_def res ref_null_def)
      show "same_bytes ?S h h'" using same1 s by (auto simp: same_bytes_def keep)
    qed (use l res in \<open>simp_all add: r_def\<close>)
  next
    case False
    have res: "res = Inr r" "h' = h2" "c' = c\<lparr>tc_current := cur\<rparr>"
      using run False blk by (auto simp: finish_read_def ref_make_def Let_def r_def cur_def h2_def h1_def)
    show ?thesis
    proof (rule that [OF res(1)])
      show "tcp_mem h' c' (add_mset r R) X"
        using hi2 inv tf2 later_pool_ok [OF later2] by (simp add: tcp_mem_def res tail_free_def cur_def set_range_def)
      show "same_bytes ?S h h'" using same1 by (auto simp: same_bytes_def keep res)
    qed (use later2 bytes2 res in \<open>simp_all add: r_def\<close>)
  qed
qed

lemma finish_read_failed:
  assumes "finish_read tls (Failed ec) (h, c) = (res, h', c')"
  shows "h' = h" and "c' = c\<lparr>tc_eof := tc_eof c'\<rparr>"
    and "res = (if ec_value ec = EC_eof then Inr ref_null else Inl (read_failure tls ec))"
    and "ec_value ec = EC_eof \<Longrightarrow> tc_eof c'"
    and "ec_value ec \<noteq> EC_eof \<Longrightarrow> tc_eof c' \<longleftrightarrow> tc_eof c \<or> err_event (read_failure tls ec) = RECEIVE_ERROR"
  using assms by (auto simp: finish_read_def Let_def split: if_splits)

section \<open>Delivering a record\<close>

lemma drop_received_correct:
  assumes inv: "tcp_inv h c R X" and run: "drop_received n (h, c) = (h', c')"
  shows "tcp_inv h' c' R X" and "same_conn c c'"
    and "chain_bytes h' (tc_chain c') = drop n (chain_bytes h (tc_chain c))" and "same_bytes R h h'"
    and "later h h'" and "ch_count (tc_chain c') \<le> ch_count (tc_chain c)"
proof -
  note p = tcp_inv_parts [OF inv]
  obtain h1 ch where 1: "consume_front n (h, tc_chain c) = Some (h1, ch)" "chain_ok ch"
    "ch_live ch = consume_refs (min n (ch_size (tc_chain c))) (ch_live (tc_chain c))"
    "chain_units ch = chain_units (tc_chain c)"
    "heap_inv h1 (mset (ch_live ch) + add_mset (tc_current c) R) (chain_units (tc_chain c) + X)"
    "keeps (mset (ch_live ch) + add_mset (tc_current c) R) h h1"
    using consume_front_correct [OF p(2,5), of n] by auto
  have res: "h' = h1" "c' = c\<lparr>tc_chain := ch\<rparr>" using run 1(1) by (simp_all add: drop_received_def)
  show l: "later h h'" using later_consume_front [OF 1(1)] by (simp add: res)
  have "tail_free (mset (ch_live ch)) (tc_current c)"
    unfolding 1(3) by (rule tail_free_le [of "mset (ch_live (tc_chain c))"]) (use p(8) in \<open>auto dest!: consume_refs_end\<close>)
  then show "tcp_inv h' c' R X"
    using 1 p(8) later_pool_ok [OF l p(6)] p(7) by (auto simp: tcp_inv_def tcp_mem_def res chain_ok_def)
  show "same_conn c c'" by (simp add: res)
  show "chain_bytes h' (tc_chain c') = drop n (chain_bytes h (tc_chain c))"
    using consume_front_bytes [OF p(2,5) 1(1)] by (simp add: res)
  show "same_bytes R h h'" using keeps_same_bytes [OF 1(6)] by (simp add: res same_bytes_def)
  have "length (consume_refs k rs) \<le> length rs" for k rs
    by (induction k rs rule: consume_refs.induct) auto
  then have "length (ch_live ch) \<le> length (ch_live (tc_chain c))" unfolding 1(3) .
  moreover have "length (ch_live ch) = ch_count ch" using 1(2) by (intro length_ch_live) (simp add: chain_ok_def)
  ultimately show "ch_count (tc_chain c') \<le> ch_count (tc_chain c)"
    using length_ch_live [OF p(3)] by (simp add: res)
qed

lemma as_bytes_refs: "as_bytes (h, m) = (ob, h', m') \<Longrightarrow> message_refs m' = message_refs m"
  by (auto simp: as_bytes_def ensure_gathered_def message_refs_def Let_def
      split: if_splits option.splits prod.splits bool.splits)

text \<open>
  A message made of a slice of the receive chain, before its bytes leave the chain: the slice shares
  the blocks of the chain, and ends where the chain's handles end.
\<close>

lemma slice_correct:
  assumes inv: "tcp_inv h c R X" and room: "size R + 1 + 2 * ch_count (tc_chain c) < 2 ^ 32"
    and first: "chain_first k (h, tc_chain c) = (h1, Some tmp)"
    and make: "make_chain res (h1, tmp) = (h2, oc)"
  shows "later h h2" and "keeps (mset (ch_live (tc_chain c)) + R) h h2"
    and "case oc of None \<Rightarrow> tcp_inv h2 c R X
      | Some ch \<Rightarrow> chain_ok ch \<and> chain_bytes h2 ch = take k (chain_bytes h (tc_chain c)) \<and>
          tcp_inv h2 c (mset (ch_live ch) + R) (add_mset (Chain_Alloc res) (chain_units ch) + X)"
proof -
  note p = tcp_inv_parts [OF inv]
  let ?S = "mset (ch_live (tc_chain c)) + add_mset (tc_current c) R"
  have "size (add_mset (tc_current c) R) + 2 * ch_count (tc_chain c) < 2 ^ 32" using room by simp
  note fc = chain_first_correct [OF p(2,5) this first, unfolded option.case]
  have f: "keeps ?S h h1" "chain_ok tmp" "ch_live tmp = first_refs [] (min k (ch_size (tc_chain c))) (ch_live (tc_chain c))"
    "heap_inv h1 (mset (ch_live tmp) + ?S) (chain_units tmp + (chain_units (tc_chain c) + X))"
    "chain_bytes h1 tmp = take k (chain_bytes h (tc_chain c))"
    using fc by blast+
  note m = make_chain_correct [OF f(2,4) make]
  show l: "later h h2" using later_chain_first [OF first] later_make_chain [OF make] by (rule later_trans)
  have "keeps ?S h1 h2" using m by (auto split: option.splits)
  with f(1) have "keeps ?S h h2" by (rule keeps_trans)
  then show "keeps (mset (ch_live (tc_chain c)) + R) h h2" by (simp only: keeps_union keeps_add_mset)
  have good: "br_begin r \<le> br_end r" if "r \<in> set (ch_live (tc_chain c))" for r
    using chain_live_fits(2) [OF p(3,5) that] by (simp add: ref_good_def)
  have tail: "tail_free (mset (ch_live tmp)) (tc_current c)"
  proof (rule tail_free_le)
    show "tail_free (mset (ch_live (tc_chain c))) (tc_current c)" using p(8) by simp
    fix q assume "q \<in># mset (ch_live tmp)"
    then have "q \<in> set (first_refs [] (min k (ch_size (tc_chain c))) (ch_live (tc_chain c)))" using f(3) by simp
    from first_refs_end [OF this good]
    show "\<exists>p\<in>#mset (ch_live (tc_chain c)). br_blk q = br_blk p \<and> br_end q \<le> br_end p" by simp
  qed
  show "case oc of None \<Rightarrow> tcp_inv h2 c R X
      | Some ch \<Rightarrow> chain_ok ch \<and> chain_bytes h2 ch = take k (chain_bytes h (tc_chain c)) \<and>
          tcp_inv h2 c (mset (ch_live ch) + R) (add_mset (Chain_Alloc res) (chain_units ch) + X)"
  proof (cases oc)
    case None
    then show ?thesis using m p later_pool_ok [OF l p(6)] by (simp add: tcp_inv_def tcp_mem_def)
  next
    case (Some ch)
    let ?R = "mset (ch_live ch) + R" and ?X = "add_mset (Chain_Alloc res) (chain_units ch) + X"
    have "heap_inv h2 (add_mset (tc_current c) (mset (ch_live (tc_chain c)) + ?R)) (chain_units (tc_chain c) + ?X)"
      using m Some by (auto simp: add.left_commute)
    moreover have "tail_free (mset (ch_live (tc_chain c)) + ?R) (tc_current c)"
      using tail m Some p(8) by simp
    ultimately have "tcp_inv h2 c ?R ?X"
      using p later_pool_ok [OF l p(6)] by (simp add: tcp_inv_def tcp_mem_def)
    then show ?thesis using m Some f(5) by simp
  qed
qed


text \<open>
  What \<open>deliver_record\<close> ends with: an exception, or a message with the bytes the framer asked for. In
  either case the connection is intact and what others hold shows the same bytes.
\<close>

definition delivers :: "bool \<Rightarrow> byte list \<Rightarrow> byte list \<Rightarrow> block_ref multiset \<Rightarrow> alloc_unit multiset
    \<Rightarrow> receiving \<times> tcp \<Rightarrow> bool" where
  "delivers eom bytes rest R X out \<longleftrightarrow>
    (case out of (res, h', c') \<Rightarrow>
      (case res of
         Raised \<Rightarrow> tcp_inv h' c' R X
       | Done (Inr m) \<Rightarrow> tcp_inv h' c' (message_refs m + R) (message_units m + X) \<and> message_ok h' m \<and>
           message_bytes h' m = bytes \<and> msg_eom m = eom \<and> chain_bytes h' (tc_chain c') = rest \<and>
           tc_message_open c' = (\<not> eom)
       | _ \<Rightarrow> False))"

lemma gather_if_correct:
  assumes inv: "tcp_inv h c (message_refs m + R) (message_units m + X)" and ok: "message_ok h m"
    and run: "gather_if g m (h, c) = (res, h', c')" and "tc_message_open c = (\<not> msg_eom m)"
  shows "later h h'" and "same_bytes R h h'" and "c' = c"
    and "delivers (msg_eom m) (message_bytes h m) (chain_bytes h (tc_chain c)) R X (res, h', c')"
proof -
  note p = tcp_inv_parts [OF inv]
  let ?S = "add_mset (tc_current c) (mset (ch_live (tc_chain c)) + R)"
  have "later h h' \<and> same_bytes R h h' \<and> c' = c \<and>
    delivers (msg_eom m) (message_bytes h m) (chain_bytes h (tc_chain c)) R X (res, h', c')"
  proof (cases g)
    case False
    then show ?thesis using run inv ok assms(4) by (auto simp: gather_if_def delivers_def)
  next
    case True
    obtain ob h5 m5 where ab: "as_bytes (h, m) = (ob, h5, m5)" using prod_cases3 by blast
    have hi: "heap_inv h (message_refs m + ?S) (message_units m + (chain_units (tc_chain c) + X))"
      using p(4) by (simp add: add.left_commute)
    note a = as_bytes_correct [OF ok hi ab]
    have hi5: "heap_inv h5 (message_refs m5 + ?S) (message_units m5 + (chain_units (tc_chain c) + X))"
      and ok5: "message_ok h5 m5" and k5: "keeps (message_refs m + ?S) h h5"
      and b5: "message_bytes h5 m5 = message_bytes h m" "msg_eom m5 = msg_eom m" using a by blast+
    have l5: "later h h5" using ab by (rule later_as_bytes)
    have s5: "same_bytes R h h5" "chain_bytes h5 (tc_chain c) = chain_bytes h (tc_chain c)"
      using keeps_same_bytes [OF k5] same_bytes_chain by (auto simp: same_bytes_def)
    show ?thesis
    proof (cases ob)
      case None
      note d = message_destroy_correct [OF ok5 hi5]
      have res: "res = Raised" "h' = message_destroy (h5, m5)" "c' = c"
        using run True None ab by (simp_all add: gather_if_def)
      have l: "later h h'" unfolding res using l5 by (rule later_trans) simp
      have "same_bytes ?S h5 h'" using d unfolding res by (blast intro: keeps_same_bytes)
      then have "same_bytes R h h'" using s5(1) by (auto simp: same_bytes_def)
      moreover have "tcp_inv h' c R X"
        using d p later_pool_ok [OF l p(6)] by (simp add: tcp_inv_def tcp_mem_def res)
      ultimately show ?thesis using l by (simp add: delivers_def res(1,3))
    next
      case (Some bs)
      have res: "res = Done (Inr m5)" "h' = h5" "c' = c"
        using run True Some ab by (simp_all add: gather_if_def)
      have "tcp_inv h5 c (message_refs m5 + R) (message_units m5 + X)"
        using hi5 p later_pool_ok [OF l5 p(6)] as_bytes_refs [OF ab]
        by (simp add: tcp_inv_def tcp_mem_def add.left_commute)
      then show ?thesis using l5 s5 b5 ok5 assms(4) by (simp add: delivers_def res)
    qed
  qed
  then show "later h h'" and "same_bytes R h h'" and "c' = c"
    and "delivers (msg_eom m) (message_bytes h m) (chain_bytes h (tc_chain c)) R X (res, h', c')"
    by blast+
qed

lemma deliver_record_correct:
  fixes pr
  defines "d \<equiv> unat (pr_discard_before pr)" and "k \<equiv> unat (pr_deliver pr)"
  assumes inv: "tcp_inv h c R X" and room: "size R + 1 + 2 * ch_count (tc_chain c) < 2 ^ 32"
    and run: "deliver_record pr (h, c) = (res, h', c')"
  shows "later h h'" and "same_bytes R h h'"
    and "same_conn c c'"
    and "delivers (pr_end_of_message pr) (take k (drop d (chain_bytes h (tc_chain c))))
      (drop (d + k) (chain_bytes h (tc_chain c))) R X (res, h', c')"
proof -
  let ?bs = "chain_bytes h (tc_chain c)"
  let ?Q = "later h h' \<and> same_bytes R h h' \<and>
    same_conn c c' \<and>
    delivers (pr_end_of_message pr) (take k (drop d ?bs)) (drop (d + k) ?bs) R X (res, h', c')"
  obtain h1 c1 where 1: "(if pr_discard_before pr > 0 then drop_received d (h, c) else (h, c)) = (h1, c1)"
    by fastforce
  have i1: "tcp_inv h1 c1 R X" "same_conn c c1" "same_bytes R h h1" "later h h1"
    "chain_bytes h1 (tc_chain c1) = drop d ?bs" "ch_count (tc_chain c1) \<le> ch_count (tc_chain c)"
    using 1 inv drop_received_correct [OF inv, of d h1 c1]
    by (auto simp: d_def word_gt_0 split: if_splits)
  note p1 = tcp_inv_parts [OF i1(1)]
  have room1: "size R + 1 + 2 * ch_count (tc_chain c1) < 2 ^ 32" using room i1(6) by linarith
  obtain h2 ot where 2: "chain_first k (h1, tc_chain c1) = (h2, ot)" by fastforce
  have ?Q
  proof (cases ot)
    case None
    have res: "res = Raised" "h' = h2" "c' = c1"
      using run 1 [unfolded d_def] 2 None by (simp_all add: deliver_record_def k_def Let_def)
    have "size (add_mset (tc_current c1) R) + 2 * ch_count (tc_chain c1) < 2 ^ 32" using room1 by simp
    note f = chain_first_correct [OF p1(2,5) this 2 [unfolded None], unfolded option.case]
    have l: "later h1 h2" using 2 by (rule later_chain_first)
    have "tcp_inv h2 c1 R X" using f p1 later_pool_ok [OF l p1(6)] by (simp add: tcp_inv_def tcp_mem_def)
    moreover have "same_bytes R h1 h2" using f by (simp add: keeps_same_bytes)
    ultimately show ?thesis
      unfolding res using i1(3,4) l i1(2) by (auto simp: delivers_def intro: later_trans same_bytes_trans)
  next
    case (Some tmp)
    let ?res = "pool_resource (tc_pool c1)"
    obtain h3 oc where 3: "make_chain ?res (h2, tmp) = (h3, oc)" by fastforce
    note sl = slice_correct [OF i1(1) room1 2 [unfolded Some] 3]
    have s3: "same_bytes R h1 h3" using keeps_same_bytes [OF sl(2)] by simp
    show ?thesis
    proof (cases oc)
      case None
      have res: "res = Raised" "h' = h3" "c' = c1"
        using run 1 [unfolded d_def] 2 3 Some None by (simp_all add: deliver_record_def k_def Let_def)
      show ?thesis
        unfolding res using i1(3,4) sl(1,3) s3 i1(2) None
        by (auto simp: delivers_def intro: later_trans same_bytes_trans)
    next
      case oc: (Some ch)
      let ?m = "message_of_chain (?res, ch) default_context (pr_end_of_message pr)"
      have i3: "tcp_inv h3 c1 (message_refs ?m + R) (message_units ?m + X)"
        and ch: "chain_ok ch" "chain_bytes h3 ch = take k (drop d ?bs)"
        using sl(3) oc i1(5) by simp_all
      obtain h4 c4 where 4: "drop_received k (h3, c1) = (h4, c4)" by fastforce
      note d4 = drop_received_correct [OF i3 4]
      have "chain_bytes h3 (tc_chain c1) = chain_bytes h1 (tc_chain c1)"
        using keeps_same_bytes [OF sl(2)] by (intro same_bytes_chain) simp
      then have b4: "chain_bytes h4 (tc_chain c4) = drop (d + k) ?bs" using d4(3) i1(5) by (simp add: add.commute)
      have m4: "message_ok h4 ?m" "message_bytes h4 ?m = take k (drop d ?bs)"
        using ch same_bytes_chain [of ch h3 h4] d4(4) by simp_all
      have run5: "gather_if (pr_gather pr) ?m (h4, c4\<lparr>tc_message_open := \<not> pr_end_of_message pr\<rparr>) = (res, h', c')"
        using run 1 [unfolded d_def] 2 3 4 Some oc by (simp add: deliver_record_def k_def Let_def)
      have i4: "tcp_inv h4 (c4\<lparr>tc_message_open := \<not> pr_end_of_message pr\<rparr>) (message_refs ?m + R) (message_units ?m + X)"
        using d4(1) by simp
      note g = gather_if_correct [OF i4 m4(1) run5]
      have "same_conn c c'" using g(3) d4(2) i1(2) by (auto intro: same_conn_trans)
      moreover have "same_bytes R h h'"
        using i1(3) s3 d4(4) g(2) by (auto intro: same_bytes_trans)
      moreover have "later h h'" using i1(4) sl(1) d4(5) g(1) by (auto intro: later_trans)
      ultimately show ?thesis using g(4) m4(2) b4 by simp
    qed
  qed
  then show "later h h'" and "same_bytes R h h'"
    and "same_conn c c'"
    and "delivers (pr_end_of_message pr) (take k (drop d ?bs)) (drop (d + k) ?bs) R X (res, h', c')"
    by blast+
qed

section \<open>Every step of a receive\<close>

text \<open>
  Where a step of \<open>receive()\<close> leads, from a heap \<open>h\<close>. A result leaves the connection intact, and a
  message is one more holder of handles and memory. While it waits there is a buffer for the read. Also
  after an exception no block is lost or dangling (only the size of the chain may be wrong). In every
  case what the others hold still shows the same bytes.
\<close>

definition receive_safe :: "block_ref multiset \<Rightarrow> alloc_unit multiset \<Rightarrow> heap \<Rightarrow> receiving \<times> tcp \<Rightarrow> bool" where
  "receive_safe R X h out \<longleftrightarrow>
    (case out of (res, h', c') \<Rightarrow>
      same_bytes R h h' \<and> later h h' \<and>
      (case res of
         Done (Inr m) \<Rightarrow> tcp_inv h' c' (message_refs m + R) (message_units m + X) \<and> message_ok h' m
       | Done (Inl e) \<Rightarrow> tcp_inv h' c' R X
       | Reading n \<Rightarrow> tcp_inv h' c' R X \<and> ref_valid (tc_current c') \<and>
           n = capacity_after_begin h' (tc_current c') \<and> reuse_threshold c' \<le> n
       | Raised \<Rightarrow> tcp_mem h' c' R X))"

lemma receive_safe_trans:
  assumes "receive_safe R X h1 out" and "same_bytes R h h1" and "later h h1"
  shows "receive_safe R X h out"
  using assms unfolding receive_safe_def by (cases out) (auto intro: same_bytes_trans later_trans)

lemma fail_with_safe: "tcp_inv h c R X \<Longrightarrow> receive_safe R X h (fail_with e (h, c))"
  by (simp add: receive_safe_def fail_with_def receive_failure_def Let_def)

lemma await_read_safe:
  assumes "tcp_inv h c R X"
  shows "receive_safe R X h (await_read (h, c))"
proof -
  obtain res h1 c1 where run: "start_read (h, c) = (res, h1, c1)" using prod_cases3 by blast
  note s = start_read_correct [OF tcp_inv_parts(1) [OF assms] run]
  have i: "tcp_inv h1 c1 R X" using s(1,3) tcp_inv_parts(2) [OF assms] by (simp add: tcp_inv_def)
  have b: "same_bytes R h h1" using keeps_same_bytes [OF s(4)] by simp
  show ?thesis
  proof (cases res)
    case (Returned r)
    show ?thesis
    proof (cases r)
      case (Inl e)
      show ?thesis
        using receive_safe_trans [OF fail_with_safe [OF i, of e] b s(5)] by (simp add: await_read_def run Returned Inl)
    next
      case (Inr n)
      then show ?thesis
        using s(2,5,6) i b by (simp add: await_read_def run Returned receive_safe_def same_conn_def reuse_threshold_def)
    qed
  qed (use s(1,5) b in \<open>simp add: await_read_def run receive_safe_def\<close>)
qed

lemma chain_units_empty: "chain_units empty_chain = {#}"
  by (simp add: chain_units_def empty_chain_def)

lemma empty_message_safe:
  assumes inv: "tcp_inv h c R X"
  shows "receive_safe R X h (empty_message e (h, c))"
proof -
  let ?res = "pool_resource (tc_pool c)"
  obtain h1 oc where run: "make_chain ?res (h, empty_chain) = (h1, oc)" by fastforce
  note p = tcp_inv_parts [OF inv]
  let ?S = "add_mset (tc_current c) (mset (ch_live (tc_chain c)) + R)"
  have "heap_inv h (mset (ch_live empty_chain) + ?S) (chain_units empty_chain + (chain_units (tc_chain c) + X))"
    using p(4) by (simp add: chain_units_empty)
  note m = make_chain_correct [OF chain_ok_empty(1) this run]
  have l: "later h h1" using run by (rule later_make_chain)
  have "keeps ?S h h1" using m by (auto split: option.splits)
  then have b: "same_bytes R h h1" by (auto dest!: keeps_same_bytes simp: same_bytes_def)
  note ok = later_pool_ok [OF l p(6)]
  show ?thesis
  proof (cases oc)
    case None
    then show ?thesis using m b l ok p by (simp add: empty_message_def run receive_safe_def tcp_mem_def)
  next
    case (Some ch)
    then show ?thesis
      using m b l ok p by (auto simp: empty_message_def run receive_safe_def tcp_inv_def tcp_mem_def add.left_commute)
  qed
qed

lemma deliver_record_safe:
  assumes "tcp_inv h c R X" and "size R + 1 + 2 * ch_count (tc_chain c) < 2 ^ 32"
  shows "receive_safe R X h (deliver_record pr (h, c))"
proof -
  obtain res h1 c1 where run: "deliver_record pr (h, c) = (res, h1, c1)" using prod_cases3 by blast
  note d = deliver_record_correct [OF assms run]
  show ?thesis
    using d(1,2,4) unfolding run receive_safe_def delivers_def
    by (auto simp: tcp_inv_def split: receiving.splits sum.splits)
qed

lemma framed_turn_safe:
  assumes inv: "tcp_inv h c R X" and room: "size R + 1 + 2 * ch_count (tc_chain c) < 2 ^ 32"
  shows "receive_safe R X h (framed_turn f (h, c))"
proof -
  have drop: "receive_safe R X h (case drop_received n (h, c) of (h1, c1) \<Rightarrow> fail_with e (h1, c1\<lparr>tc_message_open := False\<rparr>))"
    for n e
  proof -
    obtain h1 c1 where run: "drop_received n (h, c) = (h1, c1)" by fastforce
    note d = drop_received_correct [OF inv run]
    have "receive_safe R X h1 (fail_with e (h1, c1\<lparr>tc_message_open := False\<rparr>))"
      using d(1) by (intro fail_with_safe) simp
    then show ?thesis using receive_safe_trans d(4,5) by (simp add: run)
  qed
  have "receive_safe R X h (empty_message True (h, c\<lparr>tc_ended := True\<rparr>))"
    using inv by (intro empty_message_safe) simp
  then show ?thesis
    using drop fail_with_safe [OF inv] deliver_record_safe [OF inv room] await_read_safe [OF inv]
    by (simp add: framed_turn_def Let_def)
qed

text \<open>
  Once a read completes. The socket's part of the contract: it writes no more than the buffer takes.
\<close>

definition read_fits :: "read_event \<Rightarrow> tcp \<Rightarrow> bool" where
  "read_fits ev s =
    (case ev of Data bytes \<Rightarrow> length bytes \<le> capacity_after_begin (fst s) (tc_current (snd s)) | Failed _ \<Rightarrow> True)"

text \<open>A chunk that has arrived and is appended to the receive chain.\<close>

lemma append_chunk:
  assumes inv: "tcp_mem h c (add_mset r R) X" and ok: "chain_ok (tc_chain c)"
    and app: "chain_append r (h, tc_chain c) = (res, h', ch)"
  shows "tcp_mem h' (c\<lparr>tc_chain := ch\<rparr>) R X" and "same_bytes R h h'" and "later h h'"
    and "res \<Longrightarrow> tcp_inv h' (c\<lparr>tc_chain := ch\<rparr>) R X"
    and "res \<Longrightarrow> chain_bytes h' ch = chain_bytes h (tc_chain c) @ ref_bytes h r"
    and "res \<Longrightarrow> ch_count ch \<le> Suc (ch_count (tc_chain c))"
proof -
  let ?S = "add_mset (tc_current c) R"
  have hi: "heap_inv h (add_mset r (mset (ch_live (tc_chain c)) + ?S)) (chain_units (tc_chain c) + X)"
    and tf: "tail_free (mset (ch_live (tc_chain c)) + add_mset r R) (tc_current c)"
    and shape: "chain_shape (tc_chain c)" and pool: "pool_ok (tc_pool c) h"
    using inv by (auto simp: tcp_mem_def add_mset_commute)
  note a = chain_append_correct [OF ok hi app]
  show l: "later h h'" using app by (rule later_append)
  have "keeps (mset (ch_live ch) + ?S) h h'" using a by blast
  then show "same_bytes R h h'" by (auto dest!: keeps_same_bytes simp: same_bytes_def)
  have "tail_free (mset (ch_live ch)) (tc_current c)"
  proof (rule tail_free_le [OF tf])
    fix q assume "q \<in># mset (ch_live ch)"
    then have "q \<in> set (append_refs (ch_live (tc_chain c)) r) \<or> q \<in> set (ch_live (tc_chain c))"
      using a by (auto split: if_splits)
    then show "\<exists>p\<in>#mset (ch_live (tc_chain c)) + add_mset r R. br_blk q = br_blk p \<and> br_end q \<le> br_end p"
      by (auto dest!: append_refs_end)
  qed
  then show m: "tcp_mem h' (c\<lparr>tc_chain := ch\<rparr>) R X"
    using a tf inv later_pool_ok [OF l pool] by (auto simp: tcp_mem_def)
  assume res
  then show "tcp_inv h' (c\<lparr>tc_chain := ch\<rparr>) R X" using a m by (simp add: tcp_inv_def)
  show "chain_bytes h' ch = chain_bytes h (tc_chain c) @ ref_bytes h r"
    using chain_append_bytes [OF ok hi] app \<open>res\<close> by simp
  have "length (append_refs rs r) \<le> Suc (length rs)" for rs by (auto simp: append_refs_def)
  then have "length (ch_live ch) \<le> Suc (length (ch_live (tc_chain c)))" using a \<open>res\<close> by auto
  then show "ch_count ch \<le> Suc (ch_count (tc_chain c))"
    using length_ch_live [OF shape] length_ch_live [of ch] a by auto
qed

lemma framed_resume_safe:
  assumes inv: "tcp_inv h c R X" and room: "size R + 3 + 2 * ch_count (tc_chain c) < 2 ^ 32"
    and valid: "ref_valid (tc_current c)" and fits: "read_fits ev (h, c)"
  shows "receive_safe R X h (framed_resume tls f ev (h, c))"
proof -
  obtain res h1 c1 where run: "finish_read tls ev (h, c) = (res, h1, c1)" using prod_cases3 by blast
  note p = tcp_inv_parts [OF inv]
  show ?thesis
  proof (cases ev)
    case (Failed ec)
    note f = finish_read_failed [OF run [unfolded Failed]]
    have i: "tcp_inv h c1 R X" using inv by (subst f(2)) simp
    have "ch_count (tc_chain c1) = ch_count (tc_chain c)" by (subst f(2)) simp
    then have "receive_safe R X h (framed_turn f (h, c1))" using room by (intro framed_turn_safe [OF i]) simp
    then show ?thesis
      using fail_with_safe [OF i] f(1,3) by (simp add: framed_resume_def run ref_valid_def)
  next
    case (Data bytes)
    obtain b where b: "br_blk (tc_current c) = Some b" using valid by (auto simp: ref_valid_def)
    have "length bytes \<le> capacity_after_begin h (tc_current c)" using fits Data by (simp add: read_fits_def)
    moreover have "size (mset (ch_live (tc_chain c)) + R) + 2 < 2 ^ 32"
      using room length_ch_live [OF p(3)] by simp
    ultimately obtain r where r: "res = Inr r" "br_blk r = Some b" "same_conn c c1" "tc_chain c1 = tc_chain c"
      "tcp_mem h1 c1 (add_mset r R) X" "same_bytes (mset (ch_live (tc_chain c)) + R) h h1" "later h h1"
      using finish_read_data [OF p(1) b _ _ run [unfolded Data]] by metis
    obtain ok h2 ch where app: "chain_append r (h1, tc_chain c1) = (ok, h2, ch)" using prod_cases3 by blast
    have "chain_ok (tc_chain c1)" using p(2) r(4) by simp
    note a = append_chunk [OF r(5) this app]
    have "receive_safe R X h1 (framed_resume tls f ev (h, c))"
    proof (cases ok)
      case True
      have "ch_count ch \<le> Suc (ch_count (tc_chain c))" using a(6) True r(4) by simp
      then have "size R + 1 + 2 * ch_count (tc_chain (c1\<lparr>tc_chain := ch\<rparr>)) < 2 ^ 32" using room by simp
      then have "receive_safe R X h2 (framed_turn f (h2, c1\<lparr>tc_chain := ch\<rparr>))"
        using a(4) True by (intro framed_turn_safe) simp_all
      then show ?thesis
        using receive_safe_trans a(2,3) r(1,2) True by (simp add: framed_resume_def run app ref_valid_def)
    next
      case False
      then show ?thesis
        using a(1-3) r(1,2) by (simp add: framed_resume_def run app ref_valid_def receive_safe_def)
    qed
    then show ?thesis by (rule receive_safe_trans) (use r(6,7) in simp_all)
  qed
qed

lemma ref_bytes_deallocate: "ref_bytes (res_deallocate u h) r = ref_bytes h r"
  by (simp add: ref_bytes_def heap_simps split: option.split)

lemma chunk_message_correct:
  assumes inv: "tcp_mem h c (add_mset r R) X" and ok: "chain_ok (tc_chain c)"
    and run: "chunk_message r (h, c) = (res, h', c')"
  shows "receive_safe R X h (res, h', c')" and "c' = c"
    and "case res of Done (Inr m) \<Rightarrow> message_bytes h' m = ref_bytes h r \<and> \<not> msg_eom m | Raised \<Rightarrow> True | _ \<Rightarrow> False"
proof -
  let ?res = "pool_resource (tc_pool c)" and ?L = "mset (ch_live (tc_chain c))" and ?U = "chain_units (tc_chain c)"
  let ?S = "add_mset (tc_current c) (?L + R)"
  have hi: "heap_inv h (add_mset r ?S) (?U + X)"
    and tf: "tail_free (?L + add_mset r R) (tc_current c)" and pool: "pool_ok (tc_pool c) h"
    and rest: "chain_shape (tc_chain c)" "br_begin (tc_current c) = br_end (tc_current c)"
    using inv by (auto simp: tcp_mem_def add_mset_commute)
  obtain h1 oc where 1: "make_chain ?res (h, empty_chain) = (h1, oc)" by fastforce
  have "heap_inv h (mset (ch_live empty_chain) + add_mset r ?S) (chain_units empty_chain + (?U + X))"
    using hi by (simp add: chain_units_empty)
  note m = make_chain_correct [OF chain_ok_empty(1) this 1]
  have l1: "later h h1" using 1 by (rule later_make_chain)
  have k1: "same_bytes (add_mset r ?S) h h1" using m by (auto split: option.splits intro!: keeps_same_bytes)
  have "receive_safe R X h (res, h', c') \<and> c' = c \<and>
    (case res of Done (Inr m) \<Rightarrow> message_bytes h' m = ref_bytes h r \<and> \<not> msg_eom m | Raised \<Rightarrow> True | _ \<Rightarrow> False)"
  proof (cases oc)
    case None
    have out: "res = Raised" "h' = ref_drop r h1" "c' = c" using run 1 None by (simp_all add: chunk_message_def)
    have "heap_inv h1 (add_mset r ?S) (?U + X)" using m None by simp
    note d = heap_inv_ref_drop [OF this]
    have l: "later h h'" unfolding out using l1 by (rule later_trans) simp
    have "same_bytes ?S h1 h'" unfolding out using d(2) by (rule keeps_same_bytes)
    then have "same_bytes R h h'" using k1 by (auto simp: same_bytes_def)
    moreover have "tcp_mem h' c R X"
      using d(1) tf rest later_pool_ok [OF l pool] by (simp add: tcp_mem_def out)
    ultimately show ?thesis using l by (simp add: out receive_safe_def)
  next
    case (Some ch)
    let ?Y = "add_mset (Chain_Alloc ?res) (?U + X)"
    obtain app h2 ch2 where 2: "chain_append r (h1, ch) = (app, h2, ch2)" using prod_cases3 by blast
    have ch: "chain_ok ch" "ch_live ch = []" using m Some by auto
    have hi1: "heap_inv h1 (add_mset r (mset (ch_live ch) + ?S)) (chain_units ch + ?Y)"
      using m Some ch by (auto simp: add_mset_commute)
    note a = chain_append_correct [OF ch(1) hi1 2]
    have l2: "later h h2" using l1 later_append [OF 2] by (rule later_trans)
    have "keeps (mset (ch_live ch2) + ?S) h1 h2" using a by blast
    then have k2: "same_bytes R h h2" using k1 by (auto dest!: keeps_same_bytes simp: same_bytes_def)
    show ?thesis
    proof (cases app)
      case False
      have out: "res = Raised" "h' = res_deallocate (Chain_Alloc ?res) (chain_destroy (h2, ch2))" "c' = c"
        using run 1 2 Some False by (auto simp: chunk_message_def)
      have "heap_inv h2 (mset (ch_live ch2) + ?S) (chain_units ch2 + ?Y)" "chain_shape ch2" using a by blast+
      note d = chain_destroy_correct [OF this(2,1)]
      have l: "later h h'" unfolding out later_deallocate using l2 by (rule later_trans) simp
      have "heap_inv h' ?S (?U + X)" unfolding out using d(1) by (rule heap_inv_deallocate)
      then have "tcp_mem h' c R X" using tf rest later_pool_ok [OF l pool] by (simp add: tcp_mem_def)
      moreover have "same_bytes ?S h2 (chain_destroy (h2, ch2))" using d(2) by (rule keeps_same_bytes)
      then have "same_bytes R h h'" using k2 by (auto simp: same_bytes_def out ref_bytes_deallocate)
      ultimately show ?thesis using l by (simp add: out(1,3) receive_safe_def)
    next
      case True
      let ?m = "message_of_chain (?res, ch2) default_context False"
      have out: "res = Done (Inr ?m)" "h' = h2" "c' = c" using run 1 2 Some True by (auto simp: chunk_message_def)
      have live: "ch_live ch2 = append_refs [] r" using a ch True by simp
      have "tail_free (mset (ch_live ch2)) (tc_current c)"
        using tf unfolding live by (auto simp: append_refs_def)
      moreover have "heap_inv h2 (add_mset (tc_current c) (?L + (message_refs ?m + R))) (?U + (message_units ?m + X))"
        using a by (auto simp: add.left_commute)
      ultimately have "tcp_inv h2 c (message_refs ?m + R) (message_units ?m + X)"
        using tf rest ok later_pool_ok [OF l2 pool] by (simp add: tcp_inv_def tcp_mem_def)
      moreover have "chain_bytes h2 ch2 = ref_bytes h r"
        using chain_append_bytes [OF ch(1) hi1] 2 True k1 ch(2) by (simp add: chain_bytes_def same_bytes_def)
      ultimately show ?thesis using k2 l2 a True by (simp add: out receive_safe_def)
    qed
  qed
  then show "receive_safe R X h (res, h', c')" and "c' = c"
    and "case res of Done (Inr m) \<Rightarrow> message_bytes h' m = ref_bytes h r \<and> \<not> msg_eom m | Raised \<Rightarrow> True | _ \<Rightarrow> False"
    by blast+
qed

lemma unframed_resume_safe:
  assumes inv: "tcp_inv h c R X" and room: "size R + 3 + 2 * ch_count (tc_chain c) < 2 ^ 32"
    and valid: "ref_valid (tc_current c)" and fits: "read_fits ev (h, c)"
  shows "receive_safe R X h (unframed_resume tls ev (h, c))"
proof -
  obtain res h1 c1 where run: "finish_read tls ev (h, c) = (res, h1, c1)" using prod_cases3 by blast
  note p = tcp_inv_parts [OF inv]
  show ?thesis
  proof (cases ev)
    case (Failed ec)
    note f = finish_read_failed [OF run [unfolded Failed]]
    have i: "tcp_inv h c1 R X" using inv by (subst f(2)) simp
    then have "receive_safe R X h (empty_message True (h, c1\<lparr>tc_ended := True\<rparr>))"
      by (intro empty_message_safe) simp
    then show ?thesis
      using fail_with_safe [OF i] f(1,3) by (simp add: unframed_resume_def run ref_valid_def)
  next
    case (Data bytes)
    obtain b where b: "br_blk (tc_current c) = Some b" using valid by (auto simp: ref_valid_def)
    have "length bytes \<le> capacity_after_begin h (tc_current c)" using fits Data by (simp add: read_fits_def)
    moreover have "size (mset (ch_live (tc_chain c)) + R) + 2 < 2 ^ 32"
      using room length_ch_live [OF p(3)] by simp
    ultimately obtain r where r: "res = Inr r" "br_blk r = Some b" "tc_chain c1 = tc_chain c"
      "tcp_mem h1 c1 (add_mset r R) X" "same_bytes (mset (ch_live (tc_chain c)) + R) h h1" "later h h1"
      using finish_read_data [OF p(1) b _ _ run [unfolded Data]] by metis
    obtain res2 h2 c2 where run2: "chunk_message r (h1, c1) = (res2, h2, c2)" using prod_cases3 by blast
    have "chain_ok (tc_chain c1)" using p(2) r(3) by simp
    note m = chunk_message_correct [OF r(4) this run2]
    have "receive_safe R X h1 (unframed_resume tls ev (h, c))"
      using m(1) r(1,2) by (simp add: unframed_resume_def run run2 ref_valid_def)
    then show ?thesis by (rule receive_safe_trans) (use r(5,6) in simp_all)
  qed
qed

lemma receive_start_safe:
  assumes "tcp_inv h c R X" and "size R + 3 + 2 * ch_count (tc_chain c) < 2 ^ 32"
  shows "receive_safe R X h (receive_start f (h, c))"
proof -
  have "receive_safe R X h (framed_turn fr (h, c))" for fr using assms by (intro framed_turn_safe) simp_all
  moreover have "receive_safe R X h (Done (Inl e), h, c)" for e using assms(1) by (simp add: receive_safe_def)
  ultimately show ?thesis
    using await_read_safe [OF assms(1)] by (simp add: receive_start_def split: option.split)
qed

lemma receive_resume_safe:
  assumes "tcp_inv h c R X" and "size R + 3 + 2 * ch_count (tc_chain c) < 2 ^ 32"
    and "ref_valid (tc_current c)" and "read_fits ev (h, c)"
  shows "receive_safe R X h (receive_resume tls f ev (h, c))"
  using framed_resume_safe [OF assms] unframed_resume_safe [OF assms]
  by (simp add: receive_resume_def split: option.split)

end
