(* ===== verification/Tcp_Stream.thy ===== *)
theory Tcp_Stream
  imports Tcp_Receive
begin

text \<open>
  A TCP connection that receives a stream to its end: the messages the application gets are the ones
  that were framed into the stream, however the network cuts it into reads.
\<close>

section \<open>The socket and the application\<close>

text \<open>
  A socket with the bytes \<open>pending\<close> before the end of the stream. A read into a buffer of \<open>n\<close> bytes
  yields at least one byte and at most \<open>n\<close>; \<open>pick\<close> decides how many. A read into an empty buffer
  completes at once with nothing.
\<close>

definition end_of_file :: error_code where
  "end_of_file = \<lparr>ec_value = EC_eof, ec_message = ''End of file''\<rparr>"

definition socket_read :: "(nat \<Rightarrow> nat) \<Rightarrow> byte list \<Rightarrow> nat \<Rightarrow> read_event \<times> byte list" where
  "socket_read pick pending n =
    (if n = 0 then (Data [], pending)
     else if pending = [] then (Failed end_of_file, [])
     else (let k = min n (max 1 (pick (length pending))) in (Data (take k pending), drop k pending)))"

text \<open>One \<open>receive()\<close> with this socket, to its result; \<open>None\<close> if it never gets one.\<close>

partial_function (option) receive_run ::
  "bool \<Rightarrow> (nat \<Rightarrow> nat) \<Rightarrow> framer option \<Rightarrow> byte list \<Rightarrow> receiving \<times> tcp \<Rightarrow> (receiving \<times> tcp \<times> byte list) option"
where
  "receive_run tls pick f pending st =
    (case st of (r, s) \<Rightarrow>
      (case r of
         Reading n \<Rightarrow>
           (case socket_read pick pending n of (ev, rest) \<Rightarrow>
             receive_run tls pick f rest (receive_resume tls f ev s))
       | _ \<Rightarrow> Some (r, s, pending)))"

lemma receive_run_simps [simp]:
  "receive_run tls pick f pending (Done r, s) = Some (Done r, s, pending)"
  "receive_run tls pick f pending (Raised, s) = Some (Raised, s, pending)"
  "receive_run tls pick f pending (Reading n, s) =
    (case socket_read pick pending n of (ev, rest) \<Rightarrow>
       receive_run tls pick f rest (receive_resume tls f ev s))"
  by (subst receive_run.simps, simp)+

text \<open>An application that calls \<open>receive()\<close> \<open>n\<close> times and keeps the messages.\<close>

fun receive_all :: "bool \<Rightarrow> (nat \<Rightarrow> nat) \<Rightarrow> framer option \<Rightarrow> nat \<Rightarrow> byte list \<Rightarrow> tcp
    \<Rightarrow> (message list \<times> tcp \<times> byte list) option" where
  "receive_all tls pick f 0 pending s = Some ([], s, pending)"
| "receive_all tls pick f (Suc n) pending s =
    (case receive_run tls pick f pending (receive_start f s) of
       Some (Done (Inr m), s1, pending1) \<Rightarrow>
         (case receive_all tls pick f n pending1 s1 of
            Some (ms, s2, pending2) \<Rightarrow> Some (m # ms, s2, pending2)
          | None \<Rightarrow> None)
     | _ \<Rightarrow> None)"

lemma receive_all_Suc:
  "receive_run tls pick f pending (receive_start f s) = Some (Done (Inr m), s1, p1) \<Longrightarrow>
    receive_all tls pick f n p1 s1 = Some (ms, s2, p2) \<Longrightarrow>
    receive_all tls pick f (Suc n) pending s = Some (m # ms, s2, p2)"
  by simp

section \<open>Progress\<close>

text \<open>With a resource that grants everything and no cap on the blocks, every read gets a buffer.\<close>

lemma start_read_granted:
  assumes "h_grants h = []" and "pool_live (tc_pool c) = None"
  shows "\<exists>n s. start_read (h, c) = (Returned (Inr n), s)"
  using assms
  by (simp add: start_read_def acquire_def create_block_def granted ref_make_def ref_assign_move_def Let_def
      ref_valid_def)

lemma await_read_granted:
  assumes inv: "tcp_inv h c R X" and g: "h_grants h = []" "pool_live (tc_pool c) = None"
  obtains n h1 c1 where "await_read (h, c) = (Reading n, h1, c1)" "tcp_inv h1 c1 R X" "same_conn c c1"
    "chain_bytes h1 (tc_chain c1) = chain_bytes h (tc_chain c)" "same_bytes R h h1" "later h h1"
    "ref_valid (tc_current c1)" "n = capacity_after_begin h1 (tc_current c1)" "reuse_threshold c \<le> n"
    "tc_message_open c1 = tc_message_open c" "ch_count (tc_chain c1) = ch_count (tc_chain c)"
proof -
  obtain n h1 c1 where run: "start_read (h, c) = (Returned (Inr n), h1, c1)"
    using start_read_granted [OF g] by (metis prod.exhaust)
  note s = start_read_correct [OF tcp_inv_parts(1) [OF inv] run]
  have b: "same_bytes R h h1" "same_bytes (mset (ch_live (tc_chain c))) h h1"
    using keeps_same_bytes [OF s(4)] by simp_all
  show ?thesis
    by (rule that [of n h1 c1])
       (use s b same_bytes_chain [OF b(2)] tcp_inv_parts(2) [OF inv] in \<open>auto simp: await_read_def run tcp_inv_def\<close>)
qed

lemma framed_resume_data:
  assumes inv: "tcp_inv h c R X" and room: "size R + 3 + 2 * ch_count (tc_chain c) < 2 ^ 32"
    and valid: "ref_valid (tc_current c)" and fits: "length bytes \<le> capacity_after_begin h (tc_current c)"
    and g: "h_grants h = []"
  obtains h2 c2 where "framed_resume tls f (Data bytes) (h, c) = framed_turn f (h2, c2)" "tcp_inv h2 c2 R X"
    "same_conn c c2" "chain_bytes h2 (tc_chain c2) = chain_bytes h (tc_chain c) @ bytes" "same_bytes R h h2"
    "later h h2" "tc_message_open c2 = tc_message_open c"
proof -
  note p = tcp_inv_parts [OF inv]
  obtain res h1 c1 where run: "finish_read tls (Data bytes) (h, c) = (res, h1, c1)" using prod_cases3 by blast
  obtain b where b: "br_blk (tc_current c) = Some b" using valid by (auto simp: ref_valid_def)
  have "size (mset (ch_live (tc_chain c)) + R) + 2 < 2 ^ 32"
    using room length_ch_live [OF p(3)] by simp
  from p(1) b fits this run
  obtain r where r: "res = Inr r" "br_blk r = Some b" "same_conn c c1" "tc_chain c1 = tc_chain c"
    "tcp_mem h1 c1 (add_mset r R) X" "same_bytes (mset (ch_live (tc_chain c)) + R) h h1" "later h h1"
    "ref_bytes h1 r = bytes" "tc_message_open c1 = tc_message_open c"
    by (rule finish_read_data)
  have "h_grants h1 = []" using r(7) g by (simp add: later_def)
  then obtain h2 ch where app: "chain_append r (h1, tc_chain c1) = (True, h2, ch)"
    using append_granted by (metis fst_conv prod.exhaust)
  have "chain_ok (tc_chain c1)" using p(2) r(4) by simp
  note a = append_chunk [OF r(5) this app]
  have "chain_bytes h1 (tc_chain c) = chain_bytes h (tc_chain c)" using r(6) by (intro same_bytes_chain) simp
  then have bytes: "chain_bytes h2 ch = chain_bytes h (tc_chain c) @ bytes" using a(5) r(4,8) by simp
  show ?thesis
  proof (rule that)
    show "framed_resume tls f (Data bytes) (h, c) = framed_turn f (h2, c1\<lparr>tc_chain := ch\<rparr>)"
      using r(1,2) by (simp add: framed_resume_def run app ref_valid_def)
    show "same_bytes R h h2" using r(6) a(2) by (auto intro: same_bytes_trans)
    show "later h h2" using r(7) a(3) by (rule later_trans)
  qed (use r(3,9) a(4) bytes in simp_all)
qed

lemma deliver_record_granted:
  assumes inv: "tcp_inv h c R X" and g: "h_grants h = []" and "\<not> pr_gather pr"
  shows "fst (deliver_record pr (h, c)) \<noteq> Raised"
proof -
  obtain h1 c1 where 1: "(if pr_discard_before pr > 0 then drop_received (unat (pr_discard_before pr)) (h, c) else (h, c)) = (h1, c1)"
    by fastforce
  have "later h h1"
    using 1 drop_received_correct(5) [OF inv, of "unat (pr_discard_before pr)" h1 c1] by (auto split: if_splits)
  then have g1: "h_grants h1 = []" using g by (simp add: later_def)
  then obtain h2 tmp where 2: "chain_first (unat (pr_deliver pr)) (h1, tc_chain c1) = (h2, Some tmp)"
    using chain_first_granted by (metis option.collapse prod.collapse)
  have "h_grants h2 = []" using later_chain_first [OF 2] g1 by (simp add: later_def)
  then obtain h3 ch where "make_chain (pool_resource (tc_pool c1)) (h2, tmp) = (h3, Some ch)"
    using make_chain_granted by (metis option.collapse prod.collapse)
  then show ?thesis using 1 2 assms(3) by (simp add: deliver_record_def gather_if_def Let_def split: prod.split)
qed

section \<open>What a turn of the loop does, by the framer's specification\<close>

context deframer
begin

lemma spec_nothing: "spec [] eof = More"
proof (cases "spec [] eof")
  case (Record d k e g)
  then show ?thesis using record_bounds [of "[]" eof d k e g] by auto
qed simp

lemma turn_record:
  assumes inv: "tcp_inv h c R X" and small: "ch_size (tc_chain c) < 2 ^ 64" and f: "fr_parse f = parse"
    and spec: "spec (chain_bytes h (tc_chain c)) (tc_eof c) = Record d k e g"
  obtains pr where "framed_turn f (h, c) = deliver_record pr (h, c)" "unat (pr_discard_before pr) = d"
    "unat (pr_deliver pr) = k" "pr_end_of_message pr = e" "pr_gather pr = g"
proof -
  let ?pr = "parse (h, tc_chain c) (tc_eof c)"
  note p = tcp_inv_parts [OF inv]
  from p(2,5) small show ?thesis
  proof (cases rule: parse_cases [where eof = "tc_eof c"])
    case (emitted d' k' e' g')
    have eq: "d' = d" "k' = k" "e' = e" "g' = g" using emitted(2) spec by simp_all
    have "unat (pr_discard_before ?pr + pr_deliver ?pr) \<noteq> 0" using emitted(5,8) by simp
    then have "pr_discard_before ?pr + pr_deliver ?pr \<noteq> 0" by auto
    then have "framed_turn f (h, c) = deliver_record ?pr (h, c)"
      using emitted(1,5,9) f by (simp add: framed_turn_def Let_def)
    then show ?thesis using that emitted(3,4,6,7) eq by blast
  qed (use spec in simp)
qed

lemma turn_more:
  assumes inv: "tcp_inv h c R X" and small: "ch_size (tc_chain c) < 2 ^ 64" and f: "fr_parse f = parse"
    and spec: "spec (chain_bytes h (tc_chain c)) (tc_eof c) = More"
  shows "\<not> tc_eof c \<Longrightarrow> framed_turn f (h, c) = await_read (h, c)"
    and "tc_eof c \<Longrightarrow> chain_bytes h (tc_chain c) = [] \<Longrightarrow> \<not> tc_message_open c \<Longrightarrow>
      framed_turn f (h, c) = empty_message True (h, c\<lparr>tc_ended := True\<rparr>)"
proof -
  note p = tcp_inv_parts [OF inv]
  have more: "pr_action (parse (h, tc_chain c) (tc_eof c)) = NeedMore"
    using p(2,5) small by (cases rule: parse_cases [where eof = "tc_eof c"]) (use spec in simp_all)
  then show "\<not> tc_eof c \<Longrightarrow> framed_turn f (h, c) = await_read (h, c)"
    by (simp add: framed_turn_def f Let_def)
  show "framed_turn f (h, c) = empty_message True (h, c\<lparr>tc_ended := True\<rparr>)"
    if "tc_eof c" "chain_bytes h (tc_chain c) = []" "\<not> tc_message_open c"
    using more that chain_bytes_length [OF p(2,5)] by (simp add: framed_turn_def f Let_def)
qed

text \<open>At the end of the stream, bytes that make no record, or a message that was not finished, are an error.\<close>

lemma turn_fails:
  assumes inv: "tcp_inv h c R X" and small: "ch_size (tc_chain c) < 2 ^ 64" and f: "fr_parse f = parse"
    and spec: "spec (chain_bytes h (tc_chain c)) (tc_eof c) = More" and eof: "tc_eof c"
    and left: "tc_message_open c \<or> chain_bytes h (tc_chain c) \<noteq> []"
  shows "\<exists>e h' c'. framed_turn f (h, c) = (Done (Inl e), h', c') \<and> err_event e = RECEIVE_ERROR \<and>
    err_reason e = DEFRAMING_FAILED \<and> tc_ended c'"
proof -
  note p = tcp_inv_parts [OF inv]
  have more: "pr_action (parse (h, tc_chain c) True) = NeedMore"
    using p(2,5) small by (cases rule: parse_cases [where eof = True]) (use spec eof in simp_all)
  have left': "tc_message_open c \<or> 0 < ch_size (tc_chain c)"
    using left chain_bytes_length [OF p(2,5)] by auto
  obtain h1 c1 where run: "drop_received (ch_size (tc_chain c)) (h, c) = (h1, c1)" by fastforce
  have "tc_eof c1" using drop_received_correct(2) [OF inv run] eof by (simp add: same_conn_def)
  then show ?thesis
    using more eof left' by (simp add: framed_turn_def f Let_def fail_with_def receive_failure_def run)
qed

end

text \<open>What the application can rely on in between: the connection as \<open>receive()\<close> leaves it, with unread bytes.\<close>

definition receiving_stream :: "byte list \<Rightarrow> block_ref multiset \<Rightarrow> alloc_unit multiset \<Rightarrow> tcp \<Rightarrow> bool" where
  "receiving_stream bs R X s \<longleftrightarrow>
    (case s of (h, c) \<Rightarrow>
      tcp_inv h c R X \<and> chain_bytes h (tc_chain c) = bs \<and> h_grants h = [] \<and> pool_live (tc_pool c) = None \<and>
      4 \<le> pool_block_size (tc_pool c) \<and> can_receive c \<and> \<not> tc_eof c \<and> \<not> tc_message_open c)"

lemma chain_count_le:
  assumes "chain_ok c"
  shows "length (ch_live c) \<le> ch_size c" and "ch_count c \<le> ch_size c"
proof -
  have "length rs \<le> refs_size rs" if "\<And>r. r \<in> set rs \<Longrightarrow> ref_good r" for rs
    using that
  proof (induction rs)
    case (Cons r rs)
    then have "0 < ref_size r" by (simp add: ref_good_size)
    then show ?case using Cons by fastforce
  qed simp
  then show "length (ch_live c) \<le> ch_size c"
    using assms by (simp add: chain_ok_def chain_shape_def)
  then show "ch_count c \<le> ch_size c" using assms length_ch_live by (simp add: chain_ok_def)
qed

lemma message_refs_size:
  assumes "message_ok h m" and "heap_inv h (message_refs m + R) X"
  shows "size (message_refs m) \<le> length (message_bytes h m)"
  using assms chain_count_le(1) chain_bytes_length
  by (fastforce simp: message_refs_def message_ok_def message_bytes_def split: option.splits prod.splits)

lemma receiving_stream_size:
  assumes "receiving_stream bs R X (h, c)"
  shows "ch_size (tc_chain c) = length bs" and "ch_count (tc_chain c) \<le> length bs"
proof -
  have i: "tcp_inv h c R X" and b: "chain_bytes h (tc_chain c) = bs"
    using assms by (simp_all add: receiving_stream_def)
  note p = tcp_inv_parts [OF i]
  show s: "ch_size (tc_chain c) = length bs" using chain_bytes_length [OF p(2,5)] b by simp
  show "ch_count (tc_chain c) \<le> length bs" using chain_count_le(2) [OF p(2)] s by simp
qed

lemma socket_read_some:
  assumes "0 < n" and "pending \<noteq> []"
  obtains bytes rest where "socket_read pick pending n = (Data bytes, rest)" "pending = bytes @ rest"
    "bytes \<noteq> []" "length bytes \<le> n"
  by (rule that [of "take (min n (max 1 (pick (length pending)))) pending"
        "drop (min n (max 1 (pick (length pending)))) pending"])
     (use assms in \<open>auto simp: socket_read_def Let_def\<close>)

text \<open>One read, in a state of the stream: its bytes join those that have arrived.\<close>

lemma await_then_read:
  assumes st: "receiving_stream bs R X (h, c)" and room: "size R + 3 + 2 * length bs < 2 ^ 32"
    and pending: "pending \<noteq> []"
  obtains bytes rest h1 c1 where "pending = bytes @ rest" "bytes \<noteq> []"
    "receive_run tls pick (Some f) pending (await_read (h, c)) = receive_run tls pick (Some f) rest (framed_turn f (h1, c1))"
    "receiving_stream (bs @ bytes) R X (h1, c1)" "same_bytes R h h1"
proof -
  have inv: "tcp_inv h c R X" and g: "h_grants h = []" "pool_live (tc_pool c) = None"
    using st by (simp_all add: receiving_stream_def)
  obtain n h1 c1 where 1: "await_read (h, c) = (Reading n, h1, c1)" "tcp_inv h1 c1 R X" "same_conn c c1"
    "chain_bytes h1 (tc_chain c1) = chain_bytes h (tc_chain c)" "same_bytes R h h1" "later h h1"
    "ref_valid (tc_current c1)" "n = capacity_after_begin h1 (tc_current c1)" "reuse_threshold c \<le> n"
    "tc_message_open c1 = tc_message_open c" "ch_count (tc_chain c1) = ch_count (tc_chain c)"
    by (rule await_read_granted [OF inv g])
  have "0 < reuse_threshold c"
    using st by (simp add: receiving_stream_def reuse_threshold_def div_greater_zero_iff)
  then have "0 < n" using 1(9) by simp
  then obtain bytes rest where 2: "socket_read pick pending n = (Data bytes, rest)" "pending = bytes @ rest"
    "bytes \<noteq> []" "length bytes \<le> n"
    using pending by (rule socket_read_some)
  have "h_grants h1 = []" using g(1) 1(6) by (simp add: later_def)
  moreover have "size R + 3 + 2 * ch_count (tc_chain c1) < 2 ^ 32"
    using room receiving_stream_size(2) [OF st] 1(11) by linarith
  ultimately obtain h2 c2 where 3: "framed_resume tls f (Data bytes) (h1, c1) = framed_turn f (h2, c2)"
    "tcp_inv h2 c2 R X" "same_conn c1 c2" "chain_bytes h2 (tc_chain c2) = chain_bytes h1 (tc_chain c1) @ bytes"
    "same_bytes R h1 h2" "later h1 h2" "tc_message_open c2 = tc_message_open c1"
    using framed_resume_data [OF 1(2) _ 1(7), where tls = tls and f = f] 2(4) 1(8) by metis
  show ?thesis
  proof (rule that [OF 2(2,3)])
    show "receive_run tls pick (Some f) pending (await_read (h, c)) = receive_run tls pick (Some f) rest (framed_turn f (h2, c2))"
      using 3(1) 2(1) by (simp add: 1(1) receive_resume_def)
    have "later h h2" using 1(6) 3(6) by (rule later_trans)
    then show "receiving_stream (bs @ bytes) R X (h2, c2)"
      using st 1(3,4,10) 3(2,3,4,7) by (auto simp: receiving_stream_def same_conn_def can_receive_def later_def)
    show "same_bytes R h h2" using 1(5) 3(5) by (rule same_bytes_trans)
  qed
qed

section \<open>The stream theorem\<close>

context stream_deframer
begin

text \<open>One \<open>receive()\<close> takes the next message off the stream, after as many reads as it needs.\<close>

lemma receive_next:
  assumes f: "fr_parse f = parse" and st: "receiving_stream bs R X (h, c)" and fits: "\<And>x. x \<in> set (m # ms) \<Longrightarrow> fits x"
    and stream: "bs @ pending = encode_all (m # ms)" and room: "size R + 3 + 2 * length (bs @ pending) < 2 ^ 32"
  shows "\<exists>msg h' c' bs' pending'.
    receive_run tls pick (Some f) pending (framed_turn f (h, c)) = Some (Done (Inr msg), (h', c'), pending') \<and>
    receiving_stream bs' (message_refs msg + R) (message_units msg + X) (h', c') \<and> bs' @ pending' = encode_all ms \<and>
    message_ok h' msg \<and> message_bytes h' msg = m \<and> msg_eom msg \<and> same_bytes R h h'"
  using st stream room
proof (induction "length pending" arbitrary: bs pending h c rule: less_induct)
  case less
  note st = less.prems(1) and stream = less.prems(2) and room = less.prems(3)
  have inv: "tcp_inv h c R X" and bs: "chain_bytes h (tc_chain c) = bs" and eof: "\<not> tc_eof c" and g: "h_grants h = []"
    using st by (simp_all add: receiving_stream_def)
  have small: "ch_size (tc_chain c) < 2 ^ 64" using receiving_stream_size(1) [OF st] room by simp
  from spec_prefix_cases [OF fits stream [symmetric], where eof = False]
  consider (part) "spec bs False = More" "length bs < length (header m @ m)"
    | (whole) rest where "bs = header m @ m @ rest" "rest @ pending = encode_all ms"
        "spec bs False = Record (length (header m)) (length m) True False"
    by auto
  then show ?case
  proof cases
    case part
    have turn: "framed_turn f (h, c) = await_read (h, c)"
      using turn_more(1) [OF inv small f] part(1) bs eof by simp
    have "pending \<noteq> []" using part(2) stream by auto
    moreover have "size R + 3 + 2 * length bs < 2 ^ 32" using room by simp
    ultimately obtain bytes rest h1 c1 where r: "pending = bytes @ rest" "bytes \<noteq> []"
      "receive_run tls pick (Some f) pending (await_read (h, c)) = receive_run tls pick (Some f) rest (framed_turn f (h1, c1))"
      "receiving_stream (bs @ bytes) R X (h1, c1)" "same_bytes R h h1"
      by (metis await_then_read [OF st])
    have "length rest < length pending" "(bs @ bytes) @ rest = encode_all (m # ms)"
      "size R + 3 + 2 * length ((bs @ bytes) @ rest) < 2 ^ 32"
      using r(1,2) stream room by auto
    from less.hyps [OF this(1) r(4) this(2,3)] show ?thesis
      unfolding turn r(3) using r(5) by (blast intro: same_bytes_trans)
  next
    case whole
    obtain pr where pr: "framed_turn f (h, c) = deliver_record pr (h, c)" "unat (pr_discard_before pr) = length (header m)"
      "unat (pr_deliver pr) = length m" "pr_end_of_message pr" "\<not> pr_gather pr"
      using turn_record [OF inv small f] whole(3) bs eof by (metis (full_types))
    obtain res h' c' where run: "deliver_record pr (h, c) = (res, h', c')" using prod_cases3 by blast
    have "size R + 1 + 2 * ch_count (tc_chain c) < 2 ^ 32"
      using room receiving_stream_size(2) [OF st] by simp
    note d = deliver_record_correct [OF inv this run]
    have "res \<noteq> Raised" using deliver_record_granted [OF inv g pr(5)] by (simp add: run)
    then obtain msg where msg: "res = Done (Inr msg)"
      using d(4) by (auto simp: delivers_def split: receiving.splits sum.splits)
    have "receiving_stream rest (message_refs msg + R) (message_units msg + X) (h', c')"
      using d(1,3,4) st bs whole(1) pr(2-4)
      by (auto simp: delivers_def msg receiving_stream_def same_conn_def can_receive_def later_def)
    moreover have "message_ok h' msg \<and> message_bytes h' msg = m \<and> msg_eom msg"
      using d(4) bs whole(1) pr(2-4) by (simp add: delivers_def msg)
    ultimately show ?thesis using d(2) whole(2) by (auto simp: pr(1) run msg)
  qed
qed

text \<open>At the end of the stream comes an empty message, and nothing after it.\<close>

lemma receive_end:
  assumes f: "fr_parse f = parse" and st: "receiving_stream [] R X (h, c)"
  shows "\<exists>msg h' c'.
    receive_run tls pick (Some f) [] (framed_turn f (h, c)) = Some (Done (Inr msg), (h', c'), []) \<and>
    tcp_inv h' c' (message_refs msg + R) (message_units msg + X) \<and> message_ok h' msg \<and>
    message_bytes h' msg = [] \<and> msg_eom msg \<and> same_bytes R h h' \<and> tc_ended c'"
proof -
  have inv: "tcp_inv h c R X" and bs: "chain_bytes h (tc_chain c) = []" and eof: "\<not> tc_eof c"
    and g: "h_grants h = []" "pool_live (tc_pool c) = None"
    using st by (simp_all add: receiving_stream_def)
  have small: "ch_size (tc_chain c) < 2 ^ 64" using receiving_stream_size(1) [OF st] by simp
  obtain n h1 c1 where 1: "await_read (h, c) = (Reading n, h1, c1)" "tcp_inv h1 c1 R X" "same_conn c c1"
    "chain_bytes h1 (tc_chain c1) = chain_bytes h (tc_chain c)" "same_bytes R h h1" "later h h1"
    "reuse_threshold c \<le> n" "tc_message_open c1 = tc_message_open c"
    by (rule await_read_granted [OF inv g])
  have "0 < reuse_threshold c"
    using st by (simp add: receiving_stream_def reuse_threshold_def div_greater_zero_iff)
  then have "0 < n" using 1(7) by simp
  let ?c2 = "c1\<lparr>tc_eof := True\<rparr>"
  have 2: "tcp_inv h1 ?c2 R X" "chain_bytes h1 (tc_chain ?c2) = []" "\<not> tc_message_open ?c2"
    using 1(2,4,8) bs st by (simp_all add: receiving_stream_def)
  have small2: "ch_size (tc_chain ?c2) < 2 ^ 64"
    using chain_bytes_length [OF tcp_inv_parts(2,5) [OF 2(1)]] 2(2) by simp
  have "framed_turn f (h1, ?c2) = empty_message True (h1, ?c2\<lparr>tc_ended := True\<rparr>)"
    using turn_more(2) [OF 2(1) small2 f] 2(2,3) spec_nothing by simp
  moreover have "framed_turn f (h, c) = await_read (h, c)"
    using turn_more(1) [OF inv small f] bs eof spec_nothing by simp
  ultimately have run: "receive_run tls pick (Some f) [] (framed_turn f (h, c))
      = receive_run tls pick (Some f) [] (empty_message True (h1, ?c2\<lparr>tc_ended := True\<rparr>))"
    using \<open>0 < n\<close> by (simp add: 1(1) socket_read_def receive_resume_def framed_resume_def finish_read_def
        end_of_file_def ref_valid_def)
  have "h_grants h1 = []" using g(1) 1(6) by (simp add: later_def)
  then obtain h2 ch where mk: "make_chain (pool_resource (tc_pool c1)) (h1, empty_chain) = (h2, Some ch)"
    using make_chain_granted by (metis option.collapse prod.collapse)
  let ?msg = "message_of_chain (pool_resource (tc_pool c1), ch) default_context True"
  have e: "empty_message True (h1, ?c2\<lparr>tc_ended := True\<rparr>) = (Done (Inr ?msg), h2, ?c2\<lparr>tc_ended := True\<rparr>)"
    by (simp add: empty_message_def mk)
  have "tcp_inv h1 (?c2\<lparr>tc_ended := True\<rparr>) R X" using 2(1) by simp
  from empty_message_safe [OF this, of True]
  have s: "tcp_inv h2 c1 (message_refs ?msg + R) (message_units ?msg + X)" "chain_ok ch" "same_bytes R h1 h2"
    by (simp_all add: e receive_safe_def)
  have "heap_inv h1 (mset (ch_live empty_chain) + add_mset (tc_current c1) (mset (ch_live (tc_chain c1)) + R))
      (chain_units empty_chain + (chain_units (tc_chain c1) + X))"
    using tcp_inv_parts(4) [OF 1(2)] by (simp add: chain_units_empty)
  from make_chain_correct [OF chain_ok_empty(1) this mk] have "chain_bytes h2 ch = []"
    by (simp add: chain_bytes_def)
  then show ?thesis using run e s same_bytes_trans [OF 1(5) s(3)] by simp
qed

text \<open>
  The whole stream: \<open>n\<close> framed messages are received as \<open>n\<close> messages and the empty one at the end. They
  are read in the final heap, so that later receives have not disturbed earlier messages.
\<close>

lemma receive_stream:
  assumes f: "fr_parse f = parse" and st: "receiving_stream bs R X (h, c)" and fits: "\<And>x. x \<in> set ms \<Longrightarrow> fits x"
    and stream: "bs @ pending = encode_all ms" and room: "size R + 3 + 2 * length (bs @ pending) < 2 ^ 32"
  shows "\<exists>msgs fin h' c'.
    receive_all tls pick (Some f) (Suc (length ms)) pending (h, c) = Some (msgs @ [fin], (h', c'), []) \<and>
    map (message_bytes h') msgs = ms \<and> message_bytes h' fin = [] \<and>
    (\<forall>m\<in>set (msgs @ [fin]). msg_eom m \<and> message_ok h' m) \<and> tc_ended c' \<and> same_bytes R h h' \<and>
    tcp_inv h' c' (sum_list (map message_refs (msgs @ [fin])) + R) (sum_list (map message_units (msgs @ [fin])) + X)"
  using st fits stream room
proof (induction ms arbitrary: bs pending R X h c)
  case Nil
  have "bs = []" "pending = []" using Nil.prems(3) by simp_all
  then obtain msg h' c' where e: "receive_run tls pick (Some f) [] (framed_turn f (h, c)) = Some (Done (Inr msg), (h', c'), [])"
    "tcp_inv h' c' (message_refs msg + R) (message_units msg + X)" "message_ok h' msg"
    "message_bytes h' msg = []" "msg_eom msg" "same_bytes R h h'" "tc_ended c'"
    using receive_end [OF f] Nil.prems(1) by blast
  have "receive_all tls pick (Some f) (Suc 0) [] (h, c) = Some ([msg], (h', c'), [])"
    using e(1) Nil.prems(1) by (simp add: receive_start_def receive_refused_def receiving_stream_def)
  then show ?case using e(2-7) \<open>pending = []\<close> by (intro exI [of _ "[]"] exI [of _ msg]) simp
next
  case (Cons m ms)
  obtain msg h1 c1 bs1 pending1 where n:
    "receive_run tls pick (Some f) pending (framed_turn f (h, c)) = Some (Done (Inr msg), (h1, c1), pending1)"
    "receiving_stream bs1 (message_refs msg + R) (message_units msg + X) (h1, c1)" "bs1 @ pending1 = encode_all ms"
    "message_ok h1 msg" "message_bytes h1 msg = m" "msg_eom msg" "same_bytes R h h1"
    using receive_next [OF f Cons.prems(1,2,3,4)] by blast
  have i1: "tcp_inv h1 c1 (message_refs msg + R) (message_units msg + X)" using n(2) by (simp add: receiving_stream_def)
  have "heap_inv h1 (message_refs msg + (add_mset (tc_current c1) (mset (ch_live (tc_chain c1)) + R)))
      (chain_units (tc_chain c1) + (message_units msg + X))"
    using tcp_inv_parts(4) [OF i1] by (simp add: add.left_commute)
  from message_refs_size [OF n(4) this] have "size (message_refs msg) \<le> length m" using n(5) by simp
  moreover have "length (bs @ pending) = length (header m) + length m + length (bs1 @ pending1)"
    using Cons.prems(3) n(3) by simp
  ultimately have room1: "size (message_refs msg + R) + 3 + 2 * length (bs1 @ pending1) < 2 ^ 32"
    using Cons.prems(4) unfolding size_union by linarith
  obtain msgs fin h' c' where r:
    "receive_all tls pick (Some f) (Suc (length ms)) pending1 (h1, c1) = Some (msgs @ [fin], (h', c'), [])"
    "map (message_bytes h') msgs = ms" "message_bytes h' fin = []"
    "\<forall>m\<in>set (msgs @ [fin]). msg_eom m \<and> message_ok h' m" "tc_ended c'" "same_bytes (message_refs msg + R) h1 h'"
    "tcp_inv h' c' (sum_list (map message_refs (msgs @ [fin])) + (message_refs msg + R))
      (sum_list (map message_units (msgs @ [fin])) + (message_units msg + X))"
    using Cons.IH [OF n(2) _ n(3) room1] Cons.prems(2) by (metis list.set_intros(2))
  have run: "receive_all tls pick (Some f) (Suc (length (m # ms))) pending (h, c) = Some ((msg # msgs) @ [fin], (h', c'), [])"
    unfolding length_Cons append_Cons
    by (rule receive_all_Suc [OF _ r(1)])
       (use n(1) Cons.prems(1) in \<open>simp add: receive_start_def receive_refused_def receiving_stream_def\<close>)
  have "message_bytes h' msg = m" "message_ok h' msg"
    using same_bytes_message [of msg h1 h'] r(6) n(4,5) by (auto simp: message_ok_def split: option.splits)
  moreover have "same_bytes R h h'" using n(7) r(6) by (auto intro: same_bytes_trans)
  moreover have "tcp_inv h' c' (sum_list (map message_refs ((msg # msgs) @ [fin])) + R)
      (sum_list (map message_units ((msg # msgs) @ [fin])) + X)"
    using r(7) by (simp add: ac_simps)
  ultimately show ?case
    using run r(2-5) n(6) by (intro exI [of _ "msg # msgs"] exI [of _ fin] exI [of _ h'] exI [of _ c']) simp
qed

end

section \<open>Reading into an empty buffer\<close>

text \<open>
  The buffer offered to the socket can be empty: when the block size is below 4 the threshold below which
  a block is not used any more is 0, and a full block is kept. A read into it completes at once with
  nothing, and leaves everything as it was.
\<close>

lemma empty_read_unchanged:
  assumes inv: "tcp_inv h c R X" and room: "size R + 3 + 2 * ch_count (tc_chain c) < 2 ^ 32"
    and valid: "ref_valid (tc_current c)" and full: "capacity_after_begin h (tc_current c) = 0"
    and "reuse_threshold c = 0" and "pr_action (fr_parse f (h, tc_chain c) False) = NeedMore" and "\<not> tc_eof c"
  shows "receive_resume tls (Some f) (Data []) (h, c) = (Reading 0, h, c)"
proof -
  note p = tcp_inv_parts [OF inv]
  obtain b where b: "br_blk (tc_current c) = Some b" using valid by (auto simp: ref_valid_def)
  let ?i = "br_begin (tc_current c)"
  obtain d where d: "h_blocks h b = Some d" "unat (db_refcount d) = refs_to b (add_mset (tc_current c) (mset (ch_live (tc_chain c)) + R))"
    "br_end (tc_current c) \<le> db_capacity d"
    using heap_inv_alive [OF p(4) _ b] by (metis union_single_eq_member add_mset_add_single add.commute)
  have "refs_to b (add_mset (tc_current c) (mset (ch_live (tc_chain c)) + R)) \<le> size R + ch_count (tc_chain c) + 1"
    using refs_to_le_size [of b "add_mset (tc_current c) (mset (ch_live (tc_chain c)) + R)"] length_ch_live [OF p(3)]
    by simp
  then have "unat (db_refcount d) + 1 < 2 ^ 32" "0 < unat (db_refcount d)"
    using d(2) room b by simp_all
  then have "db_refcount d + 1 \<noteq> 1" by (metis add_cancel_left_left less_irrefl unat_0)
  moreover have "h\<lparr>h_blocks := (h_blocks h)(b \<mapsto> d)\<rparr> = h" using d(1) by (simp add: fun_upd_idem)
  ultimately have same: "ref_drop \<lparr>br_blk = Some b, br_begin = ?i, br_end = ?i\<rparr> (add_ref b (fill_block b ?i [] h)) = h"
    using d p(7) by (simp add: fill_block_def add_ref_def ref_drop_def release_def db_capacity_def)
  have data: "block_data (add_ref b (fill_block b ?i [] h)) b = block_data h b"
    using d p(7) by (simp add: fill_block_def add_ref_def block_data_def db_capacity_def)
  have cur: "set_range ?i ?i (tc_current c) = tc_current c" using p(7) by (simp add: set_range_def)
  have "finish_read tls (Data []) (h, c) =
      (Inr \<lparr>br_blk = Some b, br_begin = ?i, br_end = ?i\<rparr>, add_ref b (fill_block b ?i [] h), c)"
    using b assms(5) by (simp add: finish_read_def ref_make_def cur Let_def)
  then have "framed_resume tls f (Data []) (h, c) = framed_turn f (h, c)"
    using same by (simp add: framed_resume_def ref_valid_def chain_append_def ref_empty_def)
  also have "\<dots> = (Reading 0, h, c)"
    using assms(3-7) by (simp add: framed_turn_def await_read_def start_read_def)
  finally show ?thesis by (simp add: receive_resume_def)
qed


text \<open>So a receive that waits for such a read never gets a result.\<close>

lemma receive_run_loops:
  assumes "receive_resume tls f (Data []) s = (Reading 0, s)"
  shows "receive_run tls pick f pending (Reading 0, s) = None"
proof -
  let ?P = "\<lambda>tls (pick :: nat \<Rightarrow> nat) f (pending :: byte list) st (y :: receiving \<times> tcp \<times> byte list).
    st = (Reading 0, s) \<longrightarrow> receive_resume tls f (Data []) s = (Reading 0, s) \<longrightarrow> False"
  have "?P tls pick f pending st y" if "receive_run tls pick f pending st = Some y" for st y
    using _ that
  proof (rule receive_run.raw_induct [where P = ?P])
    fix run tls pick f pending st y
    assume ih: "\<And>tls pick f pending st y. run tls pick f pending st = Some y \<Longrightarrow> ?P tls pick f pending st y"
      and step: "(case st of (r, s) \<Rightarrow> case r of
          Reading n \<Rightarrow> (case socket_read pick pending n of (ev, rest) \<Rightarrow> run tls pick f rest (receive_resume tls f ev s))
        | _ \<Rightarrow> Some (r, s, pending)) = Some y"
    show "?P tls pick f pending st y"
    proof (intro impI)
      assume st: "st = (Reading 0, s)" and again: "receive_resume tls f (Data []) s = (Reading 0, s)"
      have "run tls pick f pending (Reading 0, s) = Some y" using step by (simp add: st again socket_read_def)
      then show False using ih again by blast
    qed
  qed
  then show ?thesis using assms by (metis not_None_eq)
qed

section \<open>Properties\<close>

text \<open>The bytes that \<open>send()\<close> hands to the socket.\<close>

definition sent_bytes :: "heap \<Rightarrow> tcp_conn \<Rightarrow> message \<Rightarrow> byte list" where
  "sent_bytes h c m =
    (case send_start h m c of
       Inl _ \<Rightarrow> []
     | Inr buffers \<Rightarrow> (case seq_buffers h buffers of None \<Rightarrow> [] | Some bufs \<Rightarrow> concat bufs))"

lemma sent_bytes_framed:
  assumes "tc_state c = ESTABLISHED" and "tc_framer c = Some (lp_framer_of native f)" and "lp_field_size f \<le> 8"
    and "message_ok h m" and "heap_inv h (message_refs m + R) X"
  shows "sent_bytes h c m = lp_header (lp_field_size f) (lp_order f) (message_bytes h m) @ message_bytes h m"
proof -
  obtain bufs where "seq_buffers h (seq_of_message h (framing_header (tc_framer c) h m) m) = Some bufs"
    "concat bufs = framing_header (tc_framer c) h m @ message_bytes h m"
    using seq_buffers_message [OF assms(4,5)] by blast
  then show ?thesis
    using assms(1-3)
    by (simp add: sent_bytes_def send_start_def framing_header_def lp_framer_of_def lp_write_header_field)
qed

text \<open>A connection that has just been accepted can receive.\<close>

lemma accepted_receiving:
  assumes "heap_inv h R X" and "h_grants h = []" and "pool_live p = None" and "4 \<le> pool_block_size p"
  shows "receiving_stream [] R X (h, set_framer f (make_accepted p remote local))"
proof -
  have "chain_shape empty_chain" using chain_ok_empty(1) by (simp add: chain_ok_def)
  then show ?thesis
    using assms chain_ok_empty
    by (simp add: receiving_stream_def set_framer_def make_accepted_def make_tcp_def tcp_inv_def tcp_mem_def
        chain_units_empty pool_ok_def can_receive_def chain_bytes_def ref_null_def)
qed

text \<open>
  C1. What one side sends is what the other receives. The sender sends messages of any kind with a
  length-prefixed framer (fields of up to 7 bytes, either byte order); the receiver, whose machine may have
  the other byte order, reads the resulting stream in pieces that the network chooses. One
  \<open>receive()\<close> per message and one more return exactly the messages, each complete, and the empty one
  that marks the end; all of them are intact when the last one has been received, and the connection's
  memory is consistent with them.
\<close>

theorem tcp_stream_roundtrip:
  assumes "n \<le> 7" and "tc_state cs = ESTABLISHED"
    and "tc_framer cs = Some (lp_framer_of native1 (make_lp_framer n order))"
    and "\<forall>m\<in>set sent. message_ok hs m \<and> (\<exists>S Y. heap_inv hs (message_refs m + S) Y) \<and>
      length (message_bytes hs m) < 2 ^ (8 * max 1 n)"
    and "stream = concat (map (sent_bytes hs cs) sent)"
    and "receiving_stream [] R X (h, c)" and "size R + 3 + 2 * length stream < 2 ^ 32"
  shows "\<exists>msgs fin h' c'.
    receive_all tls pick (Some (lp_framer_of native2 (make_lp_framer n order))) (Suc (length sent)) stream (h, c)
      = Some (msgs @ [fin], (h', c'), []) \<and>
    map (message_bytes h') msgs = map (message_bytes hs) sent \<and> message_bytes h' fin = [] \<and>
    (\<forall>m\<in>set (msgs @ [fin]). msg_eom m \<and> message_ok h' m) \<and> tc_ended c' \<and> same_bytes R h h' \<and>
    tcp_inv h' c' (sum_list (map message_refs (msgs @ [fin])) + R) (sum_list (map message_units (msgs @ [fin])) + X)"
proof -
  let ?k = "max 1 (min n 7)" and ?f = "lp_framer_of native2 (make_lp_framer n order)"
  have n: "min n 7 = n" "lp_field_size (make_lp_framer n order) = ?k" "lp_order (make_lp_framer n order) = order"
    using assms(1) by (auto simp: make_lp_framer_def)
  have f: "fr_parse ?f = lp_parse native2 (make_lp_framer (min n 7) order)" by (simp add: lp_framer_of_def n(1))
  have "sent_bytes hs cs m = lp_header ?k order (message_bytes hs m) @ message_bytes hs m" if m: "m \<in> set sent" for m
  proof -
    obtain S Y where "message_ok hs m" "heap_inv hs (message_refs m + S) Y" using assms(4) m by blast
    then show ?thesis using sent_bytes_framed [OF assms(2,3)] assms(1) by (simp add: n(2,3) max.commute)
  qed
  then have "[] @ stream = lp.encode_all n order (map (message_bytes hs) sent)"
    unfolding assms(5) lp.encode_all_def by (simp cong: map_cong add: comp_def)
  moreover have "lp_fits ?k x" if "x \<in> set (map (message_bytes hs) sent)" for x
    using that assms(4) n(1) by (auto simp: lp_fits_def)
  moreover have "size R + 3 + 2 * length ([] @ stream) < 2 ^ 32" using assms(7) by simp
  ultimately show ?thesis
    using lp.receive_stream [OF f assms(6), of "map (message_bytes hs) sent" stream tls pick] by simp
qed

text \<open>For the witnesses: an accepted connection with blocks of 8 bytes, and nothing allocated yet.\<close>

definition small_pool :: "nat \<Rightarrow> pool" where
  "small_pool k = \<lparr>pool_resource = 0, pool_block_size = k, pool_max_live = 0, pool_live = None\<rparr>"

definition fresh_conn :: "nat \<Rightarrow> framer \<Rightarrow> tcp" where
  "fresh_conn k f = (empty_heap (\<lambda>_. 0) [], set_framer f (make_accepted (small_pool k) None None))"

lemma fresh_inv: "tcp_inv (fst (fresh_conn k f)) (snd (fresh_conn k f)) {#} {#}"
proof -
  have "chain_shape empty_chain" using chain_ok_empty(1) by (simp add: chain_ok_def)
  then show ?thesis
    using heap_inv_empty_heap chain_ok_empty
    by (simp add: fresh_conn_def set_framer_def make_accepted_def make_tcp_def tcp_inv_def tcp_mem_def
        chain_units_empty pool_ok_def small_pool_def ref_null_def)
qed

lemma fresh_receiving: "4 \<le> k \<Longrightarrow> receiving_stream [] {#} {#} (fresh_conn k f)"
  unfolding fresh_conn_def using heap_inv_empty_heap
  by (rule accepted_receiving) (simp_all add: empty_heap_def small_pool_def)

lemma tcp_stream_roundtrip_witness:
  "\<exists>msgs fin h' c' stream.
    receive_all False (\<lambda>_. 1) (Some (lp_framer_of little (make_lp_framer 2 big))) 3 stream
      (fresh_conn 8 (lp_framer_of little (make_lp_framer 2 big))) = Some (msgs @ [fin], (h', c'), []) \<and>
    map (message_bytes h') msgs = [[104, 105], []]"
proof -
  let ?h = "empty_heap (\<lambda>_. 0) []"
  let ?cs = "snd (fresh_conn 8 (lp_framer_of big (make_lp_framer 2 big)))"
  let ?ms = "[message_of_vector [104, 105] default_context, message_of_vector [] default_context]"
  let ?c = "fresh_conn 8 (lp_framer_of little (make_lp_framer 2 big))"
  have ok: "message_ok ?h m \<and> heap_inv ?h (message_refs m + {#}) {#} \<and> length (message_bytes ?h m) < 2 ^ 16"
    if "m \<in> set ?ms" for m
    using that heap_inv_empty_heap
    by (auto simp: message_ok_def message_of_vector_def message_refs_def message_bytes_def)
  have cs: "tc_state ?cs = ESTABLISHED" "tc_framer ?cs = Some (lp_framer_of big (make_lp_framer 2 big))"
    by (simp_all add: fresh_conn_def set_framer_def make_accepted_def make_tcp_def)
  have short: "length (sent_bytes ?h ?cs m) \<le> 4" if "m \<in> set ?ms" for m
    using that ok [OF that] sent_bytes_framed [OF cs, of ?h m "{#}" "{#}"]
    by (auto simp: make_lp_framer_def message_of_vector_def message_bytes_def)
  have len: "size {#} + 3 + 2 * length (concat (map (sent_bytes ?h ?cs) ?ms)) < 2 ^ 32"
    using short [of "?ms ! 0"] short [of "?ms ! 1"] by simp
  have all: "\<forall>m\<in>set ?ms. message_ok ?h m \<and> (\<exists>S Y. heap_inv ?h (message_refs m + S) Y) \<and>
      length (message_bytes ?h m) < 2 ^ (8 * max 1 2)"
  proof
    fix m assume "m \<in> set ?ms"
    note o = ok [OF this]
    then have "\<exists>S Y. heap_inv ?h (message_refs m + S) Y" by blast
    with o show "message_ok ?h m \<and> (\<exists>S Y. heap_inv ?h (message_refs m + S) Y) \<and>
      length (message_bytes ?h m) < 2 ^ (8 * max 1 2)" by simp
  qed
  have c: "receiving_stream [] {#} {#} (fst ?c, snd ?c)" using fresh_receiving by simp
  obtain msgs fin h' c' where r:
    "receive_all False (\<lambda>_. 1) (Some (lp_framer_of little (make_lp_framer 2 big))) (Suc (length ?ms))
      (concat (map (sent_bytes ?h ?cs) ?ms)) (fst ?c, snd ?c) = Some (msgs @ [fin], (h', c'), [])"
    "map (message_bytes h') msgs = map (message_bytes ?h) ?ms"
    using tcp_stream_roundtrip [OF _ cs all refl c len, where tls = False and pick = "\<lambda>_. 1" and ?native2.0 = little]
    by auto
  have "Suc (length ?ms) = 3" "map (message_bytes ?h) ?ms = [[104, 105], []]"
    by (simp_all add: message_of_vector_def message_bytes_def)
  then show ?thesis using r by (metis prod.collapse)
qed

text \<open>
  C3. Whatever the socket, the memory resource and the framer answer, a receive is memory safe. Every
  stretch of it, from the call and from the completion of a read that fits its buffer, keeps the blocks
  consistent with their handles; a message that it returns shares blocks with the connection, and neither
  this nor any later step changes a byte that a message delivered before can see.
\<close>

theorem receive_memory_safe:
  assumes "tcp_inv h c R X" and "size R + 3 + 2 * ch_count (tc_chain c) < 2 ^ 32"
  shows "receive_safe R X h (receive_start f (h, c)) \<and>
    (ref_valid (tc_current c) \<and> read_fits ev (h, c) \<longrightarrow> receive_safe R X h (receive_resume tls f ev (h, c)))"
  using receive_start_safe [OF assms] receive_resume_safe [OF assms] by blast

lemma receive_memory_safe_witness:
  "receive_safe {#} {#} (empty_heap (\<lambda>_. 0) []) (receive_start None (fresh_conn 8 (pass_framer_of False)))"
proof -
  from receive_memory_safe [OF fresh_inv [of 8 "pass_framer_of False"]] show ?thesis
    by (simp add: fresh_conn_def set_framer_def make_accepted_def make_tcp_def empty_chain_def)
qed

text \<open>
  C34. With blocks of fewer than 4 bytes a framed receive can wait for ever: when a block is full and the
  framer needs more, the connection offers the socket a buffer of no bytes, whose read completes at once
  and changes nothing, whatever is still in the socket.
\<close>

theorem tiny_blocks_hang:
  assumes "tcp_inv h c R X" and "size R + 3 + 2 * ch_count (tc_chain c) < 2 ^ 32" and "can_receive c"
    and "pool_block_size (tc_pool c) < 4" and "ref_valid (tc_current c)"
    and "capacity_after_begin h (tc_current c) = 0" and "\<not> tc_eof c"
    and "pr_action (fr_parse f (h, tc_chain c) False) = NeedMore"
  shows "receive_start (Some f) (h, c) = (Reading 0, h, c) \<and>
    receive_run tls pick (Some f) pending (Reading 0, h, c) = None"
proof -
  have t: "reuse_threshold c = 0" using assms(4) by (simp add: reuse_threshold_def)
  have "receive_resume tls (Some f) (Data []) (h, c) = (Reading 0, h, c)"
    using empty_read_unchanged [OF assms(1,2,5,6) t assms(8,7)] .
  moreover have "receive_start (Some f) (h, c) = (Reading 0, h, c)"
    using assms(3,5-8) t
    by (simp add: receive_start_def receive_refused_def framed_turn_def await_read_def start_read_def)
  ultimately show ?thesis using receive_run_loops by simp
qed

text \<open>
  For the witnesses: a connection with blocks of \<open>k\<close> bytes whose first read has brought \<open>bytes\<close>.
\<close>

definition after_read :: "nat \<Rightarrow> byte list \<Rightarrow> framer \<Rightarrow> receiving \<times> tcp" where
  "after_read k bytes f =
    receive_resume False (Some f) (Data bytes) (snd (receive_start (Some f) (fresh_conn k f)))"

lemma safe_reading:
  "receive_safe R X h out \<Longrightarrow> fst out = Reading n \<Longrightarrow> tcp_inv (fst (snd out)) (snd (snd out)) R X"
  by (cases out) (auto simp: receive_safe_def)

lemma after_read_inv:
  fixes k f
  defines "s \<equiv> snd (receive_start (Some f) (fresh_conn k f))"
  assumes "fst (receive_start (Some f) (fresh_conn k f)) = Reading n" and "ch_count (tc_chain (snd s)) = 0"
    and "ref_valid (tc_current (snd s))" and "read_fits (Data bytes) s" and "fst (after_read k bytes f) = Reading n'"
  shows "tcp_inv (fst (snd (after_read k bytes f))) (snd (snd (after_read k bytes f))) {#} {#}"
proof -
  have "ch_count (tc_chain (snd (fresh_conn k f))) = 0"
    by (simp add: fresh_conn_def set_framer_def make_accepted_def make_tcp_def empty_chain_def)
  then have "receive_safe {#} {#} (fst (fresh_conn k f)) (receive_start (Some f) (fresh_conn k f))"
    using receive_start_safe [OF fresh_inv, of k f "Some f"] by simp
  from safe_reading [OF this assms(2)] have i: "tcp_inv (fst s) (snd s) {#} {#}" by (simp add: s_def)
  have "receive_safe {#} {#} (fst s) (receive_resume False (Some f) (Data bytes) (fst s, snd s))"
    by (rule receive_resume_safe [OF i]) (use assms(3-5) in simp_all)
  then have "receive_safe {#} {#} (fst s) (after_read k bytes f)" by (simp add: after_read_def s_def)
  from safe_reading [OF this assms(6)] show ?thesis .
qed

text \<open>The whole message \<open>hi\<close> is in the socket, but blocks have 2 bytes, and the first read fills one.\<close>

lemma tiny_blocks_hang_witness:
  "receive_run False (\<lambda>_. 2) (Some (lp_framer_of little default_lp_framer)) [0, 0, 0, 2, 104, 105]
    (receive_start (Some (lp_framer_of little default_lp_framer)) (fresh_conn 2 (lp_framer_of little default_lp_framer)))
    = None"
proof -
  let ?f = "lp_framer_of little default_lp_framer"
  let ?s1 = "snd (receive_start (Some ?f) (fresh_conn 2 ?f))" and ?r = "after_read 2 [0, 0] ?f"
  have r: "fst (receive_start (Some ?f) (fresh_conn 2 ?f)) = Reading 2" "fst ?r = Reading 0" by code_simp+
  have i: "tcp_inv (fst (snd ?r)) (snd (snd ?r)) {#} {#}"
    by (rule after_read_inv [OF r(1) _ _ _ r(2)]) code_simp+
  have "ch_count (tc_chain (snd (snd ?r))) = 1" "can_receive (snd (snd ?r))"
    "pool_block_size (tc_pool (snd (snd ?r))) < 4" "ref_valid (tc_current (snd (snd ?r)))"
    "capacity_after_begin (fst (snd ?r)) (tc_current (snd (snd ?r))) = 0" "\<not> tc_eof (snd (snd ?r))"
    "pr_action (fr_parse ?f (fst (snd ?r), tc_chain (snd (snd ?r))) False) = NeedMore"
    by code_simp+
  from tiny_blocks_hang [OF i _ this(2-7)] this(1)
  have "receive_run False (\<lambda>_. 2) (Some ?f) [0, 2, 104, 105] (Reading 0, snd ?r) = None" by simp
  moreover have "?r = (Reading 0, snd ?r)" using r(2) by (metis prod.collapse)
  moreover have "receive_start (Some ?f) (fresh_conn 2 ?f) = (Reading 2, ?s1)" using r(1) by (metis prod.collapse)
  moreover have "receive_run False (\<lambda>_. 2) (Some ?f) [0, 0, 0, 2, 104, 105] (Reading 2, ?s1)
      = receive_run False (\<lambda>_. 2) (Some ?f) [0, 2, 104, 105] ?r"
    by (simp add: socket_read_def Let_def after_read_def)
  ultimately show ?thesis by metis
qed

lemma lp_spec_truncated:
  assumes "n \<le> 8" and fits: "lp_fits n m" and k: "k < n + length m"
  shows "lp_spec n order (take k (lp_header n order m @ m)) True =
    (if k \<le> n then More else Record n (k - n) False False)"
proof (cases "k < n")
  case False
  let ?bs = "take k (lp_header n order m @ m)"
  have "take n ?bs = lp_header n order m" using False by (simp add: min_def)
  then have "unat (field_value order (take n ?bs)) = length m"
    using lp_header_value [OF assms(1) fits, of order] by simp
  moreover have "length ?bs = k" using k by simp
  ultimately show ?thesis using False k by (simp add: lp_spec_def Let_def)
qed (simp add: lp_spec_def)

text \<open>What the framer sees of a message of which only the first \<open>k\<close> bytes have arrived.\<close>

lemma truncated_stream:
  assumes "n \<le> 7" and "length m < 2 ^ (8 * max 1 n)" and "k < max 1 n + length m" and "tcp_inv h c R X"
    and "chain_bytes h (tc_chain c) = take k (lp_write_header native (make_lp_framer n order) (length m) @ m)"
  defines "bs \<equiv> take k (lp_header (max 1 (min n 7)) order m @ m)"
  shows "chain_bytes h (tc_chain c) = bs" and "length bs = k" and "ch_size (tc_chain c) = k"
    and "lp_spec (max 1 (min n 7)) order bs True =
      (if k \<le> max 1 n then More else Record (max 1 n) (k - max 1 n) False False)"
proof -
  let ?k = "max 1 (min n 7)"
  have n: "min n 7 = n" "lp_field_size (make_lp_framer n order) = ?k" "lp_order (make_lp_framer n order) = order"
    using assms(1) by (auto simp: make_lp_framer_def)
  show bs: "chain_bytes h (tc_chain c) = bs"
    using assms(1,5) lp_write_header_field [of "make_lp_framer n order" native m] by (simp only: n(2,3) bs_def)
  show len: "length bs = k" using assms(1,3) n(1) by (simp add: bs_def)
  show "ch_size (tc_chain c) = k" using chain_bytes_length [OF tcp_inv_parts(2,5) [OF assms(4)]] len bs by simp
  show "lp_spec ?k order bs True = (if k \<le> max 1 n then More else Record (max 1 n) (k - max 1 n) False False)"
    using assms(1-3) n(1) lp_spec_truncated [of ?k m k order] by (simp add: lp_fits_def bs_def)
qed

lemma deliver_record_message:
  assumes "tcp_inv h c R X" and "size R + 1 + 2 * ch_count (tc_chain c) < 2 ^ 32" and "h_grants h = []" and "\<not> pr_gather pr"
  obtains msg h1 c1 where "deliver_record pr (h, c) = (Done (Inr msg), h1, c1)" "same_conn c c1"
    "tcp_inv h1 c1 (message_refs msg + R) (message_units msg + X)" "msg_eom msg = pr_end_of_message pr"
    "tc_message_open c1 = (\<not> pr_end_of_message pr)"
    "message_bytes h1 msg = take (unat (pr_deliver pr)) (drop (unat (pr_discard_before pr)) (chain_bytes h (tc_chain c)))"
    "chain_bytes h1 (tc_chain c1) =
      drop (unat (pr_discard_before pr) + unat (pr_deliver pr)) (chain_bytes h (tc_chain c))"
proof -
  obtain res h1 c1 where run: "deliver_record pr (h, c) = (res, h1, c1)" using prod_cases3 by blast
  note d = deliver_record_correct [OF assms(1,2) run]
  have "res \<noteq> Raised" using deliver_record_granted [OF assms(1,3,4)] by (simp add: run)
  then obtain msg where "res = Done (Inr msg)"
    using d(4) by (auto simp: delivers_def split: receiving.splits sum.splits)
  then show ?thesis using that run d(3) d(4) [unfolded delivers_def \<open>res = _\<close> prod.case receiving.case sum.case] by blast
qed

text \<open>
  C16. A stream that ends inside a message. If not even a byte of the payload has arrived, the receive
  fails; otherwise it delivers what has arrived, marked as incomplete, and the next one fails. The failure
  is the last result of the stream, and names a framing error.
\<close>

theorem lp_truncated_stream:
  assumes "n \<le> 7" and "length m < 2 ^ (8 * max 1 n)" and "0 < k" and "k < max 1 n + length m"
    and "tcp_inv h c R X" and "size R + 3 + 2 * k < 2 ^ 32" and "h_grants h = []" and "tc_eof c"
    and "\<not> tc_message_open c"
    and "chain_bytes h (tc_chain c) = take k (lp_write_header native1 (make_lp_framer n order) (length m) @ m)"
  shows "let f = lp_framer_of native2 (make_lp_framer n order);
      failed = (\<lambda>s. \<exists>e h' c'. framed_turn f s = (Done (Inl e), h', c') \<and> err_event e = RECEIVE_ERROR \<and>
        err_reason e = DEFRAMING_FAILED \<and> tc_ended c') in
    if k \<le> max 1 n then failed (h, c)
    else \<exists>msg h1 c1. framed_turn f (h, c) = (Done (Inr msg), h1, c1) \<and> \<not> msg_eom msg \<and>
      message_bytes h1 msg = take (k - max 1 n) m \<and> failed (h1, c1)"
proof -
  let ?k = "max 1 (min n 7)" and ?f = "lp_framer_of native2 (make_lp_framer n order)"
  let ?bs = "take k (lp_header ?k order m @ m)"
  have n: "max 1 (min n 7) = max 1 n" using assms(1) by simp
  have f: "fr_parse ?f = lp_parse native2 (make_lp_framer (min n 7) order)" using assms(1) by (simp add: lp_framer_of_def)
  note t = truncated_stream [OF assms(1,2,4,5,10)]
  have small: "ch_size (tc_chain c) < 2 ^ 64" using t(3) assms(6) by simp
  show ?thesis
  proof (cases "k \<le> max 1 n")
    case True
    then have "lp_spec ?k order (chain_bytes h (tc_chain c)) True = More" unfolding t(1) using t(4) by simp
    moreover have "chain_bytes h (tc_chain c) \<noteq> []" unfolding t(1) using t(2) assms(3) by (metis length_0_conv less_irrefl)
    ultimately show ?thesis using lp.turn_fails [OF assms(5) small f] True assms(8) by (simp add: Let_def)
  next
    case False
    have "lp_spec ?k order (chain_bytes h (tc_chain c)) (tc_eof c) = Record (max 1 n) (k - max 1 n) False False"
      unfolding t(1) using t(4) False assms(8) by simp
    from lp.turn_record [OF assms(5) small f this]
    obtain pr where pr: "framed_turn ?f (h, c) = deliver_record pr (h, c)" "unat (pr_discard_before pr) = max 1 n"
      "unat (pr_deliver pr) = k - max 1 n" "\<not> pr_end_of_message pr" "\<not> pr_gather pr" by auto
    have "size R + 1 + 2 * ch_count (tc_chain c) < 2 ^ 32"
      using assms(6) chain_count_le(2) [OF tcp_inv_parts(2) [OF assms(5)]] t(3) by simp
    then obtain msg h1 c1 where m: "deliver_record pr (h, c) = (Done (Inr msg), h1, c1)" "same_conn c c1"
      "tcp_inv h1 c1 (message_refs msg + R) (message_units msg + X)" "\<not> msg_eom msg" "tc_message_open c1"
      "message_bytes h1 msg = take (k - max 1 n) (drop (max 1 n) ?bs)"
      "chain_bytes h1 (tc_chain c1) = drop (max 1 n + (k - max 1 n)) ?bs"
      by (rule deliver_record_message [OF assms(5) _ assms(7) pr(5)]) (simp add: pr(2-4) t(1))
    have "drop (max 1 n) ?bs = take (k - max 1 n) m" using n False by (simp add: min_absorb1)
    then have "message_bytes h1 msg = take (k - max 1 n) m" using m(6) by simp
    moreover have rest: "chain_bytes h1 (tc_chain c1) = []" using m(7) t(2) False by simp
    moreover have "tc_eof c1" using m(2) assms(8) by (simp add: same_conn_def)
    moreover have "ch_size (tc_chain c1) < 2 ^ 64"
      using chain_bytes_length [OF tcp_inv_parts(2,5) [OF m(3)]] rest by simp
    ultimately show ?thesis
      using lp.turn_fails [OF m(3) _ f] m(4,5) lp.spec_nothing [of n order True] False by (simp add: pr(1) m(1) Let_def)
  qed
qed

text \<open>A length field that announces 3 bytes, one of them, and then the end of the stream.\<close>

lemma lp_truncated_stream_witness:
  "\<exists>msg h1 c1. framed_turn (lp_framer_of little (make_lp_framer 4 big))
      (case snd (after_read 64 [0, 0, 0, 3, 104] (lp_framer_of little (make_lp_framer 4 big))) of
         (h, c) \<Rightarrow> (h, c\<lparr>tc_eof := True\<rparr>)) = (Done (Inr msg), h1, c1) \<and>
    \<not> msg_eom msg \<and> message_bytes h1 msg = [104]"
proof -
  let ?f = "lp_framer_of little (make_lp_framer 4 big)"
  let ?r = "after_read 64 [0, 0, 0, 3, 104] ?f" and ?m = "[104, 0, 0] :: byte list"
  let ?c = "(snd (snd ?r))\<lparr>tc_eof := True\<rparr>"
  have r: "fst (receive_start (Some ?f) (fresh_conn 64 ?f)) = Reading 64" "fst ?r = Reading 59" by code_simp+
  have i: "tcp_inv (fst (snd ?r)) (snd (snd ?r)) {#} {#}"
    by (rule after_read_inv [OF r(1) _ _ _ r(2)]) code_simp+
  have st: "h_grants (fst (snd ?r)) = []" "tc_eof ?c" "\<not> tc_message_open ?c"
    "chain_bytes (fst (snd ?r)) (tc_chain ?c) = take 5 (lp_write_header big (make_lp_framer 4 big) (length ?m) @ ?m)"
    by code_simp+
  have inv: "tcp_inv (fst (snd ?r)) ?c {#} {#}" using i by simp
  have "\<exists>msg h1 c1. framed_turn ?f (fst (snd ?r), ?c) = (Done (Inr msg), h1, c1) \<and> \<not> msg_eom msg \<and>
    message_bytes h1 msg = take (5 - max 1 4) ?m"
    using lp_truncated_stream [OF _ _ _ _ inv _ st, where ?native2.0 = little] unfolding Let_def by auto
  then show ?thesis by (simp add: case_prod_beta)
qed

end
