(* ===== verification/Tcp_Life.thy ===== *)
theory Tcp_Life
  imports Tcp
begin

text \<open>
  The states of a TCP connection: which steps are possible, what they leave alone, and how the failures of
  the socket are reported. Nothing here depends on the memory.
\<close>

section \<open>What the steps of a receive change\<close>

text \<open>
  A receive may close the connection and may see or record the end of the stream; it never reopens
  anything, and it records the end only when it has seen it.
\<close>

definition receive_moves :: "tcp_conn \<Rightarrow> tcp_conn \<Rightarrow> bool" where
  "receive_moves c c' \<longleftrightarrow>
    tc_aborted c' = tc_aborted c \<and> tc_socket_open c' = tc_socket_open c \<and>
    (tc_state c' = tc_state c \<or> tc_state c' = CLOSED) \<and> (tc_eof c \<longrightarrow> tc_eof c') \<and> (tc_ended c \<longrightarrow> tc_ended c') \<and>
    (tc_ended c' \<longrightarrow> tc_ended c \<or> tc_eof c')"

lemma receive_moves_refl [simp]: "receive_moves c c"
  by (simp add: receive_moves_def)

lemma receive_moves_trans: "receive_moves c c1 \<Longrightarrow> receive_moves c1 c2 \<Longrightarrow> receive_moves c c2"
  by (auto simp: receive_moves_def)

lemma receive_moves_update [simp]:
  "receive_moves c (c'\<lparr>tc_chain := ch\<rparr>) = receive_moves c c'"
  "receive_moves c (c'\<lparr>tc_current := r\<rparr>) = receive_moves c c'"
  "receive_moves c (c'\<lparr>tc_message_open := b\<rparr>) = receive_moves c c'"
  by (simp_all add: receive_moves_def)

lemma moves_start_read: "start_read (h, c) = (res, h', c') \<Longrightarrow> receive_moves c c'"
  by (auto simp: start_read_def Let_def split: if_splits option.splits prod.splits)

lemma moves_finish_read:
  "finish_read tls ev (h, c) = (res, h', c') \<Longrightarrow> receive_moves c c' \<and> (res = Inr ref_null \<longrightarrow> tc_eof c')"
  by (auto simp: finish_read_def ref_make_def ref_null_def ref_reset_def Let_def receive_moves_def
      split: if_splits read_event.splits prod.splits)

lemma moves_receive_failure: "receive_failure e c = (e', c') \<Longrightarrow> receive_moves c c'"
  by (auto simp: receive_failure_def Let_def receive_moves_def split: if_splits)

lemma moves_fail_with: "receive_moves c c1 \<Longrightarrow> receive_moves c (snd (snd (fail_with e (h, c1))))"
  using moves_receive_failure by (auto simp: fail_with_def split: prod.split intro: receive_moves_trans)

lemma moves_await_read: "receive_moves c (snd (snd (await_read (h, c))))"
  by (auto simp: await_read_def split: prod.split outcome_of.split sum.split
      dest!: moves_start_read intro: moves_fail_with)

lemma moves_drop_received: "drop_received n (h, c) = (h', c') \<Longrightarrow> receive_moves c c'"
  by (auto simp: drop_received_def split: option.splits prod.splits)

lemma moves_gather_if: "receive_moves c c1 \<Longrightarrow> receive_moves c (snd (snd (gather_if g m (h, c1))))"
  by (auto simp: gather_if_def split: prod.split option.split)

lemma moves_deliver_record: "receive_moves c (snd (snd (deliver_record pr (h, c))))"
proof -
  obtain h1 c1 where 1: "(if pr_discard_before pr > 0 then drop_received (unat (pr_discard_before pr)) (h, c) else (h, c)) = (h1, c1)"
    by fastforce
  then have m: "receive_moves c c1" by (auto dest: moves_drop_received split: if_splits)
  show ?thesis
    using m by (auto simp: deliver_record_def 1 Let_def split: prod.split option.split
        dest!: moves_drop_received intro!: moves_gather_if intro: receive_moves_trans)
qed

lemma moves_empty_message: "receive_moves c c1 \<Longrightarrow> receive_moves c (snd (snd (empty_message e (h, c1))))"
  by (auto simp: empty_message_def split: prod.split option.split)

lemma moves_framed_turn: "receive_moves c (snd (snd (framed_turn f (h, c))))"
proof -
  have end_ok: "receive_moves c (c\<lparr>tc_ended := True\<rparr>)" if "tc_eof c" using that by (simp add: receive_moves_def)
  have "receive_moves c (snd (snd (case drop_received n (h, c) of
      (h1, c1) \<Rightarrow> fail_with e (h1, c1\<lparr>tc_message_open := False\<rparr>))))" for n e
    by (auto split: prod.split dest!: moves_drop_received intro: moves_fail_with)
  then show ?thesis
    using end_ok by (simp add: framed_turn_def Let_def moves_deliver_record moves_fail_with moves_await_read moves_empty_message)
qed

lemma moves_framed_resume: "receive_moves c (snd (snd (framed_resume tls f ev (h, c))))"
proof -
  obtain res h1 c1 where 1: "finish_read tls ev (h, c) = (res, h1, c1)" using prod_cases3 by blast
  have m: "receive_moves c c1" using moves_finish_read [OF 1] by simp
  have turn: "receive_moves c (snd (snd (framed_turn f (h2, c2))))" if "receive_moves c c2" for h2 c2
    using that moves_framed_turn by (rule receive_moves_trans)
  show ?thesis
    using m turn by (simp add: framed_resume_def 1 moves_fail_with split: sum.split prod.split bool.split)
qed

lemma moves_chunk_message: "receive_moves c c1 \<Longrightarrow> receive_moves c (snd (snd (chunk_message r (h, c1))))"
  by (auto simp: chunk_message_def split: prod.split option.split bool.split)

lemma moves_unframed_resume: "receive_moves c (snd (snd (unframed_resume tls ev (h, c))))"
proof -
  obtain res h1 c1 where 1: "finish_read tls ev (h, c) = (res, h1, c1)" using prod_cases3 by blast
  have m: "receive_moves c c1" using moves_finish_read [OF 1] by simp
  have "receive_moves c (c1\<lparr>tc_ended := True\<rparr>)" if "res = Inr r" "\<not> ref_valid r" for r
  proof -
    have "tc_eof c1"
      using 1 that by (auto simp: finish_read_def ref_make_def ref_valid_def ref_reset_def Let_def
          split: read_event.splits if_splits prod.splits)
    then show ?thesis using m by (auto simp: receive_moves_def)
  qed
  then show ?thesis
    using m by (auto simp: unframed_resume_def 1 split: sum.split intro: moves_fail_with moves_empty_message moves_chunk_message)
qed

lemma moves_receive_start: "receive_moves c (snd (snd (receive_start f (h, c))))"
  by (simp add: receive_start_def moves_framed_turn moves_await_read split: option.split)

lemma moves_receive_resume: "receive_moves c (snd (snd (receive_resume tls f ev (h, c))))"
  by (simp add: receive_resume_def moves_framed_resume moves_unframed_resume split: option.split)

section \<open>The life of a connection\<close>

text \<open>
  The steps of a connection, in any order in which the application and the event loop may take them: an
  operation that has started may complete after others have run. Reading the endpoints of a closed
  socket fails, so that a connect succeeds only on a connection that is not closed.
\<close>

inductive tcp_step :: "bool \<Rightarrow> tcp \<Rightarrow> tcp \<Rightarrow> bool" for tls where
  tstep_connect: "(tc_state c = CLOSED \<longrightarrow> (\<exists>what. completion = Inl what)) \<Longrightarrow>
    tcp_step tls (h, c) (h, snd (connect_done completion c))"
| tstep_security: "tcp_step tls (h, c) (h, snd (apply_security_done r c))"
| tstep_framer: "tcp_step tls (h, c) (h, set_framer f c)"
| tstep_close: "tcp_step tls (h, c) (h, snd (close_start c))"
| tstep_closed: "tcp_step tls (h, c) (h, snd (close_done sd ec c))"
| tstep_abort: "tcp_step tls (h, c) (h, snd (tcp_abort ec c))"
| tstep_sent: "tcp_step tls (h, c) (h, snd (send_done ec c))"
| tstep_receive: "tcp_step tls (h, c) (snd (receive_start f (h, c)))"
| tstep_read: "tcp_step tls (h, c) (snd (receive_resume tls f ev (h, c)))"

inductive tcp_reachable :: "bool \<Rightarrow> tcp \<Rightarrow> bool" for tls where
  treach_new: "tcp_reachable tls (h, make_tcp p)"
| treach_accepted: "tcp_reachable tls (h, make_accepted p remote local)"
| treach_step: "tcp_reachable tls s \<Longrightarrow> tcp_step tls s s' \<Longrightarrow> tcp_reachable tls s'"

lemmas life_defs = connect_done_def apply_security_done_def set_framer_def close_start_def close_done_def
  tcp_abort_def send_done_def Let_def

definition tcp_life_ok :: "tcp_conn \<Rightarrow> bool" where
  "tcp_life_ok c \<longleftrightarrow> (tc_aborted c \<longrightarrow> tc_state c = CLOSED) \<and> (tc_ended c \<longrightarrow> tc_eof c)"

lemma tcp_life_ok_moves: "tcp_life_ok c \<Longrightarrow> receive_moves c c' \<Longrightarrow> tcp_life_ok c'"
  by (auto simp: tcp_life_ok_def receive_moves_def)

lemma tcp_life_ok_step: "tcp_step tls (h, c) (h', c') \<Longrightarrow> tcp_life_ok c \<Longrightarrow> tcp_life_ok c'"
proof (induction "(h, c)" "(h', c')" rule: tcp_step.induct)
  case (tstep_receive f)
  then show ?case using tcp_life_ok_moves [OF _ moves_receive_start [of c f h]] by (metis snd_conv)
next
  case (tstep_read f ev)
  then show ?case using tcp_life_ok_moves [OF _ moves_receive_resume [of c tls f ev h]] by (metis snd_conv)
qed (auto simp: life_defs tcp_life_ok_def split: sum.splits option.splits if_splits)

lemma tcp_life_ok_reachable: "tcp_reachable tls s \<Longrightarrow> tcp_life_ok (snd s)"
proof (induction rule: tcp_reachable.induct)
  case (treach_step s s')
  then show ?case using tcp_life_ok_step by (metis prod.collapse)
qed (simp_all add: tcp_life_ok_def make_tcp_def make_accepted_def)

text \<open>
  The states only advance. The exception is a \<open>connect()\<close> that completes while \<open>close()\<close> waits for the peer: it does
  not look at the state again.
\<close>

definition connects_late :: "tcp_conn \<Rightarrow> tcp_conn \<Rightarrow> bool" where
  "connects_late c c' \<longleftrightarrow>
    tc_state c = CLOSING \<and> (\<exists>remote local. c' = snd (connect_done (Inr (remote, Inr local)) c))"

lemma moves_forward: "receive_moves c c' \<Longrightarrow> tc_state c \<le> tc_state c'"
  by (auto simp: receive_moves_def)

lemma state_step: "tcp_step tls (h, c) (h', c') \<Longrightarrow> tc_state c \<le> tc_state c' \<or> connects_late c c'"
proof (induction "(h, c)" "(h', c')" rule: tcp_step.induct)
  case (tstep_connect completion)
  then show ?case by (cases "tc_state c") (auto simp: connects_late_def connect_done_def split: sum.splits prod.splits)
next
  case (tstep_receive f)
  then show ?case using moves_receive_start [of c f h] by (metis snd_conv moves_forward)
next
  case (tstep_read f ev)
  then show ?case using moves_receive_resume [of c tls f ev h] by (metis snd_conv moves_forward)
qed (auto simp: life_defs split: sum.splits option.splits if_splits)

lemma closed_step: "tcp_step tls (h, c) (h', c') \<Longrightarrow> tc_state c = CLOSED \<Longrightarrow> tc_state c' = CLOSED"
  using state_step [of tls h c h' c'] by (auto simp: connects_late_def)

text \<open>
  A receive that is not refused at once never ends in the error of a refused one without having waited: what it
  reports then concerns the framing or the memory.
\<close>

definition refusal :: "receiving \<Rightarrow> bool" where
  "refusal res = (case res of Done (Inl e) \<Rightarrow> err_reason e = INVALID_STATE | _ \<Rightarrow> False)"

lemma refusal_simps [simp]:
  "refusal (Done (Inl e)) = (err_reason e = INVALID_STATE)" "\<not> refusal (Done (Inr m))" "\<not> refusal (Reading n)"
  "\<not> refusal Raised"
  by (simp_all add: refusal_def)

lemma fail_with_no_refusal:
  "err_reason e \<noteq> INVALID_STATE \<Longrightarrow> err_reason e \<noteq> LOCAL_ABORT \<Longrightarrow> \<not> refusal (fst (fail_with e s))"
  by (simp add: fail_with_def receive_failure_def Let_def split: prod.split)

lemma await_read_no_refusal: "\<not> refusal (fst (await_read s))"
proof -
  have "err_reason e = RESOURCE_EXHAUSTED" if "start_read s = (Returned (Inl e), s1)" for e s1
    using that by (auto simp: start_read_def Let_def split: prod.splits if_splits option.splits)
  then show ?thesis
    by (auto simp: await_read_def fail_with_no_refusal split: prod.split outcome_of.split sum.split)
qed

lemma framed_turn_no_refusal: "\<not> refusal (fst (framed_turn f s))"
proof -
  have gather: "\<not> refusal (fst (gather_if g m s1))" for g m s1
    by (auto simp: gather_if_def split: prod.split option.split)
  have deliver: "\<not> refusal (fst (deliver_record pr s1))" for pr s1
    by (auto simp: deliver_record_def gather split: prod.split option.split)
  have empty: "\<not> refusal (fst (empty_message b s1))" for b s1
    by (auto simp: empty_message_def split: prod.split option.split)
  show ?thesis
    by (simp add: framed_turn_def Let_def deliver empty await_read_no_refusal fail_with_no_refusal split: prod.split)
qed

section \<open>Properties\<close>

text \<open>
  C4. In every state that a connection can reach: an aborted connection is closed; the end of the stream has been
  reported only if it was seen; whatever happens next, the state does not go back in the order ESTABLISHING,
  ESTABLISHED, CLOSING, CLOSED (except by a connect() that completes while close() is waiting), so that a closed
  connection stays closed. A send is refused exactly when the connection is not established; a receive exactly
  when it is not established or the end of the stream has been reported. Refusing means that the call fails at
  once, with SEND_ERROR or RECEIVE_ERROR and the reason INVALID_STATE, and changes nothing; no other call to
  receive() ends with that reason before it has read from the socket.
\<close>

theorem tcp_lifecycle:
  assumes "tcp_reachable tls (h, c)"
  shows "(tc_aborted c \<longrightarrow> tc_state c = CLOSED) \<and> (tc_ended c \<longrightarrow> tc_eof c) \<and>
    (\<forall>h' c'. tcp_step tls (h, c) (h', c') \<longrightarrow> tc_state c \<le> tc_state c' \<or>
       tc_state c = CLOSING \<and> (\<exists>remote local. c' = snd (connect_done (Inr (remote, Inr local)) c))) \<and>
    (if tc_state c = ESTABLISHED then \<exists>buffers. send_start h m c = Inr buffers
     else \<exists>e. send_start h m c = Inl e \<and> err_event e = SEND_ERROR \<and> err_reason e = INVALID_STATE) \<and>
    (if tc_state c = ESTABLISHED \<and> \<not> tc_ended c
     then \<forall>e h' c'. receive_start f (h, c) = (Done (Inl e), h', c') \<longrightarrow> err_reason e \<noteq> INVALID_STATE
     else \<exists>e. receive_start f (h, c) = (Done (Inl e), h, c) \<and>
       err_event e = RECEIVE_ERROR \<and> err_reason e = INVALID_STATE)"
proof (intro conjI)
  have "tcp_life_ok c" using tcp_life_ok_reachable [OF assms] by simp
  then show "tc_aborted c \<longrightarrow> tc_state c = CLOSED" "tc_ended c \<longrightarrow> tc_eof c" by (simp_all add: tcp_life_ok_def)
  show "\<forall>h' c'. tcp_step tls (h, c) (h', c') \<longrightarrow> tc_state c \<le> tc_state c' \<or>
       tc_state c = CLOSING \<and> (\<exists>remote local. c' = snd (connect_done (Inr (remote, Inr local)) c))"
    using state_step by (simp only: connects_late_def) blast
  show "if tc_state c = ESTABLISHED then \<exists>buffers. send_start h m c = Inr buffers
     else \<exists>e. send_start h m c = Inl e \<and> err_event e = SEND_ERROR \<and> err_reason e = INVALID_STATE"
    by (simp add: send_start_def)
  have "\<not> refusal (fst (receive_start f (h, c)))" if "can_receive c"
    using that by (simp add: receive_start_def receive_refused_def framed_turn_no_refusal await_read_no_refusal split: option.split)
  moreover have "can_receive c \<longleftrightarrow> tc_state c = ESTABLISHED \<and> \<not> tc_ended c" by (auto simp: can_receive_def)
  ultimately show "if tc_state c = ESTABLISHED \<and> \<not> tc_ended c
     then \<forall>e h' c'. receive_start f (h, c) = (Done (Inl e), h', c') \<longrightarrow> err_reason e \<noteq> INVALID_STATE
     else \<exists>e. receive_start f (h, c) = (Done (Inl e), h, c) \<and> err_event e = RECEIVE_ERROR \<and> err_reason e = INVALID_STATE"
    by (auto simp: receive_start_def receive_refused_def)
qed

definition aborted_conn :: tcp_conn where
  "aborted_conn = snd (tcp_abort None (make_accepted
    \<lparr>pool_resource = 0, pool_block_size = 8, pool_max_live = 0, pool_live = None\<rparr> None None))"

lemma tcp_lifecycle_witness:
  "tc_aborted aborted_conn \<and> tc_state aborted_conn = CLOSED \<and>
    (\<exists>e. send_start (empty_heap (\<lambda>_. 0) []) (message_of_vector [1] default_context) aborted_conn = Inl e)"
proof -
  have "tcp_reachable False (empty_heap (\<lambda>_. 0) [], aborted_conn)"
    unfolding aborted_conn_def by (rule treach_step [OF treach_accepted tstep_abort])
  from tcp_lifecycle [OF this, of "message_of_vector [1] default_context" None]
  show ?thesis by (auto simp: aborted_conn_def tcp_abort_def Let_def)
qed

text \<open>
  C15. How a failed read is reported, framed or not. Cancelled by \<open>close()\<close> it is a RECEIVE_ERROR with
  INVALID_STATE, and the connection goes on closing; cancelled by \<open>abort()\<close> it is the CONNECTION_ERROR
  with LOCAL_ABORT. A truncated TLS stream is a RECEIVE_ERROR, after which the connection can send as
  before but receive no more. Every other failure closes the connection. No memory is touched.
\<close>

theorem failed_read_classified:
  assumes "ec_value ec \<noteq> EC_eof"
  shows "\<exists>e c'. receive_resume tls f (Failed ec) (h, c) = (Done (Inl e), h, c') \<and>
    (if ec_value ec = EC_operation_aborted
     then if tc_aborted c then err_event e = CONNECTION_ERROR \<and> err_reason e = LOCAL_ABORT \<and> tc_state c' = CLOSED
          else err_event e = RECEIVE_ERROR \<and> err_reason e = INVALID_STATE \<and> tc_state c' = tc_state c
     else if tls \<and> ec_value ec = EC_stream_truncated
     then err_event e = RECEIVE_ERROR \<and> err_reason e = PROTOCOL_FAILED \<and> can_send c' = can_send c \<and> \<not> can_receive c'
     else e = io_error CONNECTION_ERROR ec \<and> tc_state c' = CLOSED)"
proof -
  let ?c1 = "if err_event (read_failure tls ec) = RECEIVE_ERROR then c\<lparr>tc_eof := True\<rparr> else c"
  have "receive_resume tls f (Failed ec) (h, c) = fail_with (read_failure tls ec) (h, ?c1)"
    using assms by (simp add: receive_resume_def framed_resume_def unframed_resume_def finish_read_def Let_def
        split: option.split)
  then show ?thesis
    by (auto simp: fail_with_def receive_failure_def read_failure_def Let_def can_send_def can_receive_def
        reason_from_local_abort)
qed

lemma failed_read_classified_witness:
  "\<exists>e c'. receive_resume True None (Failed \<lparr>ec_value = EC_connection_reset, ec_message = []\<rparr>)
      (empty_heap (\<lambda>_. 0) [], aborted_conn) = (Done (Inl e), empty_heap (\<lambda>_. 0) [], c') \<and>
    err_reason e = CONNECTION_ABORTED \<and> tc_state c' = CLOSED"
  using failed_read_classified [of "\<lparr>ec_value = EC_connection_reset, ec_message = []\<rparr>" True None
      "empty_heap (\<lambda>_. 0) []" aborted_conn]
  by (auto simp: reason_from_def)

end
