(* ===== verification/Udp_Conn.thy ===== *)
theory Udp_Conn
  imports Tcp_Receive Udp_Demux
begin

text \<open>
  UDP connections: initiated ones (class \<open>ActiveUDPConnection\<close>), the sending side of accepted ones
  (class \<open>PassiveUDPConnection\<close>), and how a datagram becomes a chain of blocks, in a connection and in the
  receive loop of the demultiplexer. As for TCP, each stretch between two waits is one definition, and what
  the socket answers is an argument. A read completes with at most as many bytes as its buffer takes: the
  system drops the rest of a longer datagram.
\<close>

section \<open>From a datagram to a chain\<close>

text \<open>
  What both receivers do with the \<open>n\<close> bytes that were read into \<open>block\<close>: a chain object, with the block as
  its only entry unless the datagram is empty. \<open>None\<close> is an exception; what is left of the block and of
  the chain is destroyed then.
\<close>

definition build_datagram :: "nat \<Rightarrow> block_ref \<Rightarrow> nat \<Rightarrow> heap \<Rightarrow> chain option \<times> heap" where
  "build_datagram res block n h =
    (case make_chain res (h, empty_chain) of
       (h1, None) \<Rightarrow> (None, ref_drop block h1)
     | (h1, Some ch) \<Rightarrow>
         if n > 0
         then (case chain_append (set_range 0 n block) (h1, ch) of
                 (False, h2, ch2) \<Rightarrow> (None, res_deallocate (Chain_Alloc res) (chain_destroy (h2, ch2)))
               | (True, h2, ch2) \<Rightarrow> (Some ch2, h2))
         else (Some ch, ref_drop block h1))"

section \<open>The receive loop of the demultiplexer\<close>

text \<open>
  The loop reads into a block, or, at the cap of the pool, into a buffer of one byte that is thrown away.
\<close>

datatype loop_wait = Loop_Into block_ref | Loop_Sink | Loop_Throws

definition loop_start :: "pool \<Rightarrow> heap \<Rightarrow> loop_wait \<times> heap" where
  "loop_start p h =
    (case acquire p h of
       (None, h1) \<Rightarrow> (Loop_Throws, h1)
     | (Some block, h1) \<Rightarrow> (if ref_valid block then Loop_Into block else Loop_Sink, h1))"

datatype loop_next = Loop_Ends | Loop_Again | Loop_Datagram chain | Loop_Thrown

definition loop_sink_done :: "error_code option \<Rightarrow> loop_next" where
  "loop_sink_done ec =
    (case ec of
       None \<Rightarrow> Loop_Again
     | Some e \<Rightarrow> if ec_value e = EC_operation_aborted then Loop_Ends else Loop_Again)"

definition loop_read_done :: "pool \<Rightarrow> block_ref \<Rightarrow> read_event \<Rightarrow> heap \<Rightarrow> loop_next \<times> heap" where
  "loop_read_done p block ev h =
    (case ev of
       Failed ec \<Rightarrow>
         (if ec_value ec = EC_operation_aborted then Loop_Ends else Loop_Again, ref_drop block h)
     | Data bytes \<Rightarrow>
         (case build_datagram (pool_resource p) block (length bytes)
                 (fill_block (the (br_blk block)) (br_begin block) bytes h) of
            (None, h1) \<Rightarrow> (Loop_Thrown, h1)
          | (Some datagram, h1) \<Rightarrow> (Loop_Datagram datagram, h1)))"

section \<open>Passive connections\<close>

text \<open>\<open>send()\<close>: refused, or the buffers of the datagram; then what its completion means.\<close>

definition passive_send_start ::
  "framer option \<Rightarrow> heap \<Rightarrow> message \<Rightarrow> 'e passive_conn \<Rightarrow> TAPSError + buffer_seq" where
  "passive_send_start f h m c =
    (if pc_state c = CLOSED
     then Inl (taps_error SEND_ERROR INVALID_STATE ''Connection is closed'')
     else Inr (seq_of_message h (framing_header f h m) m))"

definition passive_send_done :: "error_code option \<Rightarrow> 'e passive_conn \<Rightarrow> unit result" where
  "passive_send_done ec c =
    (case ec of Some e \<Rightarrow> Inl (udp_failure SEND_ERROR e (pc_aborted c)) | None \<Rightarrow> Inr ())"

text \<open>The message that \<open>receive()\<close> makes of a datagram from the mailbox.\<close>

definition passive_message :: "nat \<Rightarrow> chain \<Rightarrow> message" where
  "passive_message res datagram = message_of_chain (res, datagram) default_context True"

definition datagrams_dropped :: "'d mailbox option \<Rightarrow> nat" where
  "datagrams_dropped mb = (case mb of Some m \<Rightarrow> mb_dropped m | None \<Rightarrow> 0)"

text \<open>Endpoints as the application sees them; the text of an address is outside.\<close>

definition shown_endpoint :: "(inet_address \<Rightarrow> string) \<Rightarrow> inet_endpoint \<Rightarrow> socket_address" where
  "shown_endpoint text e = (text (fst e), snd e)"

definition passive_remote_endpoint ::
  "(inet_address \<Rightarrow> string) \<Rightarrow> inet_endpoint passive_conn \<Rightarrow> socket_address" where
  "passive_remote_endpoint text c = shown_endpoint text (pc_remote c)"

text \<open>All connections of a listener have its local endpoint.\<close>

definition passive_local_endpoint :: "(inet_address \<Rightarrow> string) \<Rightarrow> inet_endpoint \<Rightarrow> socket_address" where
  "passive_local_endpoint text demux_local = shown_endpoint text demux_local"

section \<open>Active connections\<close>

record active_udp =
  au_state :: ConnectionState
  au_framer :: "framer option"
  au_pool :: pool
  au_remote :: inet_endpoint
  au_aborted :: bool
  au_socket_open :: bool
  au_local :: inet_endpoint

definition make_active :: "inet_endpoint \<Rightarrow> pool \<Rightarrow> active_udp" where
  "make_active remote p =
    \<lparr>au_state = ESTABLISHING, au_framer = None, au_pool = p, au_remote = remote, au_aborted = False,
     au_socket_open = False, au_local = (Any_IPv4, 0)\<rparr>"

text \<open>
  \<open>open()\<close>: the arguments are the error of opening the socket, that of binding it, and the endpoint the
  system binds it to.
\<close>

definition active_open ::
  "error_code option \<Rightarrow> error_code option \<Rightarrow> inet_endpoint \<Rightarrow> active_udp \<Rightarrow> unit result \<times> active_udp" where
  "active_open open_ec bind_ec local c =
    (case open_ec of
       Some e \<Rightarrow> (Inl (io_error ESTABLISHMENT_ERROR e), c)
     | None \<Rightarrow>
         (case bind_ec of
            Some e \<Rightarrow> (Inl (io_error ESTABLISHMENT_ERROR e), c\<lparr>au_socket_open := True\<rparr>)
          | None \<Rightarrow> (Inr (), c\<lparr>au_socket_open := True, au_local := local, au_state := ESTABLISHED\<rparr>)))"

definition active_send_start :: "heap \<Rightarrow> message \<Rightarrow> active_udp \<Rightarrow> TAPSError + buffer_seq" where
  "active_send_start h m c =
    (if au_state c \<noteq> ESTABLISHED
     then Inl (taps_error SEND_ERROR INVALID_STATE ''Connection not established'')
     else Inr (seq_of_message h (framing_header (au_framer c) h m) m))"

text \<open>The completion reports an error, or how many bytes were sent of the \<open>expected\<close> ones that the datagram has.\<close>

definition active_send_done :: "error_code option \<Rightarrow> nat \<Rightarrow> nat \<Rightarrow> active_udp \<Rightarrow> unit result" where
  "active_send_done ec sent expected c =
    (case ec of
       Some e \<Rightarrow> Inl (udp_failure SEND_ERROR e (au_aborted c))
     | None \<Rightarrow>
         if sent \<noteq> expected then Inl (taps_error SEND_ERROR PROTOCOL_FAILED ''Partial send occurred'')
         else Inr ())"

datatype udp_receiving = Udp_Done "message result" | Udp_Reading block_ref | Udp_Raised

definition active_receive_start :: "active_udp \<Rightarrow> heap \<Rightarrow> udp_receiving \<times> heap" where
  "active_receive_start c h =
    (if au_state c \<noteq> ESTABLISHED
     then (Udp_Done (Inl (taps_error RECEIVE_ERROR INVALID_STATE ''Connection not established'')), h)
     else
       (case acquire (au_pool c) h of
          (None, h1) \<Rightarrow> (Udp_Raised, h1)
        | (Some block, h1) \<Rightarrow>
            if \<not> ref_valid block
            then (Udp_Done (Inl (taps_error RECEIVE_ERROR RESOURCE_EXHAUSTED ''receive block pool exhausted'')), h1)
            else (Udp_Reading block, h1)))"

definition active_receive_done :: "active_udp \<Rightarrow> block_ref \<Rightarrow> read_event \<Rightarrow> heap \<Rightarrow> udp_receiving \<times> heap" where
  "active_receive_done c block ev h =
    (case ev of
       Failed ec \<Rightarrow> (Udp_Done (Inl (udp_failure RECEIVE_ERROR ec (au_aborted c))), ref_drop block h)
     | Data bytes \<Rightarrow>
         (let res = pool_resource (au_pool c)
          in case build_datagram res block (length bytes)
                    (fill_block (the (br_blk block)) (br_begin block) bytes h) of
               (None, h1) \<Rightarrow> (Udp_Raised, h1)
             | (Some ch, h1) \<Rightarrow> (Udp_Done (Inr (message_of_chain (res, ch) default_context True)), h1)))"

definition active_close :: "error_code option \<Rightarrow> active_udp \<Rightarrow> unit result \<times> active_udp" where
  "active_close ec c =
    (let c1 = c\<lparr>au_socket_open := False, au_state := CLOSED\<rparr>
     in case (if au_socket_open c then ec else None) of
          Some e \<Rightarrow> (Inl (taps_error CONNECTION_ERROR INTERNAL_ERROR (ec_message e)), c1)
        | None \<Rightarrow> (Inr (), c1))"

definition active_abort :: "error_code option \<Rightarrow> active_udp \<Rightarrow> unit result \<times> active_udp" where
  "active_abort ec c = active_close ec (c\<lparr>au_aborted := True\<rparr>)"

definition active_remote_endpoint :: "(inet_address \<Rightarrow> string) \<Rightarrow> active_udp \<Rightarrow> socket_address" where
  "active_remote_endpoint text c = shown_endpoint text (au_remote c)"

definition active_local_endpoint :: "(inet_address \<Rightarrow> string) \<Rightarrow> active_udp \<Rightarrow> socket_address" where
  "active_local_endpoint text c = (if au_socket_open c then shown_endpoint text (au_local c) else ([], 0))"

section \<open>What a datagram becomes\<close>

lemma build_datagram_correct:
  assumes inv: "heap_inv h (add_mset r R) X" and b: "br_blk r = Some b"
    and n: "n \<le> length (block_data h b)" and run: "build_datagram res r n h = (oc, h')"
  shows "keeps R h h'"
    and "case oc of None \<Rightarrow> heap_inv h' R X
      | Some ch \<Rightarrow> chain_ok ch \<and> chain_bytes h' ch = take n (block_data h b) \<and> length (ch_live ch) \<le> 1 \<and>
          heap_inv h' (mset (ch_live ch) + R) (add_mset (Chain_Alloc res) (chain_units ch) + X)"
proof -
  let ?Q = "keeps R h h' \<and> (case oc of None \<Rightarrow> heap_inv h' R X
      | Some ch \<Rightarrow> chain_ok ch \<and> chain_bytes h' ch = take n (block_data h b) \<and> length (ch_live ch) \<le> 1 \<and>
          heap_inv h' (mset (ch_live ch) + R) (add_mset (Chain_Alloc res) (chain_units ch) + X))"
  obtain h1 mc where 1: "make_chain res (h, empty_chain) = (h1, mc)" by fastforce
  have "heap_inv h (mset (ch_live empty_chain) + add_mset r R) (chain_units empty_chain + X)"
    using inv by (simp add: chain_units_empty)
  note m = make_chain_correct [OF chain_ok_empty(1) this 1]
  have k1: "keeps (add_mset r R) h h1" using m by (auto split: option.splits)
  then have k1R: "keeps R h h1" and data: "block_data h1 b = block_data h b"
    using b by (auto simp: keeps_def)
  have ?Q
  proof (cases mc)
    case None
    have "heap_inv h1 (add_mset r R) X" using m None by simp
    note d = heap_inv_ref_drop [OF this]
    have "oc = None" "h' = ref_drop r h1" using run 1 None by (simp_all add: build_datagram_def)
    then show ?thesis using d keeps_trans [OF k1R d(2)] by simp
  next
    case (Some ch)
    let ?Y = "add_mset (Chain_Alloc res) X"
    have ch: "chain_ok ch" "ch_live ch = []"
      and hi1: "heap_inv h1 (add_mset r R) (chain_units ch + ?Y)" using m Some by auto
    show ?thesis
    proof (cases "n > 0")
      case False
      note d = heap_inv_ref_drop [OF hi1]
      have "oc = Some ch" "h' = ref_drop r h1" using run 1 Some False by (simp_all add: build_datagram_def)
      then show ?thesis
        using d(1) ch False keeps_trans [OF k1R d(2)] by (simp add: chain_bytes_def refs_bytes_def)
    next
      case True
      let ?r = "set_range 0 n r"
      have "ref_fits h1 ?r" using n b data by (simp add: ref_fits_def set_range_def)
      then have "heap_inv h1 (add_mset ?r (mset (ch_live ch) + R)) (chain_units ch + ?Y)"
        using heap_inv_window [OF hi1, of ?r] ch(2) by (simp add: set_range_def window_okI)
      note hi2 = this
      obtain app h2 ch2 where 2: "chain_append ?r (h1, ch) = (app, h2, ch2)" using prod_cases3 by blast
      note a = chain_append_correct [OF ch(1) hi2 2]
      have k2: "keeps R h1 h2" using a by (auto simp: keeps_union)
      show ?thesis
      proof (cases app)
        case False
        have out: "oc = None" "h' = res_deallocate (Chain_Alloc res) (chain_destroy (h2, ch2))"
          using run 1 2 Some True False by (auto simp: build_datagram_def)
        have "heap_inv h2 (mset (ch_live ch2) + R) (chain_units ch2 + ?Y)" "chain_shape ch2" using a by blast+
        note d = chain_destroy_correct [OF this(2,1)]
        have "heap_inv h' R X" unfolding out using d(1) by (rule heap_inv_deallocate)
        moreover have "keeps R h h'"
          using keeps_trans [OF keeps_trans [OF k1R k2] d(2)] by (simp add: out keeps_def heap_simps)
        ultimately show ?thesis by (simp add: out(1))
      next
        case app: True
        have out: "oc = Some ch2" "h' = h2" using run 1 2 Some True app by (auto simp: build_datagram_def)
        have "chain_bytes h2 ch2 = ref_bytes h1 ?r"
          using chain_append_bytes [OF ch(1) hi2] 2 app ch(2) by (simp add: chain_bytes_def)
        then have "chain_bytes h2 ch2 = take n (block_data h b)"
          using b data by (simp add: ref_bytes_def set_range_def slice_def)
        moreover have "length (ch_live ch2) \<le> 1" using a ch app by (auto simp: append_refs_def)
        ultimately show ?thesis using a app keeps_trans [OF k1R k2] by (auto simp: out add.left_commute)
      qed
    qed
  qed
  then show "keeps R h h'" and "case oc of None \<Rightarrow> heap_inv h' R X
      | Some ch \<Rightarrow> chain_ok ch \<and> chain_bytes h' ch = take n (block_data h b) \<and> length (ch_live ch) \<le> 1 \<and>
          heap_inv h' (mset (ch_live ch) + R) (add_mset (Chain_Alloc res) (chain_units ch) + X)"
    by blast+
qed


lemma build_datagram_granted:
  assumes "h_grants h = []"
  shows "fst (build_datagram res r n h) \<noteq> None"
proof -
  obtain h1 mc where 1: "make_chain res (h, empty_chain) = (h1, mc)" by fastforce
  then obtain ch where mc: "mc = Some ch" using make_chain_granted [OF assms, of res empty_chain] by auto
  have "h_grants h1 = []" using later_make_chain [OF 1] assms by (simp add: later_def)
  then have "fst (chain_append (set_range 0 n r) (h1, ch))" by (rule append_granted)
  then show ?thesis
    by (cases "chain_append (set_range 0 n r) (h1, ch)") (auto simp: build_datagram_def 1 mc)
qed

text \<open>
  The end of a receive. In every case what others hold shows the same bytes, and the memory is consistent
  with the handles that are left, those of the message included.
\<close>

definition udp_received ::
  "block_ref multiset \<Rightarrow> alloc_unit multiset \<Rightarrow> heap \<Rightarrow> read_event \<Rightarrow> udp_receiving \<times> heap \<Rightarrow> bool" where
  "udp_received R X h ev out \<longleftrightarrow>
    (case out of (res, h') \<Rightarrow>
      same_bytes R h h' \<and>
      (case res of
         Udp_Done (Inr m) \<Rightarrow>
           (case ev of Data bytes \<Rightarrow> message_bytes h' m = bytes | Failed _ \<Rightarrow> False) \<and> msg_eom m \<and> message_ok h' m \<and>
           segment_count m \<le> 1 \<and> heap_inv h' (message_refs m + R) (message_units m + X)
       | Udp_Done (Inl e) \<Rightarrow> (\<exists>ec. ev = Failed ec) \<and> heap_inv h' R X
       | Udp_Raised \<Rightarrow> h_grants h \<noteq> [] \<and> heap_inv h' R X
       | Udp_Reading _ \<Rightarrow> False))"

lemma active_receive_correct:
  assumes inv: "heap_inv h R X" and ok: "pool_ok (au_pool c) h"
    and start: "active_receive_start c h = (Udp_Reading r, h1)"
    and fits: "\<And>bytes. ev = Data bytes \<Longrightarrow> length bytes \<le> pool_block_size (au_pool c)"
  shows "udp_received R X h ev (active_receive_done c r ev h1)"
proof -
  let ?res = "pool_resource (au_pool c)"
  obtain ar h0 where acq: "acquire (au_pool c) h = (ar, h0)" by fastforce
  with start have out: "ar = Some r" "h0 = h1" "ref_valid r"
    by (auto simp: active_receive_start_def split: if_splits option.splits)
  from inv ok acq obtain b where b: "br_blk r = Some b" "br_begin r = 0" "h_blocks h b = None"
    "heap_inv h1 (add_mset r R) X" "keeps R h h1" "length (block_data h1 b) = pool_block_size (au_pool c)"
    by (cases rule: acquire_cases) (use out in \<open>auto simp: ref_valid_def ref_null_def\<close>)
  have l: "later h h1" using later_acquire [OF acq] out(2) by simp
  have s1: "same_bytes R h h1" using b(5) by (rule keeps_same_bytes)
  show ?thesis
  proof (cases ev)
    case (Failed ec)
    note d = heap_inv_ref_drop [OF b(4)]
    have "same_bytes R h (ref_drop r h1)" using s1 keeps_same_bytes [OF d(2)] by (rule same_bytes_trans)
    then show ?thesis using d(1) by (simp add: udp_received_def active_receive_done_def Failed)
  next
    case (Data bytes)
    define h2 where "h2 = fill_block b 0 bytes h1"
    have space: "0 + length bytes \<le> length (block_data h1 b)" using fits [OF Data] b(6) by simp
    have rin: "r \<in># add_mset r R" by simp
    note fill = heap_inv_fill_block [OF b(4) rin b(1) space, folded h2_def]
    have other: "br_blk q \<noteq> Some b" if "q \<in># R" for q
      using heap_inv_alive [OF inv that] b(3) by fastforce
    have "ref_bytes h2 q = ref_bytes h1 q" if "q \<in># R" for q
      unfolding h2_def using b(4) rin b(1) space by (rule ref_bytes_fill_block) (use other [OF that] in simp)
    then have s2: "same_bytes R h h2" using s1 by (simp add: same_bytes_def)
    have data2: "block_data h2 b = overwrite 0 bytes (block_data h1 b)" using fill(2) by simp
    then have len2: "length bytes \<le> length (block_data h2 b)" using space by simp
    obtain oc h3 where bd: "build_datagram ?res r (length bytes) h2 = (oc, h3)" by fastforce
    note d = build_datagram_correct [OF fill(1) b(1) len2 bd]
    have s3: "same_bytes R h h3" using s2 keeps_same_bytes [OF d(1)] by (rule same_bytes_trans)
    have bytes: "take (length bytes) (block_data h2 b) = bytes" by (simp add: data2 overwrite_def)
    have run: "active_receive_done c r (Data bytes) h1 = (case oc of None \<Rightarrow> (Udp_Raised, h3)
        | Some ch \<Rightarrow> (Udp_Done (Inr (message_of_chain (?res, ch) default_context True)), h3))"
      by (simp add: active_receive_done_def Let_def b(1,2) h2_def [symmetric] bd split: option.split)
    show ?thesis
    proof (cases oc)
      case None
      have "later h h2" unfolding h2_def using l later_fill_block by (rule later_trans)
      then have "h_grants h \<noteq> []"
        using build_datagram_granted [of h2 ?res r "length bytes"] bd None by (auto simp: later_def)
      then show ?thesis using d(2) s3 None Data by (simp add: run udp_received_def)
    next
      case (Some ch)
      have "segment_count (message_of_chain (?res, ch) default_context True) \<le> 1"
        using d(2) Some length_ch_live [of ch] by (simp add: segment_count_def message_of_chain_def chain_ok_def)
      then show ?thesis using d(2) s3 Some bytes Data by (simp add: run udp_received_def)
    qed
  qed
qed

text \<open>
  C6. A UDP datagram from one connection to the other. The sender puts the framing header, if it has a
  framer, and the payload into one datagram. The receiver reads it into one block and delivers one complete
  message with exactly its bytes, cut at the block size; it does not use a framer, so the header arrives
  as part of the payload. No other message changes and no memory is lost, also if an allocation fails, and
  none fails while the memory resource grants all requests.
\<close>

theorem udp_datagram_roundtrip:
  assumes "message_ok hs m" and "heap_inv hs (message_refs m + S) Y"
    and "active_send_start hs m cs = Inr buffers"
    and "heap_inv h R X" and "pool_ok (au_pool c) h" and "active_receive_start c h = (Udp_Reading r, h1)"
  shows "\<exists>bufs. seq_buffers hs buffers = Some bufs \<and>
    (let datagram = take (pool_block_size (au_pool c)) (concat bufs)
     in datagram = take (pool_block_size (au_pool c)) (framing_header (au_framer cs) hs m @ message_bytes hs m) \<and>
        udp_received R X h (Data datagram) (active_receive_done c r (Data datagram) h1))"
proof -
  have "buffers = seq_of_message hs (framing_header (au_framer cs) hs m) m"
    using assms(3) by (simp add: active_send_start_def split: if_splits)
  then obtain bufs where bufs: "seq_buffers hs buffers = Some bufs"
    "concat bufs = framing_header (au_framer cs) hs m @ message_bytes hs m"
    using seq_buffers_message [OF assms(1,2)] by blast
  have "udp_received R X h (Data d) (active_receive_done c r (Data d) h1)"
    if "length d \<le> pool_block_size (au_pool c)" for d
    using assms(4-6) by (rule active_receive_correct) (use that in simp)
  then show ?thesis using bufs by (simp add: Let_def)
qed

definition demo_active :: "framer option \<Rightarrow> nat \<Rightarrow> active_udp" where
  "demo_active f k =
    (snd (active_open None None (Any_IPv4, 50000)
      (make_active (Resolved ''192.0.2.1'', 7) \<lparr>pool_resource = 0, pool_block_size = k, pool_max_live = 0, pool_live = None\<rparr>)))
    \<lparr>au_framer := f\<rparr>"

theorem udp_datagram_roundtrip_witness:
  "\<exists>res h2. active_receive_done (demo_active None 8) (demo_ref 0 0) (Data [0, 2, 104, 105])
      (snd (acquire (au_pool (demo_active None 8)) (empty_heap (\<lambda>_. 0) []))) = (Udp_Done (Inr res), h2) \<and>
    message_bytes h2 res = [0, 2, 104, 105]"
proof -
  let ?f = "lp_framer_of little (make_lp_framer 2 big)" and ?h = "empty_heap (\<lambda>_. 0) []"
  let ?m = "message_of_vector [104, 105] default_context" and ?c = "demo_active None 8"
  let ?h1 = "snd (acquire (au_pool ?c) ?h)"
  have inv: "heap_inv ?h {#} {#}" by (rule heap_inv_empty_heap)
  have m: "message_ok ?h ?m" "heap_inv ?h (message_refs ?m + {#}) {#}" "message_bytes ?h ?m = [104, 105]"
    using inv by (simp_all add: message_ok_def message_refs_def message_of_vector_def message_bytes_def)
  have sel: "au_state (demo_active f k) = ESTABLISHED" "au_framer (demo_active f k) = f"
    "pool_block_size (au_pool (demo_active f k)) = k" "pool_ok (au_pool (demo_active f k)) h" for f k h
    by (simp_all add: demo_active_def active_open_def make_active_def pool_ok_def)
  have "fst (acquire (au_pool ?c) ?h) = Some (demo_ref 0 0)" by code_simp
  then have start: "active_receive_start ?c ?h = (Udp_Reading (demo_ref 0 0), ?h1)"
    by (cases "acquire (au_pool ?c) ?h") (simp add: active_receive_start_def sel(1) ref_valid_def)
  have send: "active_send_start ?h ?m (demo_active (Some ?f) 8) = Inr (seq_of_message ?h (framing_header (Some ?f) ?h ?m) ?m)"
    by (simp add: active_send_start_def sel)
  have header: "framing_header (Some ?f) ?h ?m = [0, 2]" by code_simp
  have "udp_received {#} {#} ?h (Data [0, 2, 104, 105])
      (active_receive_done ?c (demo_ref 0 0) (Data [0, 2, 104, 105]) ?h1)"
    using udp_datagram_roundtrip [OF m(1,2) send inv sel(4) start] by (auto simp: Let_def sel m(3) header)
  then show ?thesis
    by (auto simp: udp_received_def empty_heap_def split: prod.splits udp_receiving.splits sum.splits)
qed

end
