(* ===== verification/Establish.thy ===== *)
theory Establish
  imports Udp_Conn
begin

text \<open>
  Establishing a connection (class \<open>Preconnection\<close>, src/Preconnection.cpp): the choice of the protocol, the
  racing of the resolved addresses, and the application of security.

  What the outside answers is in \<open>environment\<close>: the resolver, each attempt to connect (numbered, so that two
  attempts at one address may differ), OpenSSL, opening and binding a UDP socket. \<open>world\<close> holds the message
  memory and the trace of what the library did to the outside, in order. An exception that leaves
  \<open>initiate()\<close> is \<open>Thrown\<close>.
\<close>

section \<open>State\<close>

datatype action = Connecting inet_endpoint | Aborted inet_endpoint | Pausing nat

record world =
  w_heap :: heap
  w_trace :: "action list"

record environment =
  ev_with_tls :: bool
  ev_resolver :: resolver
  ev_connect :: "nat \<Rightarrow> inet_endpoint \<Rightarrow> string + socket_address \<times> (string + socket_address)"
  ev_ssl :: ssl_library
  ev_session :: "nat \<Rightarrow> ssl_session"
  ev_udp_open :: "inet_endpoint \<Rightarrow> error_code option"
  ev_udp_bind :: "inet_endpoint \<Rightarrow> error_code option"
  ev_udp_local :: "inet_endpoint \<Rightarrow> inet_endpoint"
  ev_bad_alloc :: string

datatype connection = TCP_Connection tcp_conn | UDP_Connection active_udp

record preconnection =
  pr_local :: endpoint
  pr_remotes :: "endpoint list"
  pr_properties :: transport_properties
  pr_security :: security_parameters
  pr_memory :: memory_config
  pr_provider :: "tls_provider option"

definition make_preconnection ::
  "endpoint \<Rightarrow> endpoint \<Rightarrow> transport_properties \<Rightarrow> security_parameters \<Rightarrow> memory_config \<Rightarrow> preconnection" where
  "make_preconnection local remote props security memory =
    \<lparr>pr_local = local, pr_remotes = [remote], pr_properties = props, pr_security = security,
     pr_memory = memory, pr_provider = None\<rparr>"

definition add_remote_endpoint :: "endpoint \<Rightarrow> preconnection \<Rightarrow> preconnection" where
  "add_remote_endpoint e pre = pre\<lparr>pr_remotes := pr_remotes pre @ [e]\<rparr>"

definition set_transport_property :: "PropertyKey \<Rightarrow> SelectionProperty \<Rightarrow> preconnection \<Rightarrow> preconnection" where
  "set_transport_property key value pre = pre\<lparr>pr_properties := set_property key value (pr_properties pre)\<rparr>"

type_synonym establishing = "connection result outcome_of \<times> preconnection \<times> world"

definition acted :: "action \<Rightarrow> world \<Rightarrow> world" where
  "acted a w = w\<lparr>w_trace := w_trace w @ [a]\<rparr>"

section \<open>One attempt\<close>

text \<open>
  A connection that is given up: \<open>abort()\<close>, whose result is not looked at, and the destructor, with which
  the counter of its block pool goes (no block refers to it yet).
\<close>

definition destroy_pool :: "pool \<Rightarrow> heap \<Rightarrow> heap" where
  "destroy_pool p h = (if pool_live p = None then h else res_deallocate (Counter_Alloc (pool_resource p)) h)"

definition discard :: "inet_endpoint \<Rightarrow> tcp_conn \<Rightarrow> world \<Rightarrow> world" where
  "discard e c w = (acted (Aborted e) w)\<lparr>w_heap := destroy_pool (tc_pool c) (w_heap w)\<rparr>"

definition failed :: "TAPSError \<Rightarrow> preconnection \<Rightarrow> world \<Rightarrow> establishing" where
  "failed e pre w = (Returned (Inl e), pre, w)"

text \<open>
  \<open>establish_connection\<close>, for the connection of attempt \<open>i\<close> at the address \<open>e\<close>. The list of remote
  endpoints is never empty: the constructor adds one.
\<close>

definition establish_connection ::
  "environment \<Rightarrow> nat \<Rightarrow> inet_endpoint \<Rightarrow> tcp_conn \<Rightarrow> preconnection \<Rightarrow> world \<Rightarrow> establishing" where
  "establish_connection env i e c pre w =
    (let sec = pr_security pre
     in if \<not> is_enabled sec then (Returned (Inr (TCP_Connection c)), pre, w)
        else if \<not> ev_with_tls env
        then failed (taps_error ESTABLISHMENT_ERROR NO_CANDIDATES
               ''SecurityParameters request TLS but this build has TAPS_WITH_TLS=OFF'') pre (discard e c w)
        else
          (case (case pr_provider pre of Some p \<Rightarrow> Inr p | None \<Rightarrow> create_provider (ev_ssl env) sec Client) of
             Inl err \<Rightarrow> failed err pre (discard e c w)
           | Inr p \<Rightarrow>
               (let pre1 = pre\<lparr>pr_provider := Some p\<rparr>;
                    server_name = (if sp_server_name sec = [] then ep_hostname (pr_remotes pre ! 0)
                                   else sp_server_name sec)
                in case apply_security_done (secure p (ev_session env i) server_name) c of
                     (Inl err, c1) \<Rightarrow> failed err pre1 (discard e c1 w)
                   | (Inr _, c1) \<Rightarrow> (Returned (Inr (TCP_Connection c1)), pre1, w))))"

text \<open>
  The constructor and \<open>connect()\<close> of attempt \<open>i\<close>: \<open>None\<close> when the constructor throws. The state is
  ESTABLISHING, so \<open>connect()\<close> is not refused.
\<close>

definition attempt ::
  "environment \<Rightarrow> nat \<Rightarrow> inet_endpoint \<Rightarrow> preconnection \<Rightarrow> world \<Rightarrow> (unit result \<times> tcp_conn) option \<times> world" where
  "attempt env i e pre w =
    (case make_pool (pr_memory pre) (w_heap w) of
       (None, h1) \<Rightarrow> (None, w\<lparr>w_heap := h1\<rparr>)
     | (Some p, h1) \<Rightarrow>
         (Some (connect_done (ev_connect env i e) (make_tcp p)), acted (Connecting e) (w\<lparr>w_heap := h1\<rparr>)))"

section \<open>Initiating\<close>

definition initiate_with_single_endpoint :: "environment \<Rightarrow> preconnection \<Rightarrow> world \<Rightarrow> establishing" where
  "initiate_with_single_endpoint env pre w =
    (case resolve_remote (ev_resolver env) (pr_remotes pre ! 0) of
       [] \<Rightarrow> failed (taps_error ESTABLISHMENT_ERROR RESOLUTION_FAILED ''Failed to resolve remote endpoint'') pre w
     | e # _ \<Rightarrow>
         (case attempt env 0 e pre w of
            (None, w1) \<Rightarrow> failed (taps_error ESTABLISHMENT_ERROR INTERNAL_ERROR (ev_bad_alloc env)) pre w1
          | (Some (Inl err, c), w1) \<Rightarrow> failed err pre (discard e c w1)
          | (Some (Inr _, c), w1) \<Rightarrow> establish_connection env 0 e c pre w1))"

fun race_from ::
  "environment \<Rightarrow> preconnection \<Rightarrow> nat \<Rightarrow> TAPSError \<Rightarrow> nat \<Rightarrow> inet_endpoint list \<Rightarrow> world \<Rightarrow> establishing" where
  "race_from env pre n last_error i [] w =
    failed (taps_error ESTABLISHMENT_ERROR ESTABLISHMENT_FAILED
      (''All '' @ to_string n @ '' connection attempts failed: '' @ err_message last_error)) pre w"
| "race_from env pre n last_error i (e # es) w =
    (case attempt env i e pre w of
       (None, w1) \<Rightarrow> (Thrown, pre, w1)
     | (Some (Inr _, c), w1) \<Rightarrow> establish_connection env i e c pre w1
     | (Some (Inl err, c), w1) \<Rightarrow>
         (let w2 = discard e c w1
          in race_from env pre n err (Suc i) es (if es \<noteq> [] then acted (Pausing 250) w2 else w2)))"

definition race_connections :: "environment \<Rightarrow> inet_endpoint list \<Rightarrow> preconnection \<Rightarrow> world \<Rightarrow> establishing" where
  "race_connections env endpoints pre w =
    (if endpoints = []
     then failed (taps_error ESTABLISHMENT_ERROR RESOLUTION_FAILED ''No endpoints to connect to'') pre w
     else race_from env pre (length endpoints)
            (taps_error ESTABLISHMENT_ERROR ESTABLISHMENT_FAILED ''No endpoints attempted'') 0 endpoints w)"

definition happy_eyeballs_racing :: "environment \<Rightarrow> preconnection \<Rightarrow> world \<Rightarrow> establishing" where
  "happy_eyeballs_racing env pre w =
    (let primary_resolved = resolve_remote (ev_resolver env) (pr_remotes pre ! 0);
         all_endpoints = primary_resolved @ concat (map (resolve_remote (ev_resolver env)) (drop 1 (pr_remotes pre)))
     in if all_endpoints = []
        then failed (taps_error ESTABLISHMENT_ERROR RESOLUTION_FAILED ''No addresses resolved'') pre w
        else race_connections env all_endpoints pre w)"

fun udp_candidates :: "environment \<Rightarrow> preconnection \<Rightarrow> endpoint list \<Rightarrow> world \<Rightarrow> establishing" where
  "udp_candidates env pre [] w =
    failed (taps_error ESTABLISHMENT_ERROR RESOLUTION_FAILED ''Failed to resolve any remote endpoint'') pre w"
| "udp_candidates env pre (remote # remotes) w =
    (case resolve_remote (ev_resolver env) remote of
       [] \<Rightarrow> udp_candidates env pre remotes w
     | e # _ \<Rightarrow>
         (case make_pool (pr_memory pre) (w_heap w) of
            (None, h1) \<Rightarrow> (Thrown, pre, w\<lparr>w_heap := h1\<rparr>)
          | (Some p, h1) \<Rightarrow>
              (case active_open (ev_udp_open env e) (ev_udp_bind env e) (ev_udp_local env e) (make_active e p) of
                 (Inl err, c) \<Rightarrow> failed err pre (w\<lparr>w_heap := destroy_pool p h1\<rparr>)
               | (Inr _, c) \<Rightarrow> (Returned (Inr (UDP_Connection c)), pre, w\<lparr>w_heap := h1\<rparr>))))"

definition initiate_udp :: "environment \<Rightarrow> preconnection \<Rightarrow> world \<Rightarrow> establishing" where
  "initiate_udp env pre w =
    (if is_enabled (pr_security pre)
     then failed (taps_error ESTABLISHMENT_ERROR NO_CANDIDATES
            ''security was requested, but no available protocol secures an unreliable transport'') pre w
     else udp_candidates env pre (pr_remotes pre) w)"

definition initiate :: "environment \<Rightarrow> preconnection \<Rightarrow> world \<Rightarrow> establishing" where
  "initiate env pre w =
    (if \<not> requires_reliable_transport (pr_properties pre) then initiate_udp env pre w
     else if length (pr_remotes pre) = 1 then initiate_with_single_endpoint env pre w
     else happy_eyeballs_racing env pre w)"

section \<open>Racing\<close>

text \<open>The attempt that wins: the first, in the order of the list, whose connect succeeds.\<close>

definition connects :: "environment \<Rightarrow> nat \<Rightarrow> inet_endpoint \<Rightarrow> bool" where
  "connects env i e \<longleftrightarrow> (\<exists>remote local. ev_connect env i e = Inr (remote, Inr local))"

definition refusal :: "environment \<Rightarrow> nat \<Rightarrow> inet_endpoint \<Rightarrow> string" where
  "refusal env i e =
    (case ev_connect env i e of Inl what \<Rightarrow> what | Inr (_, Inl what) \<Rightarrow> what | Inr (_, Inr _) \<Rightarrow> [])"

definition lost :: "inet_endpoint list \<Rightarrow> action list" where
  "lost es = concat (map (\<lambda>e. [Connecting e, Aborted e, Pausing 250]) es)"

definition pool_units :: "pool \<Rightarrow> alloc_unit multiset" where
  "pool_units p = (if pool_live p = None then {#} else {#Counter_Alloc (pool_resource p)#})"


lemma make_pool_granted:
  assumes "h_grants h = []"
  obtains p h1 where "make_pool cfg h = (Some p, h1)" "h_grants h1 = []" "h_out h1 = pool_units p + h_out h"
    "h_grants (destroy_pool p h1) = []" "h_out (destroy_pool p h1) = h_out h"
  by (rule that [of "the (fst (make_pool cfg h))" "snd (make_pool cfg h)"])
     (use assms in \<open>auto simp: make_pool_def granted Let_def pool_units_def destroy_pool_def res_deallocate_def\<close>)

lemma attempt_granted:
  assumes "h_grants (w_heap w) = []"
  obtains p h1 where
    "attempt env i e pre w = (Some (connect_done (ev_connect env i e) (make_tcp p)),
       \<lparr>w_heap = h1, w_trace = w_trace w @ [Connecting e]\<rparr>)"
    "h_out h1 = pool_units p + h_out (w_heap w)"
    "h_grants (destroy_pool p h1) = []" "h_out (destroy_pool p h1) = h_out (w_heap w)"
proof -
  obtain p h1 where "make_pool (pr_memory pre) (w_heap w) = (Some p, h1)" "h_out h1 = pool_units p + h_out (w_heap w)"
    "h_grants (destroy_pool p h1) = []" "h_out (destroy_pool p h1) = h_out (w_heap w)"
    using make_pool_granted [OF assms] by metis
  then show ?thesis by (intro that [of p h1]) (simp_all add: attempt_def acted_def)
qed

lemma connect_fails:
  assumes "\<not> connects env i e"
  obtains c where "tc_pool c = p" "connect_done (ev_connect env i e) (make_tcp p) =
    (Inl (taps_error ESTABLISHMENT_ERROR ESTABLISHMENT_FAILED (refusal env i e)), c)"
proof (rule that [of "snd (connect_done (ev_connect env i e) (make_tcp p))"])
  show "tc_pool (snd (connect_done (ev_connect env i e) (make_tcp p))) = p"
    by (auto simp: connect_done_def make_tcp_def Let_def split: sum.split prod.split)
qed (use assms in \<open>auto simp: connects_def connect_done_def refusal_def Let_def split: sum.splits prod.splits\<close>)

lemma connect_succeeds:
  assumes "connects env i e"
  shows "connect_done (ev_connect env i e) (make_tcp p) = (Inr (), snd (connect_done (ev_connect env i e) (make_tcp p)))"
  using assms by (auto simp: connects_def connect_done_def Let_def)

lemma race_turn_lost:
  assumes "\<not> connects env i e" and "h_grants (w_heap w) = []"
  obtains h2 where "race_from env pre n err i (e # es) w =
      race_from env pre n (taps_error ESTABLISHMENT_ERROR ESTABLISHMENT_FAILED (refusal env i e)) (Suc i) es
        \<lparr>w_heap = h2, w_trace = w_trace w @ (if es = [] then [Connecting e, Aborted e] else lost [e])\<rparr>"
    "h_grants h2 = []" "h_out h2 = h_out (w_heap w)"
proof -
  obtain p h1 where a: "attempt env i e pre w = (Some (connect_done (ev_connect env i e) (make_tcp p)),
       \<lparr>w_heap = h1, w_trace = w_trace w @ [Connecting e]\<rparr>)"
    "h_grants (destroy_pool p h1) = []" "h_out (destroy_pool p h1) = h_out (w_heap w)"
    using attempt_granted [OF assms(2)] by metis
  obtain c where "tc_pool c = p" "connect_done (ev_connect env i e) (make_tcp p) =
    (Inl (taps_error ESTABLISHMENT_ERROR ESTABLISHMENT_FAILED (refusal env i e)), c)"
    using connect_fails [OF assms(1)] by metis
  then show ?thesis
    using a by (intro that [of "destroy_pool p h1"]) (simp_all add: discard_def acted_def lost_def Let_def)
qed

lemma race_won:
  assumes "k < length es" and "connects env (i + k) (es ! k)" and "\<forall>j<k. \<not> connects env (i + j) (es ! j)"
    and "h_grants (w_heap w) = []"
  shows "\<exists>p h1. race_from env pre n err i es w =
      establish_connection env (i + k) (es ! k) (snd (connect_done (ev_connect env (i + k) (es ! k)) (make_tcp p))) pre
        \<lparr>w_heap = h1, w_trace = w_trace w @ lost (take k es) @ [Connecting (es ! k)]\<rparr> \<and>
      h_out h1 = pool_units p + h_out (w_heap w)"
  using assms
proof (induction es arbitrary: i k w err)
  case (Cons e es)
  show ?case
  proof (cases k)
    case 0
    obtain p h1 where "attempt env i e pre w = (Some (connect_done (ev_connect env i e) (make_tcp p)),
       \<lparr>w_heap = h1, w_trace = w_trace w @ [Connecting e]\<rparr>)" "h_out h1 = pool_units p + h_out (w_heap w)"
      using attempt_granted [OF Cons.prems(4)] by metis
    moreover obtain c where "connect_done (ev_connect env i e) (make_tcp p) = (Inr (), c)"
      using connect_succeeds [of env i e p] Cons.prems(2) 0 by auto
    ultimately show ?thesis using 0 by (intro exI [of _ p] exI [of _ h1]) (simp add: lost_def)
  next
    case (Suc k')
    have "\<not> connects env i e" using Cons.prems(3) Suc by force
    then obtain h2 where turn: "race_from env pre n err i (e # es) w =
      race_from env pre n (taps_error ESTABLISHMENT_ERROR ESTABLISHMENT_FAILED (refusal env i e)) (Suc i) es
        \<lparr>w_heap = h2, w_trace = w_trace w @ (if es = [] then [Connecting e, Aborted e] else lost [e])\<rparr>"
      "h_grants h2 = []" "h_out h2 = h_out (w_heap w)"
      using race_turn_lost [OF _ Cons.prems(4)] by metis
    have "k' < length es" "connects env (Suc i + k') (es ! k')" "\<forall>j<k'. \<not> connects env (Suc i + j) (es ! j)"
      using Cons.prems(1-3) Suc by auto
    note ih = Cons.IH [OF this, of "\<lparr>w_heap = h2, w_trace = w_trace w @ lost [e]\<rparr>"]
    have "es \<noteq> []" using \<open>k' < length es\<close> by auto
    then show ?thesis using ih turn by (auto simp: Suc lost_def)
  qed
qed simp

lemma race_lost:
  assumes "es \<noteq> []" and "\<forall>j<length es. \<not> connects env (i + j) (es ! j)" and "h_grants (w_heap w) = []"
  shows "\<exists>h1. race_from env pre n err i es w =
      failed (taps_error ESTABLISHMENT_ERROR ESTABLISHMENT_FAILED (''All '' @ to_string n @
        '' connection attempts failed: '' @ refusal env (i + length es - 1) (last es))) pre
        \<lparr>w_heap = h1, w_trace = w_trace w @ butlast (lost es)\<rparr> \<and> h_out h1 = h_out (w_heap w)"
  using assms
proof (induction es arbitrary: i w err)
  case (Cons e es)
  have "\<not> connects env i e" using Cons.prems(2) by force
  then obtain h2 where turn: "race_from env pre n err i (e # es) w =
      race_from env pre n (taps_error ESTABLISHMENT_ERROR ESTABLISHMENT_FAILED (refusal env i e)) (Suc i) es
        \<lparr>w_heap = h2, w_trace = w_trace w @ (if es = [] then [Connecting e, Aborted e] else lost [e])\<rparr>"
    "h_grants h2 = []" "h_out h2 = h_out (w_heap w)"
    using race_turn_lost [OF _ Cons.prems(3)] by metis
  show ?case
  proof (cases "es = []")
    case True
    then show ?thesis using turn by (auto simp: lost_def)
  next
    case False
    have "\<forall>j<length es. \<not> connects env (Suc i + j) (es ! j)" using Cons.prems(2) by auto
    note ih = Cons.IH [OF False this, of "\<lparr>w_heap = h2, w_trace = w_trace w @ lost [e]\<rparr>"]
    have "lost es \<noteq> []" using False by (cases es) (simp_all add: lost_def)
    then have "butlast (lost (e # es)) = lost [e] @ butlast (lost es)" by (simp add: lost_def butlast_append)
    then show ?thesis using ih turn False by auto
  qed
qed simp

text \<open>
  C5. Racing the addresses. They are tried in the order of the list, one at a time; each attempt that
  fails is aborted, and the next one starts after a pause of 250 ms. The first address that connects is
  established, and no later one is tried. If none connects, the error names the number of attempts and the
  last failure, and there is no pause after the last one. The message memory of failed attempts is given
  back.
\<close>

theorem race_in_order:
  assumes "endpoints \<noteq> []" and "h_grants (w_heap w) = []"
  shows "(\<forall>k<length endpoints. connects env k (endpoints ! k) \<longrightarrow> (\<forall>j<k. \<not> connects env j (endpoints ! j)) \<longrightarrow>
      (\<exists>p h1. race_connections env endpoints pre w =
         establish_connection env k (endpoints ! k)
           (snd (connect_done (ev_connect env k (endpoints ! k)) (make_tcp p))) pre
           \<lparr>w_heap = h1, w_trace = w_trace w @ lost (take k endpoints) @ [Connecting (endpoints ! k)]\<rparr> \<and>
         h_out h1 = pool_units p + h_out (w_heap w))) \<and>
    ((\<forall>k<length endpoints. \<not> connects env k (endpoints ! k)) \<longrightarrow>
      (\<exists>h1. race_connections env endpoints pre w =
         failed (taps_error ESTABLISHMENT_ERROR ESTABLISHMENT_FAILED (''All '' @ to_string (length endpoints) @
           '' connection attempts failed: '' @ refusal env (length endpoints - 1) (last endpoints))) pre
           \<lparr>w_heap = h1, w_trace = w_trace w @ butlast (lost endpoints)\<rparr> \<and>
         h_out h1 = h_out (w_heap w)))"
  using race_won [OF _ _ _ assms(2), where i = 0] race_lost [OF assms(1) _ assms(2), where i = 0] assms(1)
  by (simp add: race_connections_def)


text \<open>An outside for concrete runs: one name with two addresses, of which the second one answers.\<close>

definition demo_session :: ssl_session where
  "demo_session =
    \<lparr>ss_set_sni = True, ss_set_verify = None, ss_handshake = None, ss_alpn = Some ''h2'', ss_version = None,
     ss_cipher = None, ss_group = None\<rparr>"

definition demo_env :: environment where
  "demo_env =
    \<lparr>ev_with_tls = True,
     ev_resolver = (\<lambda>host port. if host = ''example.org'' then Some [(Resolved ''2001:db8::1'', 443), (Resolved ''192.0.2.1'', 443)]
                                else None),
     ev_connect = (\<lambda>i e. if fst e = Resolved ''192.0.2.1'' then Inr ((''192.0.2.1'', 443), Inr (''198.51.100.1'', 50000))
                          else Inl ''unreachable''),
     ev_ssl = quiet_ssl, ev_session = (\<lambda>_. demo_session), ev_udp_open = (\<lambda>_. None), ev_udp_bind = (\<lambda>_. None),
     ev_udp_local = (\<lambda>_. (Any_IPv4, 50000)), ev_bad_alloc = ''std::bad_alloc''\<rparr>"

definition demo_security :: security_parameters where
  "demo_security = add_alpn ''h2'' (add_trust_anchor ''ca.pem'' (require_tls default_security))"

definition demo_preconnection :: preconnection where
  "demo_preconnection =
    add_remote_endpoint (make_endpoint ''example.net'' 443)
      (make_preconnection default_endpoint (make_endpoint ''example.org'' 443)
        (set_property RELIABILITY REQUIRE (\<lambda>_. None)) demo_security default_memory_config)"

definition demo_world :: world where
  "demo_world = \<lparr>w_heap = empty_heap (\<lambda>_. 0) [], w_trace = []\<rparr>"

theorem race_in_order_witness:
  "\<exists>p h1. race_connections demo_env [(Resolved ''2001:db8::1'', 443), (Resolved ''192.0.2.1'', 443)] demo_preconnection demo_world =
     establish_connection demo_env 1 (Resolved ''192.0.2.1'', 443)
       (snd (connect_done (ev_connect demo_env 1 (Resolved ''192.0.2.1'', 443)) (make_tcp p))) demo_preconnection
       \<lparr>w_heap = h1, w_trace = [Connecting (Resolved ''2001:db8::1'', 443), Aborted (Resolved ''2001:db8::1'', 443), Pausing 250,
                              Connecting (Resolved ''192.0.2.1'', 443)]\<rparr>"
proof -
  let ?es = "[(Resolved ''2001:db8::1'', 443), (Resolved ''192.0.2.1'', 443)] :: inet_endpoint list"
  have c: "connects demo_env 1 (?es ! 1)" "\<forall>j<1. \<not> connects demo_env j (?es ! j)"
    by (simp_all add: connects_def demo_env_def)
  have "?es \<noteq> []" "h_grants (w_heap demo_world) = []" by (simp_all add: demo_world_def empty_heap_def)
  note r = conjunct1 [OF race_in_order [OF this, of demo_env demo_preconnection]]
  have "(1::nat) < length ?es" by simp
  from r [rule_format, OF this c(1)] c(2)
  show ?thesis by (auto simp: lost_def demo_world_def)
qed

section \<open>Security\<close>

text \<open>
  A connection that has what the security parameters ask for: a TLS stream after a successful handshake,
  whose context verifies the peer against the trust anchors, in the version range, and checks the
  certificate against the given name, if there is one; and a required ALPN identifier was negotiated.
\<close>

definition secured_as :: "security_parameters \<Rightarrow> string \<Rightarrow> connection \<Rightarrow> bool" where
  "secured_as sec name conn \<longleftrightarrow>
    (\<exists>c st. conn = TCP_Connection c \<and> tc_state c = ESTABLISHED \<and> tc_stream c = TlsStream st \<and>
      ss_handshake (ts_session st) = None \<and> cx_verify_peer (ts_context st) \<and>
      cx_anchors (ts_context st) = sp_trust_anchors sec \<and> sp_trust_anchors sec \<noteq> [] \<and>
      cx_min_version (ts_context st) = openssl_version (sp_min_tls_version sec) \<and>
      cx_max_version (ts_context st) = openssl_version (sp_max_tls_version sec) \<and>
      ts_verify_host st = (if name = [] then None else Some name) \<and>
      (sp_alpn sec \<noteq> [] \<longrightarrow> negotiated_alpn st \<in> set (sp_alpn sec)))"

definition peer_name :: "preconnection \<Rightarrow> string" where
  "peer_name pre =
    (if sp_server_name (pr_security pre) = [] then ep_hostname (pr_remotes pre ! 0)
     else sp_server_name (pr_security pre))"

text \<open>The provider kept from an earlier \<open>initiate()\<close>, if any, was created from these parameters.\<close>

definition provider_ok :: "environment \<Rightarrow> preconnection \<Rightarrow> bool" where
  "provider_ok env pre \<longleftrightarrow>
    (\<forall>p. pr_provider pre = Some p \<longrightarrow> create_provider (ev_ssl env) (pr_security pre) Client = Inr p)"

text \<open>Every TCP connection that is returned has been through \<open>establish_connection\<close>, freshly connected.\<close>

lemma attempt_connected:
  assumes "attempt env i e pre w = (Some (Inr u, c), w1)"
  shows "tc_state c = ESTABLISHED" and "tc_stream c = PlainStream"
  using assms
  by (auto simp: attempt_def connect_done_def make_tcp_def Let_def split: prod.splits option.splits sum.splits)

lemma race_establishes:
  assumes "race_from env pre n err i es w = (Returned (Inr conn), pre', w')"
  obtains j e c w1 where "establish_connection env j e c pre w1 = (Returned (Inr conn), pre', w')"
    and "tc_state c = ESTABLISHED" and "tc_stream c = PlainStream"
  using assms
proof (induction es arbitrary: i err w thesis)
  case (Cons e es)
  show ?case
  proof (cases "attempt env i e pre w")
    case (Pair a w1)
    show ?thesis
    proof (cases a)
      case (Some rc)
      obtain r c where rc: "rc = (r, c)" by fastforce
      show ?thesis
      proof (cases r)
        case (Inl x)
        have "race_from env pre n x (Suc i) es (if es \<noteq> [] then acted (Pausing 250) (discard e c w1) else discard e c w1) =
          (Returned (Inr conn), pre', w')"
          using Cons.prems(2) Pair Some rc Inl by (simp add: Let_def)
        with Cons.prems(1) show ?thesis by (rule Cons.IH)
      next
        case (Inr u)
        show ?thesis
          using Cons.prems(2) attempt_connected [of env i e pre w u c w1] Pair Some rc Inr
          by (intro Cons.prems(1)) simp_all
      qed
    qed (use Cons.prems(2) Pair in simp)
  qed
qed (simp add: failed_def)

lemma initiate_establishes:
  assumes "initiate env pre w = (Returned (Inr conn), pre', w')"
    and "requires_reliable_transport (pr_properties pre)"
  obtains j e c w1 where "establish_connection env j e c pre w1 = (Returned (Inr conn), pre', w')"
    and "tc_state c = ESTABLISHED" and "tc_stream c = PlainStream"
proof (cases "length (pr_remotes pre) = 1")
  case True
  then have "initiate_with_single_endpoint env pre w = (Returned (Inr conn), pre', w')"
    using assms by (simp add: initiate_def)
  then obtain e u c w1 where "attempt env 0 e pre w = (Some (Inr u, c), w1)"
    "establish_connection env 0 e c pre w1 = (Returned (Inr conn), pre', w')"
    by (auto simp: initiate_with_single_endpoint_def failed_def
        split: list.splits prod.splits option.splits sum.splits)
  then show ?thesis using attempt_connected that by metis
next
  case False
  then obtain n err es where "race_from env pre n err 0 es w = (Returned (Inr conn), pre', w')"
    using assms by (auto simp: initiate_def happy_eyeballs_racing_def race_connections_def failed_def Let_def split: if_splits)
  then show ?thesis using race_establishes that by metis
qed

lemma establish_secures:
  assumes run: "establish_connection env i e c pre w = (Returned (Inr conn), pre', w')"
    and enabled: "is_enabled (pr_security pre)" and prov: "provider_ok env pre" and "tc_state c = ESTABLISHED"
  shows "ev_with_tls env" and "secured_as (pr_security pre) (peer_name pre) conn" and "provider_ok env pre'"
proof -
  show tls: "ev_with_tls env"
    using run enabled by (auto simp: establish_connection_def failed_def Let_def split: if_splits)
  obtain p where p: "(case pr_provider pre of Some p \<Rightarrow> Inr p | None \<Rightarrow> create_provider (ev_ssl env) (pr_security pre) Client) = Inr p"
    using run enabled tls
    by (auto simp: establish_connection_def failed_def Let_def split: sum.splits option.splits)
  then have created: "create_provider (ev_ssl env) (pr_security pre) Client = Inr p"
    using prov by (auto simp: provider_ok_def split: option.splits)
  note cc = create_client [OF created]
  obtain st where st: "secure p (ev_session env i) (peer_name pre) = Inr st"
    "conn = TCP_Connection (c\<lparr>tc_stream := TlsStream st\<rparr>)" "pre' = pre\<lparr>pr_provider := Some p\<rparr>"
    using run enabled tls p
    by (auto simp: establish_connection_def failed_def apply_security_done_def peer_name_def Let_def
        split: sum.splits)
  have "tp_role p = Client" using cc by blast
  note s = secure_client [OF st(1) this]
  show "secured_as (pr_security pre) (peer_name pre) conn"
    unfolding secured_as_def st(2) using s cc assms(4) by auto
  show "provider_ok env pre'" using created by (simp add: provider_ok_def st(3))
qed

text \<open>
  C2. Requested security is never silently dropped. If the parameters ask for security, \<open>initiate()\<close>
  returns a connection only in a build with TLS and over TCP, and the connection is secured as asked: peer
  verified against the trust anchors and the peer's name, versions in the range, a required ALPN
  identifier negotiated. The name is the configured one, or else that of the first remote endpoint,
  whichever endpoint answered. Without such parameters the stream is not secured.
\<close>

theorem security_never_dropped:
  assumes "initiate env pre w = (Returned (Inr conn), pre', w')" and "provider_ok env pre"
  shows "provider_ok env pre' \<and>
    (if is_enabled (pr_security pre)
     then ev_with_tls env \<and> requires_reliable_transport (pr_properties pre) \<and>
       secured_as (pr_security pre) (peer_name pre) conn
     else (case conn of TCP_Connection c \<Rightarrow> tc_stream c = PlainStream | UDP_Connection _ \<Rightarrow> True))"
proof (cases "requires_reliable_transport (pr_properties pre)")
  case True
  obtain j e c w1 where est: "establish_connection env j e c pre w1 = (Returned (Inr conn), pre', w')"
    and c: "tc_state c = ESTABLISHED" "tc_stream c = PlainStream"
    using initiate_establishes [OF assms(1) True] by metis
  show ?thesis
  proof (cases "is_enabled (pr_security pre)")
    case enabled: True
    then show ?thesis using establish_secures [OF est enabled assms(2) c(1)] True by simp
  next
    case False
    then show ?thesis using est c assms(2) by (auto simp: establish_connection_def)
  qed
next
  case False
  have udp: "pre' = pre \<and> (\<exists>c. conn = UDP_Connection c)"
    if "udp_candidates env pre rs w = (Returned (Inr conn), pre', w')" for rs
    using that by (induction rs) (auto simp: failed_def split: list.splits prod.splits option.splits sum.splits)
  have "\<not> is_enabled (pr_security pre)" "udp_candidates env pre (pr_remotes pre) w = (Returned (Inr conn), pre', w')"
    using assms(1) False by (auto simp: initiate_def initiate_udp_def failed_def split: if_splits)
  then show ?thesis using udp [of "pr_remotes pre"] assms(2) by auto
qed

lemmas demo_defs =
  demo_env_def demo_preconnection_def demo_security_def demo_session_def demo_world_def quiet_ssl_def
  make_preconnection_def add_remote_endpoint_def make_endpoint_def default_endpoint_def default_security_def
  require_tls_def add_trust_anchor_def add_alpn_def default_memory_config_def

lemma demo_preconnection_sel:
  "pr_security demo_preconnection = demo_security" "pr_provider demo_preconnection = None"
  "pr_memory demo_preconnection = default_memory_config" "peer_name demo_preconnection = ''example.org''"
  "requires_reliable_transport (pr_properties demo_preconnection)"
  "pr_remotes demo_preconnection = [make_endpoint ''example.org'' 443, make_endpoint ''example.net'' 443]"
  "is_enabled demo_security" "sp_server_name demo_security = []"
  by (simp_all add: demo_defs peer_name_def requires_reliable_transport_def get_property_def set_property_def
      is_enabled_def)

lemma demo_provider: "\<exists>p. create_provider quiet_ssl demo_security Client = Inr p \<and> tp_role p = Client \<and>
    tp_required_alpn p = [''h2'']"
  by (simp add: provider_defs demo_defs alpn_wire_def)

lemma demo_secure:
  "tp_role p = Client \<Longrightarrow> tp_required_alpn p = [''h2''] \<Longrightarrow> \<exists>st. secure p demo_session name = Inr st"
  by (simp add: secure_def handshake_client_def make_tls_stream_def demo_session_def negotiated_alpn_def Let_def)

theorem security_never_dropped_witness:
  "\<exists>conn pre' w'. initiate demo_env demo_preconnection demo_world = (Returned (Inr conn), pre', w') \<and>
     secured_as demo_security ''example.org'' conn"
proof -
  let ?out = "initiate demo_env demo_preconnection demo_world"
  let ?es = "[(Resolved ''2001:db8::1'', 443), (Resolved ''192.0.2.1'', 443)] :: inet_endpoint list"
  have "?out = race_connections demo_env ?es demo_preconnection demo_world"
    by (simp add: initiate_def demo_preconnection_sel happy_eyeballs_racing_def resolve_remote_def make_endpoint_def
        demo_env_def Let_def)
  moreover obtain p h1 where "race_connections demo_env ?es demo_preconnection demo_world =
      establish_connection demo_env 1 (?es ! 1) (snd (connect_done (ev_connect demo_env 1 (?es ! 1)) (make_tcp p)))
        demo_preconnection h1"
  proof -
    have "\<forall>j<1. \<not> connects demo_env (0 + j) (?es ! j)" "connects demo_env (0 + 1) (?es ! 1)"
      "h_grants (w_heap demo_world) = []"
      by (simp_all add: connects_def demo_env_def demo_world_def empty_heap_def)
    with that show thesis
      using race_won [of 1 ?es demo_env 0 demo_world demo_preconnection] unfolding race_connections_def by force
  qed
  moreover obtain q st where "create_provider quiet_ssl demo_security Client = Inr q"
    "secure q demo_session ''example.org'' = Inr st"
    using demo_provider demo_secure by blast
  ultimately obtain conn pre' w' where run: "?out = (Returned (Inr conn), pre', w')"
    by (auto simp: establish_connection_def demo_preconnection_sel make_endpoint_def apply_security_done_def demo_env_def Let_def)
  have "provider_ok demo_env demo_preconnection" by (simp add: provider_ok_def demo_preconnection_sel)
  from security_never_dropped [OF run this] run show ?thesis by (auto simp: demo_preconnection_sel)
qed

end
