(* ===== verification/Listeners.thy ===== *)
theory Listeners
  imports Establish Tcp_Stream
begin

text \<open>
  Listening (src/TCPListener.cpp, src/secure_acceptor.h, the class \<open>UDPListener\<close> of src/UDPListener.cpp) and
  the entry point of the library (class \<open>TransportServices\<close>, src/TransportServices.cpp).

  The system's acceptor is outside: what binding, accepting and closing answer are arguments, and so is what
  the channel of established connections yields. The coroutines of a \<open>SecureAcceptor\<close> interact through that
  channel and the acceptor only; each turn of them is one definition.
\<close>

section \<open>Accepting with security\<close>

text \<open>An accepted socket is known by its two endpoints, which may be unreadable.\<close>

type_synonym accepted_socket = "socket_address option \<times> socket_address option"

datatype accept_answer = Accepted accepted_socket | Accept_Failed error_code

record secure_acceptor =
  sa_provider :: tls_provider
  sa_memory :: memory_config
  sa_local :: inet_endpoint
  sa_accepting :: bool

definition make_secure_acceptor :: "inet_endpoint \<Rightarrow> tls_provider \<Rightarrow> memory_config \<Rightarrow> secure_acceptor" where
  "make_secure_acceptor local p memory =
    \<lparr>sa_provider = p, sa_memory = memory, sa_local = local, sa_accepting = False\<rparr>"

definition sa_start :: "secure_acceptor \<Rightarrow> secure_acceptor" where
  "sa_start a = a\<lparr>sa_accepting := True\<rparr>"

text \<open>One turn of \<open>accept_loop()\<close>: it ends, goes on, reports an error to the channel, or starts a handshake.\<close>

datatype accept_step = Accept_Ends | Accept_Goes_On | Accept_Reports error_code | Accept_Secures accepted_socket

definition accept_turn :: "accept_answer \<Rightarrow> accept_step" where
  "accept_turn answer =
    (case answer of
       Accept_Failed ec \<Rightarrow>
         if ec_value ec = EC_operation_aborted then Accept_Ends
         else if ec_value ec = EC_connection_aborted then Accept_Goes_On
         else Accept_Reports ec
     | Accepted s \<Rightarrow> Accept_Secures s)"

text \<open>
  \<open>secure(socket)\<close>: the connection it sends to the channel, or none, when the handshake fails or the
  connection cannot be created (the exception ends this coroutine only).
\<close>

definition sa_secure ::
  "secure_acceptor \<Rightarrow> ssl_session \<Rightarrow> accepted_socket \<Rightarrow> heap \<Rightarrow> tcp_conn option \<times> heap" where
  "sa_secure a session s h =
    (case make_pool (sa_memory a) h of
       (None, h1) \<Rightarrow> (None, h1)
     | (Some p, h1) \<Rightarrow>
         (case apply_security_done (secure (sa_provider a) session []) (make_accepted p (fst s) (snd s)) of
            (Inl _, c) \<Rightarrow> (None, destroy_pool p h1)
          | (Inr _, c) \<Rightarrow> (Some c, h1)))"

text \<open>\<open>accept()\<close>, with what the channel yields: an error, or a connection sent by \<open>secure\<close>.\<close>

definition sa_accept :: "error_code + tcp_conn \<Rightarrow> connection result" where
  "sa_accept got =
    (case got of
       Inl ec \<Rightarrow>
         if ec_value ec = EC_channel_closed \<or> ec_value ec = EC_channel_cancelled
         then Inl (taps_error ESTABLISHMENT_ERROR INVALID_STATE ''Listener stopped'')
         else Inl (io_error ESTABLISHMENT_ERROR ec)
     | Inr c \<Rightarrow> Inr (TCP_Connection c))"

definition sa_stop :: "secure_acceptor \<Rightarrow> secure_acceptor" where
  "sa_stop a = a\<lparr>sa_accepting := False\<rparr>"

section \<open>TCP listeners\<close>

record tcp_listener =
  tl_local :: endpoint
  tl_properties :: transport_properties
  tl_security :: security_parameters
  tl_memory :: memory_config
  tl_listening :: bool
  tl_acceptor :: "inet_endpoint option"
  tl_secure :: "secure_acceptor option"

definition make_tcp_listener ::
  "endpoint \<Rightarrow> transport_properties \<Rightarrow> security_parameters \<Rightarrow> memory_config \<Rightarrow> tcp_listener" where
  "make_tcp_listener local props security memory =
    \<lparr>tl_local = local, tl_properties = props, tl_security = security, tl_memory = memory,
     tl_listening = False, tl_acceptor = None, tl_secure = None\<rparr>"

text \<open>
  An attempt to open, bind and listen at one address: it succeeds, or fails and the acceptor is closed
  again, or even that fails. The loop stops at the first address that succeeds; \<open>Bound_Unclosable\<close> is a success
  after which a close of the acceptor will fail.
\<close>

datatype bind_outcome = Bound | Bound_Unclosable error_code | Not_Bound error_code | Close_Failed error_code

datatype bind_result = Bind_Ok inet_endpoint "error_code option" | Bind_None error_code | Bind_Throws error_code

fun bind_first :: "(inet_endpoint \<Rightarrow> bind_outcome) \<Rightarrow> error_code \<Rightarrow> inet_endpoint list \<Rightarrow> bind_result" where
  "bind_first bind last_ec [] = Bind_None last_ec"
| "bind_first bind last_ec (e # es) =
    (case bind e of
       Bound \<Rightarrow> Bind_Ok e None
     | Bound_Unclosable ec \<Rightarrow> Bind_Ok e (Some ec)
     | Not_Bound ec \<Rightarrow> bind_first bind ec es
     | Close_Failed ec \<Rightarrow> Bind_Throws ec)"

definition no_error :: error_code where
  "no_error = \<lparr>ec_value = EC_other 0, ec_message = ''Success''\<rparr>"

text \<open>
  A security configuration that cannot be fulfilled: the acceptor is closed again and the error reported, or,
  when closing throws, the error of that.
\<close>

definition reject_security :: "error_code option \<Rightarrow> TAPSError \<Rightarrow> TAPSError" where
  "reject_security close_ec err =
    (case close_ec of None \<Rightarrow> err | Some ec \<Rightarrow> io_error ESTABLISHMENT_ERROR ec)"

definition tcp_listen ::
  "bool \<Rightarrow> resolver \<Rightarrow> (inet_endpoint \<Rightarrow> bind_outcome) \<Rightarrow> ssl_library \<Rightarrow> tcp_listener \<Rightarrow> unit result \<times> tcp_listener" where
  "tcp_listen with_tls rs bind ssl l =
    (if tl_listening l
     then (Inl (taps_error ESTABLISHMENT_ERROR INVALID_STATE ''Already listening''), l)
     else
       (let endpoints = resolve_local rs (tl_local l)
        in if endpoints = []
           then (Inl (taps_error ESTABLISHMENT_ERROR RESOLUTION_FAILED ''Failed to resolve local endpoint''), l)
           else
             (case bind_first bind no_error endpoints of
                Bind_Throws ec \<Rightarrow> (Inl (io_error ESTABLISHMENT_ERROR ec), l)
              | Bind_None ec \<Rightarrow>
                  (Inl (taps_error ESTABLISHMENT_ERROR (reason_from ec)
                         (''Failed to bind to any endpoint: '' @ ec_message ec)), l)
              | Bind_Ok e close_ec \<Rightarrow>
                  if \<not> is_enabled (tl_security l)
                  then (Inr (), l\<lparr>tl_acceptor := Some e, tl_listening := True\<rparr>)
                  else if \<not> with_tls
                  then (Inl (reject_security close_ec (taps_error ESTABLISHMENT_ERROR NO_CANDIDATES
                         ''SecurityParameters request TLS but this build has TAPS_WITH_TLS=OFF'')), l)
                  else
                    (case create_provider ssl (tl_security l) Server of
                       Inl err \<Rightarrow> (Inl (reject_security close_ec err), l)
                     | Inr p \<Rightarrow>
                         (Inr (), l\<lparr>tl_secure := Some (sa_start (make_secure_acceptor e p (tl_memory l))),
                                    tl_listening := True\<rparr>)))))"

text \<open>
  \<open>accept()\<close> without security, over the answers of the acceptor: \<open>None\<close> while it waits. \<open>Thrown\<close> is an
  exception of the constructor of the connection.
\<close>

fun plain_accept :: "memory_config \<Rightarrow> accept_answer list \<Rightarrow> heap \<Rightarrow> (connection result outcome_of \<times> heap) option" where
  "plain_accept memory [] h = None"
| "plain_accept memory (Accept_Failed ec # answers) h =
    (if ec_value ec = EC_connection_aborted then plain_accept memory answers h
     else if ec_value ec = EC_operation_aborted
     then Some (Returned (Inl (taps_error ESTABLISHMENT_ERROR INVALID_STATE ''Listener stopped'')), h)
     else Some (Returned (Inl (io_error ESTABLISHMENT_ERROR ec)), h))"
| "plain_accept memory (Accepted s # answers) h =
    (case make_pool memory h of
       (None, h1) \<Rightarrow> Some (Thrown, h1)
     | (Some p, h1) \<Rightarrow> Some (Returned (Inr (TCP_Connection (make_accepted p (fst s) (snd s)))), h1))"

definition tcp_accept ::
  "accept_answer list \<Rightarrow> (error_code + tcp_conn) option \<Rightarrow> tcp_listener \<Rightarrow> heap
    \<Rightarrow> (connection result outcome_of \<times> heap) option" where
  "tcp_accept answers channel l h =
    (if \<not> tl_listening l
     then Some (Returned (Inl (taps_error ESTABLISHMENT_ERROR INVALID_STATE ''Not listening'')), h)
     else if tl_secure l \<noteq> None then map_option (\<lambda>got. (Returned (sa_accept got), h)) channel
     else plain_accept (tl_memory l) answers h)"

definition tcp_stop :: "error_code option \<Rightarrow> tcp_listener \<Rightarrow> unit result \<times> tcp_listener" where
  "tcp_stop close_ec l =
    (if \<not> tl_listening l then (Inr (), l)
     else
       (case tl_secure l of
          Some a \<Rightarrow> (Inr (), l\<lparr>tl_secure := Some (sa_stop a), tl_listening := False\<rparr>)
        | None \<Rightarrow>
            (case close_ec of
               Some ec \<Rightarrow> (Inl (taps_error ESTABLISHMENT_ERROR INTERNAL_ERROR (ec_message ec)), l)
             | None \<Rightarrow> (Inr (), l\<lparr>tl_acceptor := None, tl_listening := False\<rparr>))))"

definition tcp_listener_destroy :: "tcp_listener \<Rightarrow> secure_acceptor option" where
  "tcp_listener_destroy l = map_option sa_stop (tl_secure l)"

text \<open>The endpoint a closed acceptor reports is the default one.\<close>

definition secure_local_endpoint :: "secure_acceptor \<Rightarrow> inet_endpoint" where
  "secure_local_endpoint a = (if sa_accepting a then sa_local a else (Any_IPv4, 0))"

definition tcp_local_endpoint :: "(inet_address \<Rightarrow> string) \<Rightarrow> bool \<Rightarrow> tcp_listener \<Rightarrow> socket_address" where
  "tcp_local_endpoint text readable l =
    (case tl_secure l of
       Some a \<Rightarrow> shown_endpoint text (secure_local_endpoint a)
     | None \<Rightarrow>
         (case tl_acceptor l of
            Some e \<Rightarrow> if readable then shown_endpoint text e else (ep_hostname (tl_local l), ep_port (tl_local l))
          | None \<Rightarrow> (ep_hostname (tl_local l), ep_port (tl_local l))))"

section \<open>UDP listeners\<close>

record udp_listener =
  ul_local :: endpoint
  ul_properties :: transport_properties
  ul_security :: security_parameters
  ul_listening :: bool
  ul_pool :: pool
  ul_demux :: "(inet_endpoint, chain) demux"

definition make_udp_listener ::
  "endpoint \<Rightarrow> transport_properties \<Rightarrow> security_parameters \<Rightarrow> pool \<Rightarrow> udp_listener" where
  "make_udp_listener local props security p =
    \<lparr>ul_local = local, ul_properties = props, ul_security = security, ul_listening = False, ul_pool = p,
     ul_demux = make_demux\<rparr>"

text \<open>
  \<open>start\<close> opens the socket first, which fails if it is open already; otherwise the argument says which
  error, if any, opening and binding it meets.
\<close>

definition udp_listen ::
  "resolver \<Rightarrow> (inet_endpoint \<Rightarrow> error_code option) \<Rightarrow> udp_listener \<Rightarrow> unit result \<times> udp_listener" where
  "udp_listen rs bind l =
    (if is_enabled (ul_security l)
     then (Inl (taps_error ESTABLISHMENT_ERROR NO_CANDIDATES
             ''security was requested, but no available protocol secures an unreliable transport''), l)
     else
       (case resolve_local rs (ul_local l) of
          [] \<Rightarrow> (Inl (taps_error ESTABLISHMENT_ERROR RESOLUTION_FAILED ''Failed to resolve local endpoint''), l)
        | e # _ \<Rightarrow>
            (case demux_start (if dx_open (ul_demux l) then Some already_open else bind e) (ul_demux l) of
               (Inl err, dx) \<Rightarrow> (Inl err, l\<lparr>ul_demux := dx\<rparr>)
             | (Inr _, dx) \<Rightarrow> (Inr (), l\<lparr>ul_demux := dx, ul_listening := True\<rparr>))))"

definition udp_accept :: "nat option \<Rightarrow> udp_listener \<Rightarrow> nat result \<times> udp_listener" where
  "udp_accept got l =
    (if \<not> ul_listening l
     then (Inl (taps_error ESTABLISHMENT_ERROR INVALID_STATE ''Not listening''), l)
     else (case demux_accept got (ul_demux l) of (r, dx) \<Rightarrow> (r, l\<lparr>ul_demux := dx\<rparr>)))"

definition udp_stop :: "udp_listener \<Rightarrow> udp_listener" where
  "udp_stop l =
    (if ul_listening l then l\<lparr>ul_listening := False, ul_demux := stop_accepting (ul_demux l)\<rparr> else l)"

definition udp_listener_destroy :: "udp_listener \<Rightarrow> (inet_endpoint, chain) demux" where
  "udp_listener_destroy l = (if ul_listening l then stop_accepting (ul_demux l) else ul_demux l)"

section \<open>TransportServices\<close>

record pool_options =
  po_max_blocks_per_chunk :: nat
  po_largest_required_pool_block :: nat

definition message_pool_options :: pool_options where
  "message_pool_options = \<lparr>po_max_blocks_per_chunk = 16, po_largest_required_pool_block = 64 * 1024\<rparr>"

definition make_services :: "memory_config \<Rightarrow> memory_config" where
  "make_services memory =
    (case cfg_resource memory of
       None \<Rightarrow> memory\<lparr>cfg_resource := Some default_message_resource\<rparr>
     | Some _ \<Rightarrow> memory)"

definition preconnect ::
  "memory_config \<Rightarrow> endpoint \<Rightarrow> endpoint \<Rightarrow> transport_properties \<Rightarrow> security_parameters \<Rightarrow> preconnection" where
  "preconnect services local remote props security = make_preconnection local remote props security services"

datatype listener = TCP_Listener tcp_listener | UDP_Listener udp_listener

text \<open>\<open>listen()\<close>; an exception of the constructor of the UDP listener is caught.\<close>

definition services_listen ::
  "bool \<Rightarrow> resolver \<Rightarrow> (inet_endpoint \<Rightarrow> bind_outcome) \<Rightarrow> (inet_endpoint \<Rightarrow> error_code option) \<Rightarrow> ssl_library \<Rightarrow> string
    \<Rightarrow> endpoint \<Rightarrow> transport_properties \<Rightarrow> security_parameters \<Rightarrow> memory_config \<times> heap \<Rightarrow> listener result \<times> heap" where
  "services_listen with_tls rs tcp_bind udp_bind ssl bad_alloc local props security s =
    (case s of (services, h) \<Rightarrow>
      if requires_reliable_transport props
      then
        (case tcp_listen with_tls rs tcp_bind ssl (make_tcp_listener local props security services) of
           (Inl err, _) \<Rightarrow> (Inl err, h)
         | (Inr _, l) \<Rightarrow> (Inr (TCP_Listener l), h))
      else
        (case make_pool services h of
           (None, h1) \<Rightarrow> (Inl (taps_error ESTABLISHMENT_ERROR INTERNAL_ERROR bad_alloc), h1)
         | (Some p, h1) \<Rightarrow>
             (case udp_listen rs udp_bind (make_udp_listener local props security p) of
                (Inl err, _) \<Rightarrow> (Inl err, destroy_pool p h1)
              | (Inr _, l) \<Rightarrow> (Inr (UDP_Listener l), h1))))"

section \<open>What listening guarantees\<close>

lemma secured_by_server:
  assumes "sa_secure a session s h = (Some c, h')" and "tp_role (sa_provider a) = Server"
  shows "tc_state c = ESTABLISHED"
    and "\<exists>st. tc_stream c = TlsStream st \<and> ts_context st = tp_context (sa_provider a) \<and>
      ss_handshake (ts_session st) = None"
  using assms
  by (auto simp: sa_secure_def apply_security_done_def secure_def handshake_server_def make_tls_stream_def
      make_accepted_def Let_def split: prod.splits option.splits sum.splits)

text \<open>
  C7. A listener that was asked for security never delivers an unsecured connection. \<open>listen()\<close> then
  succeeds only over TCP, in a build with TLS, with a provider that has the configured certificate and key;
  the listener accepts through it only, and a connection that it delivers has completed a TLS handshake as
  a server with that configuration. A socket whose handshake fails is not delivered.
\<close>

theorem listener_secures:
  assumes "services_listen with_tls rs tcp_bind udp_bind ssl what local props security s = (Inr l, h1)"
    and "is_enabled security"
  shows "with_tls \<and> requires_reliable_transport props \<and>
    (\<exists>tl a. l = TCP_Listener tl \<and> tl_secure tl = Some a \<and> tl_listening tl \<and> tl_acceptor tl = None \<and>
      cx_chain_file (tp_context (sa_provider a)) = sp_certificate_chain_file security \<and>
      sp_certificate_chain_file security \<noteq> [] \<and>
      cx_key_file (tp_context (sa_provider a)) = sp_private_key_file security \<and> sp_private_key_file security \<noteq> [] \<and>
      (\<forall>answers channel h. tcp_accept answers channel tl h = map_option (\<lambda>got. (Returned (sa_accept got), h)) channel) \<and>
      (\<forall>session socket h. case fst (sa_secure a session socket h) of
         None \<Rightarrow> True
       | Some c \<Rightarrow> tc_state c = ESTABLISHED \<and>
           (\<exists>st. tc_stream c = TlsStream st \<and> ts_context st = tp_context (sa_provider a) \<and>
              ss_handshake (ts_session st) = None)) \<and>
      (\<forall>session socket h. ss_handshake session \<noteq> None \<longrightarrow> fst (sa_secure a session socket h) = None))"
proof -
  have reliable: "requires_reliable_transport props"
    using assms by (auto simp: services_listen_def udp_listen_def make_udp_listener_def
        split: if_splits prod.splits option.splits)
  obtain tl where tl: "l = TCP_Listener tl"
    "tcp_listen with_tls rs tcp_bind ssl (make_tcp_listener local props security (fst s)) = (Inr (), tl)"
    using assms reliable by (auto simp: services_listen_def split: prod.splits sum.splits)
  obtain e p where p: "with_tls" "create_provider ssl security Server = Inr p"
    "tl = (make_tcp_listener local props security (fst s))
       \<lparr>tl_secure := Some (sa_start (make_secure_acceptor e p (fst s))), tl_listening := True\<rparr>"
    using tl(2) assms(2)
    by (auto simp: tcp_listen_def make_tcp_listener_def Let_def split: if_splits bind_result.splits sum.splits)
  define a where "a = sa_start (make_secure_acceptor e p (fst s))"
  have a: "sa_provider a = p" by (simp add: a_def sa_start_def make_secure_acceptor_def)
  note c = create_server [OF p(2)]
  have t: "tl_secure tl = Some a" "tl_listening tl" "tl_acceptor tl = None"
    by (simp_all add: p(3) a_def make_tcp_listener_def)
  have "case fst (sa_secure a session socket h) of None \<Rightarrow> True
       | Some c \<Rightarrow> tc_state c = ESTABLISHED \<and>
           (\<exists>st. tc_stream c = TlsStream st \<and> ts_context st = tp_context (sa_provider a) \<and>
              ss_handshake (ts_session st) = None)" for session socket h
    using secured_by_server [of a session socket h] c a
    by (cases "sa_secure a session socket h") (auto split: option.split)
  moreover have "fst (sa_secure a session socket h) = None" if "ss_handshake session \<noteq> None" for session socket h
    using that a c
    by (auto simp: sa_secure_def apply_security_done_def secure_def handshake_server_def make_tls_stream_def Let_def
        split: prod.splits option.splits)
  moreover have "tcp_accept answers channel tl h = map_option (\<lambda>got. (Returned (sa_accept got), h)) channel"
    for answers channel h
    by (simp add: tcp_accept_def t)
  ultimately show ?thesis using p(1) reliable tl(1) t c a by auto
qed


definition demo_server_security :: security_parameters where
  "demo_server_security =
    set_private_key_file ''key.pem'' (set_certificate_chain_file ''cert.pem'' (require_tls default_security))"

theorem listener_secures_witness:
  "\<exists>tl. services_listen True (\<lambda>_ _. None) (\<lambda>_. Bound) (\<lambda>_. None) quiet_ssl ''std::bad_alloc'' (make_endpoint [] 443)
       (set_property RELIABILITY REQUIRE (\<lambda>_. None)) demo_server_security (default_memory_config, empty_heap (\<lambda>_. 0) [])
       = (Inr (TCP_Listener tl), empty_heap (\<lambda>_. 0) []) \<and> tl_secure tl \<noteq> None"
proof -
  let ?h = "empty_heap (\<lambda>_. 0) []" and ?props = "set_property RELIABILITY REQUIRE (\<lambda>_. None)"
  obtain tl where run: "services_listen True (\<lambda>_ _. None) (\<lambda>_. Bound) (\<lambda>_. None) quiet_ssl ''std::bad_alloc''
      (make_endpoint [] 443) ?props demo_server_security (default_memory_config, ?h) = (Inr (TCP_Listener tl), ?h)"
    by (simp add: services_listen_def tcp_listen_def make_tcp_listener_def resolve_local_def make_endpoint_def
        requires_reliable_transport_def get_property_def set_property_def demo_server_security_def quiet_ssl_def
        provider_defs default_security_def require_tls_def set_certificate_chain_file_def set_private_key_file_def
        is_enabled_def)
  have "is_enabled demo_server_security"
    by (simp add: demo_server_security_def set_certificate_chain_file_def set_private_key_file_def is_enabled_def
        require_tls_def)
  from listener_secures [OF run this] run show ?thesis by auto
qed

text \<open>
  A second \<open>listen()\<close>. A TCP listener refuses it and is unchanged. A UDP listener that is listening
  tries to open its socket again: it reports the failure, and closes the socket that it was listening on,
  with all its connections; it still counts as listening, so that \<open>accept()\<close> is not refused.
\<close>

lemma second_listen:
  assumes "tl_listening listener" and "ul_listening ul" and "dx_open (ul_demux ul)" and "\<not> is_enabled (ul_security ul)"
    and "resolve_local rs (ul_local ul) \<noteq> []"
  shows "tcp_listen with_tls rs tcp_bind ssl listener =
      (Inl (taps_error ESTABLISHMENT_ERROR INVALID_STATE ''Already listening''), listener) \<and>
    (\<exists>ul'. udp_listen rs udp_bind ul = (Inl (io_error ESTABLISHMENT_ERROR already_open), ul') \<and>
      \<not> dx_open (ul_demux ul') \<and> ul_listening ul' \<and> dx_lru (ul_demux ul') = dx_lru (ul_demux ul) \<and>
      (\<forall>got. fst (udp_accept got ul') = fst (demux_accept got (ul_demux ul'))))"
proof -
  obtain e es where "resolve_local rs (ul_local ul) = e # es" using assms(5) by (cases "resolve_local rs (ul_local ul)") auto
  then show ?thesis
    using assms(1-4) by (simp add: tcp_listen_def udp_listen_def demux_start_def close_socket_def udp_accept_def split: prod.split)
qed

end
