(* ===== verification/Udp_Server.thy ===== *)
theory Udp_Server
  imports Udp_Conn Establish
begin

text \<open>
  The UDP server as a whole: the receive loop, the table of sources, the mailboxes, the connections and the
  messages that the application holds, over the block memory. A datagram has one owner at a time, so it is
  destroyed where it leaves the structure that owns it without being moved on. From this follow two facts of
  the composition: no memory is lost or used after it was freed, and memory stays bounded under a flood of
  datagrams from ever new sources.
\<close>

section \<open>Who holds a mailbox\<close>

text \<open>
  A mailbox exists as long as an entry of the table or a connection refers to it, and every mailbox has the
  capacity it was created with.
\<close>

definition referred :: "('e, 'd) demux \<Rightarrow> nat set" where
  "referred dx = en_mailbox ` snd ` set (dx_lru dx) \<union> pc_mailbox ` snd ` set (dx_conns dx)"

definition sized :: "'d mailbox \<Rightarrow> bool" where
  "sized mb \<longleftrightarrow> mb_ok mb \<and> mb_capacity mb = default_mailbox_capacity"

definition boxes_ok :: "nat set \<Rightarrow> (nat \<Rightarrow> 'd mailbox option) \<Rightarrow> bool" where
  "boxes_ok A m \<longleftrightarrow> (\<forall>a mb. m a = Some mb \<longrightarrow> a \<in> A \<and> sized mb)"

lemma boxes_okI: "(\<And>a mb. m a = Some mb \<Longrightarrow> a \<in> A \<and> sized mb) \<Longrightarrow> boxes_ok A m"
  by (simp add: boxes_ok_def)

lemma boxes_ok_upd: "boxes_ok A m \<Longrightarrow> a \<in> A \<Longrightarrow> sized mb \<Longrightarrow> boxes_ok A (m(a \<mapsto> mb))"
  by (simp add: boxes_ok_def)

lemma boxes_ok_mono: "boxes_ok A m \<Longrightarrow> A \<subseteq> B \<Longrightarrow> boxes_ok B m"
  by (auto simp: boxes_ok_def)

lemma boxes_ok_sized: "boxes_ok A m \<Longrightarrow> m a = Some mb \<Longrightarrow> sized mb"
  by (auto simp: boxes_ok_def)

lemma sized_close [simp]: "sized (mb_close cause mb) = sized mb"
  by (simp add: sized_def mb_close_def)

lemma sized_make [simp]: "sized (make_mailbox default_mailbox_capacity)"
  by (simp add: sized_def default_mailbox_capacity_def)

lemma sized_deliver: "sized mb \<Longrightarrow> deliver granted d mb = (fin, gone, mb') \<Longrightarrow> sized mb'"
  using deliver_correct(1,2) [of mb granted d fin gone mb'] by (simp add: sized_def)

lemma boxes_ok_drop:
  assumes "boxes_ok (insert a (referred dx)) (dx_mailboxes dx)"
  shows "boxes_ok (referred (drop_mailbox a dx)) (dx_mailboxes (drop_mailbox a dx))"
proof (cases "a \<in> referred dx")
  case True
  then have "drop_mailbox a dx = dx" by (auto simp: drop_mailbox_def referred_def)
  then show ?thesis using assms True by (simp add: insert_absorb)
next
  case False
  then have "drop_mailbox a dx = dx\<lparr>dx_mailboxes := (dx_mailboxes dx)(a := None)\<rparr>"
    by (auto simp: drop_mailbox_def referred_def)
  then show ?thesis using assms by (auto simp: boxes_ok_def referred_def)
qed

lemma referred_simps [simp]:
  "referred (dx\<lparr>dx_mailboxes := m\<rparr>) = referred dx" "referred (dx\<lparr>dx_posted := ts\<rparr>) = referred dx"
  "referred (dx\<lparr>dx_index := ix\<rparr>) = referred dx" "referred (dx\<lparr>dx_next := n\<rparr>) = referred dx"
  "referred (dx\<lparr>dx_fault := b\<rparr>) = referred dx" "referred (dx\<lparr>dx_loop := st\<rparr>) = referred dx"
  "referred (dx\<lparr>dx_accepting := b\<rparr>) = referred dx" "referred (shut_down_if_unused dx) = referred dx"
  by (simp_all add: referred_def)

definition owned :: "('e, 'd) demux \<Rightarrow> bool" where
  "owned dx \<longleftrightarrow> boxes_ok (referred dx) (dx_mailboxes dx)"

lemma owned_evict:
  assumes inv: "demux_inv dx" and ok: "owned dx" and it: "(it, en) \<in> set (dx_lru dx)"
  shows "owned (evict it cause dx)"
proof -
  let ?dx = "dx\<lparr>dx_mailboxes := close_mailbox cause (en_mailbox en) (dx_mailboxes dx),
               dx_index := filter (\<lambda>p. fst p \<noteq> en_source en) (dx_index dx),
               dx_lru := filter (\<lambda>p. fst p \<noteq> it) (dx_lru dx)\<rparr>"
  have ev: "evict it cause dx = drop_mailbox (en_mailbox en) ?dx"
    using lru_find(1) [OF inv it] by (simp add: evict_def)
  have "referred dx \<subseteq> insert (en_mailbox en) (referred ?dx)"
  proof -
    have "p = (it, en)" if "p \<in> set (dx_lru dx)" "fst p = it" for p
      using lru_same [OF inv it that(1)] that(2) by blast
    then show ?thesis by (force simp: referred_def)
  qed
  then have "boxes_ok (insert (en_mailbox en) (referred ?dx)) (dx_mailboxes ?dx)"
    using ok by (auto simp: owned_def boxes_ok_def close_mailbox_def split: if_splits)
  then show ?thesis unfolding ev owned_def by (rule boxes_ok_drop)
qed

lemma owned_deliver:
  assumes "owned dx"
  shows "owned (deliver_to granted d a dx)"
proof (cases "dx_mailboxes dx a")
  case None
  then show ?thesis using assms by (simp add: deliver_to_def owned_def)
next
  case (Some mb)
  then have a: "a \<in> referred dx" "sized mb" using assms by (auto simp: owned_def boxes_ok_def)
  obtain fin gone mb' where run: "deliver granted d mb = (fin, gone, mb')" using prod_cases3 by blast
  have "boxes_ok (referred dx) ((dx_mailboxes dx)(a \<mapsto> mb'))"
    using boxes_ok_upd [OF assms [unfolded owned_def] a(1) sized_deliver [OF a(2) run]] .
  then show ?thesis
    using assms Some run by (simp add: deliver_to_def owned_def split: bool.split)
qed

lemma owned_make_room:
  assumes "demux_inv dx" and "owned dx"
  shows "owned (make_room limit dx)"
  using owned_evict [OF assms, of "fst (last (dx_lru dx))" "snd (last (dx_lru dx))"] assms(2)
  by (simp add: make_room_def)

lemma owned_datagram:
  assumes inv: "demux_inv dx" and ok: "owned dx"
  shows "owned (on_datagram limit now a sent granted sender d dx)"
proof (cases "index_find sender dx")
  case (Some it)
  then obtain en where en: "(it, en) \<in> set (dx_lru dx)" using index_find_lru [OF inv] by blast
  let ?dx = "dx\<lparr>dx_lru := (it, en\<lparr>en_last_active := now\<rparr>) # filter (\<lambda>p. fst p \<noteq> it) (dx_lru dx)\<rparr>"
  have "p = (it, en)" if "p \<in> set (dx_lru dx)" "fst p = it" for p
    using lru_same [OF inv en that(1)] that(2) by blast
  then have "referred dx \<subseteq> referred ?dx" by (force simp: referred_def)
  then have "owned ?dx" using ok by (simp add: owned_def boxes_ok_mono)
  then show ?thesis
    using lru_find(1) [OF inv en] Some by (simp add: on_datagram_def owned_deliver)
next
  case None
  let ?dx1 = "make_room limit dx"
  have 1: "owned ?dx1" using inv ok by (rule owned_make_room)
  have "owned (?dx1\<lparr>dx_mailboxes := (dx_mailboxes ?dx1)(a \<mapsto> make_mailbox default_mailbox_capacity),
      dx_lru := (it, \<lparr>en_source = sender, en_mailbox = a, en_last_active = now\<rparr>) # dx_lru ?dx1,
      dx_index := ix, dx_next := n, dx_conns := cs @ dx_conns ?dx1\<rparr>)" for it ix n cs
  proof -
    let ?dx2 = "?dx1\<lparr>dx_lru := (it, \<lparr>en_source = sender, en_mailbox = a, en_last_active = now\<rparr>) # dx_lru ?dx1,
      dx_conns := cs @ dx_conns ?dx1\<rparr>"
    have "referred ?dx1 \<subseteq> referred ?dx2" "a \<in> referred ?dx2" by (auto simp: referred_def)
    then have "boxes_ok (referred ?dx2) ((dx_mailboxes ?dx1)(a \<mapsto> make_mailbox default_mailbox_capacity))"
      using 1 unfolding owned_def by (intro boxes_ok_upd) (auto intro: boxes_ok_mono)
    then show ?thesis by (simp add: owned_def referred_def)
  qed
  note this [where cs = "[]"] and this [where cs = "[x]" for x]
  then show ?thesis
    using None ok by (auto simp: on_datagram_def Let_def owned_def intro!: owned_deliver [unfolded owned_def])
qed

lemma owned_sweep_evict:
  assumes "demux_inv dx" and "owned dx"
  shows "owned (sweep_evict cutoff dx)"
  using assms
proof (induction cutoff dx rule: sweep_evict.induct)
  case (1 cutoff dx)
  show ?case
  proof (cases "dx_lru dx \<noteq> [] \<and> en_last_active (snd (last (dx_lru dx))) < cutoff")
    case True
    then have l: "(fst (last (dx_lru dx)), snd (last (dx_lru dx))) \<in> set (dx_lru dx)" by simp
    show ?thesis
      using 1(1) [OF True] evict_correct(1) [OF 1(2) l] owned_evict [OF 1(2,3) l] True
      by (simp add: sweep_evict.simps [of cutoff dx])
  next
    case False
    then have "sweep_evict cutoff dx = dx" by (subst sweep_evict.simps) (simp only: if_False)
    then show ?thesis using 1(3) by simp
  qed
qed

lemma owned_shut_down [simp]: "owned (shut_down_if_unused dx) = owned dx"
  by (simp add: owned_def)

lemma owned_update [simp]:
  "owned (dx\<lparr>dx_posted := ts\<rparr>) = owned dx" "owned (dx\<lparr>dx_accepting := b\<rparr>) = owned dx"
  "owned (dx\<lparr>dx_loop := st\<rparr>) = owned dx"
  by (simp_all add: owned_def)

lemma demux_inv_update [simp]:
  "demux_inv (dx\<lparr>dx_posted := ts\<rparr>) = demux_inv dx" "demux_inv (dx\<lparr>dx_loop := st\<rparr>) = demux_inv dx"
  by (simp_all add: demux_inv_def)

lemma owned_task:
  assumes inv: "demux_inv dx" and ok: "owned dx"
  shows "owned (exec_task t dx)"
proof (cases t)
  case (Release source a)
  show ?thesis
  proof (cases "index_find source dx")
    case (Some it)
    then obtain en where en: "(it, en) \<in> set (dx_lru dx)" using index_find_lru [OF inv] by blast
    then show ?thesis using lru_find(1) [OF inv en] Some ok owned_evict [OF inv ok en] Release by simp
  qed (simp add: Release ok)
qed (simp add: ok)

lemma referred_upd_conn:
  assumes "\<And>pc. pc_mailbox (f pc) = pc_mailbox pc"
  shows "referred (upd_conn c f dx) = referred dx" and "dx_mailboxes (upd_conn c f dx) = dx_mailboxes dx"
proof -
  have "map (pc_mailbox \<circ> snd) (dx_conns (upd_conn c f dx)) = map (pc_mailbox \<circ> snd) (dx_conns dx)"
    using assms by (simp add: upd_conn_def)
  then have "set (map (pc_mailbox \<circ> snd) (dx_conns (upd_conn c f dx))) = set (map (pc_mailbox \<circ> snd) (dx_conns dx))"
    by (rule arg_cong)
  then have "pc_mailbox ` snd ` set (dx_conns (upd_conn c f dx)) = pc_mailbox ` snd ` set (dx_conns dx)"
    by (simp only: set_map image_comp)
  moreover have "dx_lru (upd_conn c f dx) = dx_lru dx" by (simp add: upd_conn_def)
  ultimately show "referred (upd_conn c f dx) = referred dx" by (simp only: referred_def)
  show "dx_mailboxes (upd_conn c f dx) = dx_mailboxes dx" by (simp add: upd_conn_def)
qed

lemma owned_upd_conn: "(\<And>pc. pc_mailbox (f pc) = pc_mailbox pc) \<Longrightarrow> owned (upd_conn c f dx) = owned dx"
  by (simp add: owned_def referred_upd_conn)

lemma owned_release: "owned (passive_release c dx) = owned dx"
  by (simp add: passive_release_def demux_release_def owned_upd_conn split: option.split)

lemma owned_close: "owned (passive_close c dx) = owned dx" "owned (passive_abort c dx) = owned dx"
  by (simp_all add: passive_abort_def passive_close_def owned_release owned_upd_conn)

lemma dx_conns_release:
  assumes "map_of (dx_conns dx) c = Some pc" and "distinct (map fst (dx_conns dx))"
    and "p \<in> set (dx_conns (passive_release c dx))" and "fst p = c"
  shows "pc_mailbox (snd p) = pc_mailbox pc"
proof -
  have "q = pc" if "(c, q) \<in> set (dx_conns dx)" for q
    using that assms(1,2) by (metis map_of_is_SomeI option.inject)
  then show ?thesis
    using assms(1,3,4)
    by (cases p) (auto simp: passive_release_def demux_release_def upd_conn_def split: if_splits)
qed

lemma owned_destroy:
  assumes inv: "demux_inv dx" and ok: "owned dx"
  shows "owned (passive_destroy c dx)"
proof (cases "map_of (dx_conns dx) c")
  case (Some pc)
  let ?dx1 = "passive_release c dx"
  let ?dx2 = "?dx1\<lparr>dx_conns := filter (\<lambda>p. fst p \<noteq> c) (dx_conns ?dx1)\<rparr>"
  have d: "distinct (map fst (dx_conns dx))" using inv by (simp add: demux_inv_def)
  have "referred ?dx1 \<subseteq> insert (pc_mailbox pc) (referred ?dx2)"
    using dx_conns_release [OF Some d] by (force simp: referred_def)
  then have "boxes_ok (insert (pc_mailbox pc) (referred ?dx2)) (dx_mailboxes ?dx2)"
    using ok owned_release [of c dx] by (auto simp: owned_def intro: boxes_ok_mono)
  then have "owned (drop_mailbox (pc_mailbox pc) ?dx2)" unfolding owned_def by (rule boxes_ok_drop)
  then show ?thesis using Some by (simp add: passive_destroy_def Let_def)
qed (simp add: passive_destroy_def ok)

lemma sized_look: "sized mb \<Longrightarrow> receive_look r mb = (res, mb') \<Longrightarrow> sized mb'"
  using try_pop_correct(1,2) [of mb]
  by (auto simp: sized_def receive_look_def mb_wait_def split: prod.splits option.splits if_splits)

lemma owned_receive:
  assumes "owned dx"
  shows "owned (snd (passive_receive r c dx))"
proof (cases "\<exists>pc mb. map_of (dx_conns dx) c = Some pc \<and> dx_mailboxes dx (pc_mailbox pc) = Some mb")
  case True
  then obtain pc mb where c: "map_of (dx_conns dx) c = Some pc" "dx_mailboxes dx (pc_mailbox pc) = Some mb"
    by blast
  obtain res mb' where look: "receive_look r mb = (res, mb')" by fastforce
  have a: "pc_mailbox pc \<in> referred dx" "sized mb" using assms c(2) by (auto simp: owned_def boxes_ok_def)
  have "owned (dx\<lparr>dx_mailboxes := (dx_mailboxes dx)(pc_mailbox pc \<mapsto> mb')\<rparr>)"
    using boxes_ok_upd [OF assms [unfolded owned_def] a(1) sized_look [OF a(2) look]] by (simp add: owned_def)
  then show ?thesis
    using c look by (simp add: passive_receive_def Let_def owned_upd_conn split: look.split)
next
  case False
  then show ?thesis
    using assms by (auto simp: passive_receive_def owned_def split: option.split)
qed

lemma owned_coroutines: "coroutines_only dx dx' \<Longrightarrow> owned dx \<Longrightarrow> owned dx'"
  by (simp add: coroutines_only_fields owned_def referred_def)

lemma owned_step:
  assumes "demux_step limit idle_secs s s'" and "table_ok limit s" and "owned (snd s)"
  shows "owned (snd s')"
  using assms(1)
proof (cases rule: demux_step.cases)
  case (dstep_loop dx dx' t)
  then show ?thesis using assms(3) owned_coroutines [OF loop_step_only] by simp
next
  case (dstep_event dx dx' t)
  then show ?thesis using assms(3) owned_coroutines [OF event_step_only] by simp
next
  case (dstep_datagram t now dx a sent granted sender d)
  have "owned (dx\<lparr>dx_loop := Read_Next\<rparr>)" using assms(3) dstep_datagram(1) by (simp add: owned_def)
  then show ?thesis using assms(2) dstep_datagram owned_datagram [of "dx\<lparr>dx_loop := Read_Next\<rparr>"] by (simp add: table_ok_def)
next
  case (dstep_sweep t now dx)
  then show ?thesis using assms(2,3) owned_sweep_evict [of dx] by (simp add: table_ok_def sweep_def owned_def referred_def)
next
  case (dstep_task dx t)
  then obtain task ts where ts: "dx_posted dx = task # ts" by (cases "dx_posted dx") auto
  have "owned (exec_task task (dx\<lparr>dx_posted := ts\<rparr>))"
    using assms(2,3) dstep_task by (intro owned_task) (simp_all add: table_ok_def)
  then show ?thesis using dstep_task ts by (simp add: run_task_def)
next
  case (dstep_stop t dx)
  then show ?thesis using assms(3) by (simp add: stop_accepting_def)
next
  case (dstep_accept t dx got)
  then show ?thesis using assms(3) by (simp add: demux_accept_def owned_upd_conn split: option.split)
next
  case (dstep_close t dx c)
  then show ?thesis using assms(3) by (simp add: owned_close)
next
  case (dstep_abort t dx c)
  then show ?thesis using assms(3) by (simp add: owned_close)
next
  case (dstep_destroy t dx c)
  then show ?thesis using assms(2,3) owned_destroy [of dx] by (simp add: table_ok_def)
next
  case (dstep_receive dx c t r)
  then show ?thesis using assms(3) owned_receive [of dx] by simp
qed

lemma owned_reachable:
  assumes "demux_reachable limit idle_secs s" and "1 \<le> limit"
  shows "owned (snd s)"
  using assms(1)
proof (induction rule: demux_reachable.induct)
  case (dreach_init t)
  then show ?case by (simp add: owned_def boxes_ok_def demux_start_def make_demux_def)
next
  case (dreach_step s s')
  then show ?case using owned_step table_ok_reachable [OF dreach_step(1) assms(2)] by blast
qed

section \<open>The datagrams that are queued\<close>

definition box_queue :: "'d mailbox option \<Rightarrow> 'd multiset" where
  "box_queue b = (case b of None \<Rightarrow> {#} | Some mb \<Rightarrow> mset (mb_queue mb))"

definition queued_in :: "(nat \<Rightarrow> 'd mailbox option) \<Rightarrow> 'd multiset" where
  "queued_in m = (\<Sum>a\<in>dom m. box_queue (m a))"

definition queued :: "('e, 'd) demux \<Rightarrow> 'd multiset" where
  "queued dx = queued_in (dx_mailboxes dx)"

lemma box_queue_simps [simp]: "box_queue None = {#}" "box_queue (Some mb) = mset (mb_queue mb)"
  by (simp_all add: box_queue_def)

lemma box_queue_close [simp]: "box_queue (map_option (mb_close cause) x) = box_queue x"
  by (cases x) (simp_all add: mb_close_def)

lemma queued_in_split:
  assumes "finite (dom m)"
  shows "queued_in m = box_queue (m a) + queued_in (m(a := None))"
proof -
  have "queued_in (m(a := None)) = (\<Sum>b\<in>dom m - {a}. box_queue (m b))"
    by (auto simp: queued_in_def dom_def intro!: sum.cong)
  moreover have "queued_in m = box_queue (m a) + (\<Sum>b\<in>dom m - {a}. box_queue (m b))"
  proof (cases "m a")
    case None
    then have "dom m - {a} = dom m" by auto
    then show ?thesis using None by (simp add: queued_in_def)
  next
    case (Some y)
    then have "a \<in> dom m" by auto
    then show ?thesis using assms by (simp add: queued_in_def sum.remove)
  qed
  ultimately show ?thesis by simp
qed

lemma queued_in_upd:
  assumes "finite (dom m)"
  shows "queued_in (m(a := x)) = box_queue x + queued_in (m(a := None))"
  using queued_in_split [of "m(a := x)" a] assms by simp

lemma queued_in_same: "finite (dom m) \<Longrightarrow> box_queue x = box_queue (m a) \<Longrightarrow> queued_in (m(a := x)) = queued_in m"
  using queued_in_upd queued_in_split by metis

lemma finite_referred: "finite (referred dx)"
  by (simp add: referred_def)

lemma owned_finite: "owned dx \<Longrightarrow> finite (dom (dx_mailboxes dx))"
  by (rule finite_subset [OF _ finite_referred [of dx]]) (auto simp: owned_def boxes_ok_def)

lemma queued_simps [simp]:
  "queued (dx\<lparr>dx_posted := ts\<rparr>) = queued dx" "queued (dx\<lparr>dx_accepting := b\<rparr>) = queued dx"
  "queued (dx\<lparr>dx_loop := st\<rparr>) = queued dx" "queued (dx\<lparr>dx_lru := l\<rparr>) = queued dx"
  "queued (dx\<lparr>dx_conns := cs\<rparr>) = queued dx" "queued (dx\<lparr>dx_fault := b\<rparr>) = queued dx"
  "queued (upd_conn c f dx) = queued dx" "queued (shut_down_if_unused dx) = queued dx"
  by (simp_all add: queued_def upd_conn_def)

lemma queued_drop_mailbox:
  "finite (dom (dx_mailboxes dx)) \<Longrightarrow> queued (drop_mailbox a dx) \<subseteq># queued dx"
  using queued_in_split [of "dx_mailboxes dx" a] by (simp add: drop_mailbox_def queued_def)

lemma queued_evict:
  assumes "owned dx"
  shows "queued (evict it cause dx) \<subseteq># queued dx"
proof (cases "map_of (dx_lru dx) it")
  case (Some e)
  let ?dx = "dx\<lparr>dx_mailboxes := close_mailbox cause (en_mailbox e) (dx_mailboxes dx),
               dx_index := filter (\<lambda>p. fst p \<noteq> en_source e) (dx_index dx),
               dx_lru := filter (\<lambda>p. fst p \<noteq> it) (dx_lru dx)\<rparr>"
  have fin: "finite (dom (dx_mailboxes dx))" using assms by (rule owned_finite)
  have "dom (dx_mailboxes ?dx) \<subseteq> dom (dx_mailboxes dx)" by (auto simp: close_mailbox_def split: if_splits)
  then have "finite (dom (dx_mailboxes ?dx))" using fin by (rule finite_subset)
  then have "queued (drop_mailbox (en_mailbox e) ?dx) \<subseteq># queued ?dx" by (rule queued_drop_mailbox)
  also have "queued ?dx = queued dx"
    using fin by (auto simp: queued_def close_mailbox_def intro!: queued_in_same split: option.split)
  finally show ?thesis using Some by (simp add: evict_def)
qed (simp add: evict_def)

lemma mset_tl: "mset (tl xs) \<subseteq># mset xs"
  by (cases xs) simp_all

lemma deliver_queue:
  assumes "mb_ok mb" and "deliver granted d mb = (fin, gone, mb')"
  shows "mset (mb_queue mb') \<subseteq># add_mset d (mset (mb_queue mb))"
proof (cases "fin \<and> \<not> mb_closed mb")
  case True
  then have "mb_queue mb' = tl (mb_queue mb) @ [d] \<or> mb_queue mb' = mb_queue mb @ [d]"
    using deliver_correct(7) [OF assms] by (auto split: if_splits)
  then show ?thesis using mset_tl [of "mb_queue mb"] by auto
next
  case False
  then have "mb' = mb" using deliver_correct(5,6) [OF assms] by blast
  then show ?thesis by simp
qed

lemma queued_deliver:
  assumes "owned dx"
  shows "queued (deliver_to granted d a dx) \<subseteq># add_mset d (queued dx)"
proof (cases "dx_mailboxes dx a")
  case (Some mb)
  obtain fin gone mb' where run: "deliver granted d mb = (fin, gone, mb')" using prod_cases3 by blast
  have "mb_ok mb" using assms Some by (auto simp: owned_def boxes_ok_def sized_def)
  note q = deliver_queue [OF this run]
  note s = queued_in_split [OF owned_finite [OF assms], of a] and u = queued_in_upd [OF owned_finite [OF assms], of a "Some mb'"]
  show ?thesis
    using q s u Some run by (cases fin) (simp_all add: deliver_to_def queued_def)
qed (simp add: deliver_to_def)

lemma queued_make_room: "owned dx \<Longrightarrow> queued (make_room limit dx) \<subseteq># queued dx"
  by (simp add: make_room_def queued_evict)

lemma queued_datagram:
  assumes inv: "demux_inv dx" and ok: "owned dx" and fresh: "dx_mailboxes (make_room limit dx) a = None"
  shows "queued (on_datagram limit now a sent granted sender d dx) \<subseteq># add_mset d (queued dx)"
proof (cases "index_find sender dx")
  case (Some it)
  then obtain en where en: "(it, en) \<in> set (dx_lru dx)" using index_find_lru [OF inv] by blast
  let ?dx = "dx\<lparr>dx_lru := (it, en\<lparr>en_last_active := now\<rparr>) # filter (\<lambda>p. fst p \<noteq> it) (dx_lru dx)\<rparr>"
  have "p = (it, en)" if "p \<in> set (dx_lru dx)" "fst p = it" for p
    using lru_same [OF inv en that(1)] that(2) by blast
  then have "referred dx \<subseteq> referred ?dx" by (force simp: referred_def)
  then have "owned ?dx" using ok by (simp add: owned_def boxes_ok_mono)
  from queued_deliver [OF this, of granted d "en_mailbox en"]
  show ?thesis using lru_find(1) [OF inv en] Some by (simp add: on_datagram_def)
next
  case None
  let ?dx1 = "make_room limit dx" and ?new = "make_mailbox default_mailbox_capacity"
  have 1: "owned ?dx1" using inv ok by (rule owned_make_room)
  have "queued_in ((dx_mailboxes ?dx1)(a \<mapsto> ?new)) = queued_in (dx_mailboxes ?dx1)"
    using owned_finite [OF 1] fresh by (intro queued_in_same) simp_all
  then have q: "queued_in ((dx_mailboxes ?dx1)(a \<mapsto> ?new)) \<subseteq># queued dx"
    using queued_make_room [OF ok, of limit] by (simp add: queued_def)
  let ?dx2 = "\<lambda>it ix cs. ?dx1\<lparr>dx_mailboxes := (dx_mailboxes ?dx1)(a \<mapsto> ?new),
      dx_lru := (it, \<lparr>en_source = sender, en_mailbox = a, en_last_active = now\<rparr>) # dx_lru ?dx1,
      dx_index := ix, dx_next := Suc it, dx_conns := cs\<rparr>"
  have "owned (?dx2 it ix (c # dx_conns ?dx1))" for it ix c
  proof -
    let ?d = "?dx2 it ix (c # dx_conns ?dx1)"
    have "referred ?dx1 \<subseteq> referred ?d" "a \<in> referred ?d" by (auto simp: referred_def)
    then have "boxes_ok (referred ?d) ((dx_mailboxes ?dx1)(a \<mapsto> ?new))"
      using 1 unfolding owned_def by (intro boxes_ok_upd) (auto intro: boxes_ok_mono)
    then show ?thesis by (simp add: owned_def)
  qed
  note del = queued_deliver [OF this, of granted d a]
  have q2: "queued (?dx2 it ix cs) \<subseteq># queued dx" for it ix cs
    using q by (simp add: queued_def)
  have "queued (deliver_to granted d a (?dx2 it ix (c # dx_conns ?dx1))) \<subseteq># add_mset d (queued dx)" for it ix c
    by (rule subset_mset.order_trans [OF del]) (simp only: mset_subset_eq_add_mset_cancel q2)
  moreover have "queued (?dx2 it ix cs) \<subseteq># add_mset d (queued dx)" for it ix cs
    by (rule subset_mset.order_trans [OF q2]) simp
  ultimately show ?thesis
    using None by (simp add: on_datagram_def Let_def queued_def)
qed

lemma queued_sweep_evict:
  assumes "demux_inv dx" and "owned dx"
  shows "queued (sweep_evict cutoff dx) \<subseteq># queued dx"
  using assms
proof (induction cutoff dx rule: sweep_evict.induct)
  case (1 cutoff dx)
  show ?case
  proof (cases "dx_lru dx \<noteq> [] \<and> en_last_active (snd (last (dx_lru dx))) < cutoff")
    case True
    then have l: "(fst (last (dx_lru dx)), snd (last (dx_lru dx))) \<in> set (dx_lru dx)" by simp
    have "queued (sweep_evict cutoff (evict (fst (last (dx_lru dx))) idle dx)) \<subseteq># queued dx"
      using 1(1) [OF True] evict_correct(1) [OF 1(2) l] owned_evict [OF 1(2,3) l] queued_evict [OF 1(3)]
        subset_mset.order_trans by blast
    then show ?thesis using True by (simp add: sweep_evict.simps [of cutoff dx])
  next
    case False
    then have "sweep_evict cutoff dx = dx" by (subst sweep_evict.simps) (simp only: if_False)
    then show ?thesis by simp
  qed
qed

lemma queued_task: "owned dx \<Longrightarrow> queued (exec_task t dx) \<subseteq># queued dx"
  by (cases t) (auto simp: queued_evict split: option.split)

lemma queued_release [simp]: "queued (passive_release c dx) = queued dx"
  by (simp add: passive_release_def demux_release_def split: option.split)

lemma queued_close [simp]: "queued (passive_close c dx) = queued dx" "queued (passive_abort c dx) = queued dx"
  by (simp_all add: passive_abort_def passive_close_def)

lemma queued_destroy:
  assumes "owned dx"
  shows "queued (passive_destroy c dx) \<subseteq># queued dx"
proof (cases "map_of (dx_conns dx) c")
  case (Some pc)
  let ?dx = "(passive_release c dx)\<lparr>dx_conns := filter (\<lambda>p. fst p \<noteq> c) (dx_conns (passive_release c dx))\<rparr>"
  have "dx_mailboxes ?dx = dx_mailboxes dx"
    by (simp add: passive_release_def demux_release_def upd_conn_def split: option.split)
  then have "queued (drop_mailbox (pc_mailbox pc) ?dx) \<subseteq># queued ?dx"
    using owned_finite [OF assms] by (intro queued_drop_mailbox) simp
  then show ?thesis using Some by (simp add: passive_destroy_def Let_def)
qed (simp add: passive_destroy_def)

lemma look_queue:
  assumes "mb_ok mb" and "receive_look r mb = (res, mb')"
  shows "case res of Got d \<Rightarrow> mb_queue mb = d # mb_queue mb' | _ \<Rightarrow> mb_queue mb' = mb_queue mb"
proof (cases "mb_queue mb = []")
  case True
  then show ?thesis
    using try_pop_correct(4) [OF assms(1)] assms(2)
    by (auto simp: receive_look_def mb_wait_def mb_queue_def split: if_splits)
next
  case False
  then show ?thesis
    using try_pop_correct(5) [OF assms(1)] assms(2)
    by (auto simp: receive_look_def split: prod.splits option.splits)
qed

text \<open>A receive takes the datagram it returns out of the mailbox and nothing else.\<close>

lemma queued_receive:
  assumes "owned dx" and "passive_receive r c dx = (res, dx')"
  shows "case res of Some (Inr d) \<Rightarrow> queued dx = add_mset d (queued dx') | _ \<Rightarrow> queued dx' = queued dx"
proof (cases "\<exists>pc mb. map_of (dx_conns dx) c = Some pc \<and> dx_mailboxes dx (pc_mailbox pc) = Some mb")
  case True
  then obtain pc mb where c: "map_of (dx_conns dx) c = Some pc" "dx_mailboxes dx (pc_mailbox pc) = Some mb"
    by blast
  obtain lo mb' where look: "receive_look r mb = (lo, mb')" by fastforce
  have "mb_ok mb" using assms(1) c(2) by (auto simp: owned_def boxes_ok_def sized_def)
  note q = look_queue [OF this look]
  note s = queued_in_split [OF owned_finite [OF assms(1)], of "pc_mailbox pc"]
    and u = queued_in_upd [OF owned_finite [OF assms(1)], of "pc_mailbox pc" "Some mb'"]
  show ?thesis
    using q s u c look assms(2)
    by (cases lo) (auto simp: passive_receive_def Let_def queued_def upd_conn_def)
next
  case False
  then show ?thesis using assms(2) by (auto simp: passive_receive_def split: option.splits)
qed

lemma sized_queue: "sized mb \<Longrightarrow> length (mb_queue mb) \<le> default_mailbox_capacity"
  by (auto simp: sized_def mb_ok_def)

text \<open>
  Every mailbox belongs to an entry or a connection, and none holds more than its capacity, so there is a bound
  for all of them.
\<close>

lemma card_mailboxes:
  assumes "owned dx"
  shows "card (dom (dx_mailboxes dx)) \<le> length (dx_lru dx) + length (dx_conns dx)"
proof -
  have "referred dx = set (map (en_mailbox \<circ> snd) (dx_lru dx) @ map (pc_mailbox \<circ> snd) (dx_conns dx))"
    by (simp add: referred_def image_comp)
  then have "card (referred dx) \<le> length (dx_lru dx) + length (dx_conns dx)"
    using card_length [of "map (en_mailbox \<circ> snd) (dx_lru dx) @ map (pc_mailbox \<circ> snd) (dx_conns dx)"] by simp
  moreover have "card (dom (dx_mailboxes dx)) \<le> card (referred dx)"
    using assms by (intro card_mono finite_referred) (auto simp: owned_def boxes_ok_def)
  ultimately show ?thesis by simp
qed

lemma owned_queue:
  assumes "owned dx" and "dx_mailboxes dx a = Some mb"
  shows "length (mb_queue mb) \<le> default_mailbox_capacity"
  using assms boxes_ok_sized sized_queue unfolding owned_def by fastforce

lemma size_queued:
  assumes "owned dx"
  shows "size (queued dx) \<le> (length (dx_lru dx) + length (dx_conns dx)) * default_mailbox_capacity"
proof -
  let ?m = "dx_mailboxes dx"
  have "size (box_queue (?m a)) \<le> default_mailbox_capacity" if "a \<in> dom ?m" for a
    using owned_queue [OF assms] that by fastforce
  then have "size (queued dx) \<le> card (dom ?m) * default_mailbox_capacity"
    unfolding queued_def queued_in_def size_multiset_sum
    using sum_bounded_above [of "dom ?m" "\<lambda>a. size (box_queue (?m a))" default_mailbox_capacity] by simp
  then show ?thesis using card_mailboxes [OF assms] mult_le_mono1 order_trans by meson
qed

section \<open>The server\<close>

text \<open>
  Where the receive loop stands: before the next \<open>acquire()\<close>, in a read into a block or into the one-byte
  sink, or ended. How far the read has come is \<open>dx_loop\<close> of the demultiplexer. \<open>sv_waiting\<close> are the connections in the accept channel, in order;
  \<open>sv_messages\<close> are the messages that receives have returned and the application still holds; \<open>sv_arrived\<close> is
  the history of what the socket has delivered into blocks.
\<close>

datatype loop_at = At_Top | Reading_Into block_ref | Reading_Sink | Loop_Over

record 'e server =
  sv_heap :: heap
  sv_time :: int
  sv_demux :: "('e, chain) demux"
  sv_loop :: loop_at
  sv_waiting :: "nat list"
  sv_messages :: "message list"
  sv_arrived :: "byte list list"

definition server_start :: "heap \<Rightarrow> int \<Rightarrow> 'e server" where
  "server_start h t =
    \<lparr>sv_heap = h, sv_time = t, sv_demux = snd (demux_start None make_demux),
     sv_loop = At_Top, sv_waiting = [], sv_messages = [], sv_arrived = []\<rparr>"

text \<open>The capacity that the demultiplexer gives its accept channel.\<close>

definition accept_backlog :: nat where
  "accept_backlog = 100"

text \<open>Datagrams that nobody owns any more are destroyed: their handles, and the chain object.\<close>

definition drop_datagrams :: "nat \<Rightarrow> chain list \<Rightarrow> heap \<Rightarrow> heap" where
  "drop_datagrams res gone h = fold (\<lambda>d h. res_deallocate (Chain_Alloc res) (chain_destroy (h, d))) gone h"

text \<open>The loop after a turn; when it ends, by itself or by an exception, nothing reads the socket any more.\<close>

definition loop_continues :: "loop_next \<Rightarrow> bool" where
  "loop_continues nx = (case nx of Loop_Again \<Rightarrow> True | Loop_Datagram _ \<Rightarrow> True | _ \<Rightarrow> False)"

definition after_turn :: "bool \<Rightarrow> 'e server \<Rightarrow> 'e server" where
  "after_turn goes_on s =
    (if goes_on then s\<lparr>sv_loop := At_Top, sv_demux := (sv_demux s)\<lparr>dx_loop := Read_Next\<rparr>\<rparr>
     else s\<lparr>sv_loop := Loop_Over, sv_demux := (sv_demux s)\<lparr>dx_loop := Read_Over\<rparr>\<rparr>)"

text \<open>
  The error code with which a read comes back: none with a datagram, \<open>operation_aborted\<close> exactly when it was
  cancelled; a read that is pending has not come back.
\<close>

definition read_answers :: "read_state \<Rightarrow> error_code option \<Rightarrow> bool" where
  "read_answers st ec =
    (case ec of
       None \<Rightarrow> st = Read_Done
     | Some e \<Rightarrow> st = (if ec_value e = EC_operation_aborted then Read_Cancelled else Read_Failed))"

definition queue_connection :: "('e, 'd) demux \<Rightarrow> ('e, 'd) demux \<Rightarrow> nat list" where
  "queue_connection dx dx' =
    (if length (dx_conns dx) < length (dx_conns dx') then [fst (hd (dx_conns dx'))] else [])"

text \<open>
  One step of the server. The steps of the loop are those of \<open>receive_loop()\<close> between its waits; the others
  are the sweep, a posted handler, and the calls of the application on the listener and on connections it has
  accepted. In every step the datagrams \<open>gone\<close> that leave the mailboxes without being returned are destroyed.
\<close>

inductive server_step :: "pool \<Rightarrow> nat \<Rightarrow> int \<Rightarrow> 'e server \<Rightarrow> 'e server \<Rightarrow> bool"
  for p limit idle_secs where
  sv_start: "sv_loop s = At_Top \<Longrightarrow> loop_start p (sv_heap s) = (w, h) \<Longrightarrow>
    server_step p limit idle_secs s
      (case w of
         Loop_Into b \<Rightarrow> s\<lparr>sv_heap := h, sv_loop := Reading_Into b, sv_demux := begin_read (sv_demux s)\<rparr>
       | Loop_Sink \<Rightarrow> s\<lparr>sv_heap := h, sv_loop := Reading_Sink, sv_demux := begin_read (sv_demux s)\<rparr>
       | Loop_Throws \<Rightarrow> after_turn False (s\<lparr>sv_heap := h\<rparr>))"
| sv_event: "event_step (sv_demux s) dx \<Longrightarrow> server_step p limit idle_secs s (s\<lparr>sv_demux := dx\<rparr>)"
| sv_sink: "sv_loop s = Reading_Sink \<Longrightarrow> read_answers (dx_loop (sv_demux s)) ec \<Longrightarrow>
    server_step p limit idle_secs s (after_turn (loop_continues (loop_sink_done ec)) s)"
| sv_no_datagram: "sv_loop s = Reading_Into b \<Longrightarrow>
    read_answers (dx_loop (sv_demux s)) (case ev of Data _ \<Rightarrow> None | Failed ec \<Rightarrow> Some ec) \<Longrightarrow>
    (\<And>bytes. ev = Data bytes \<Longrightarrow> length bytes \<le> pool_block_size p) \<Longrightarrow>
    loop_read_done p b ev (sv_heap s) = (nx, h) \<Longrightarrow> (\<And>d. nx \<noteq> Loop_Datagram d) \<Longrightarrow>
    server_step p limit idle_secs s (after_turn (loop_continues nx) (s\<lparr>sv_heap := h\<rparr>))"
| sv_datagram: "sv_loop s = Reading_Into b \<Longrightarrow> dx_loop (sv_demux s) = Read_Done \<Longrightarrow> length bytes \<le> pool_block_size p \<Longrightarrow>
    loop_read_done p b (Data bytes) (sv_heap s) = (Loop_Datagram d, h) \<Longrightarrow> sv_time s \<le> now \<Longrightarrow>
    dx_mailboxes (make_room limit (sv_demux s)) a = None \<Longrightarrow>
    (sent \<Longrightarrow> length (sv_waiting s) < accept_backlog) \<Longrightarrow>
    dx = on_datagram limit now a sent granted sender d (sv_demux s) \<Longrightarrow>
    mset gone + queued dx = add_mset d (queued (sv_demux s)) \<Longrightarrow>
    server_step p limit idle_secs s
      (after_turn (dx_loop dx \<noteq> Read_Over)
         (s\<lparr>sv_heap := drop_datagrams (pool_resource p) gone h, sv_time := now, sv_demux := dx,
            sv_waiting := sv_waiting s @ queue_connection (sv_demux s) dx,
            sv_arrived := bytes # sv_arrived s\<rparr>))"
| sv_sweep: "dx_sweeping (sv_demux s) = Timer_Expired \<Longrightarrow> sv_time s \<le> now \<Longrightarrow> dx = sweep now idle_secs (sv_demux s) \<Longrightarrow>
    mset gone + queued dx = queued (sv_demux s) \<Longrightarrow>
    server_step p limit idle_secs s
      (s\<lparr>sv_heap := drop_datagrams (pool_resource p) gone (sv_heap s), sv_time := now, sv_demux := dx\<rparr>)"
| sv_task: "dx_posted (sv_demux s) \<noteq> [] \<Longrightarrow> dx = run_task (sv_demux s) \<Longrightarrow>
    mset gone + queued dx = queued (sv_demux s) \<Longrightarrow>
    server_step p limit idle_secs s
      (s\<lparr>sv_heap := drop_datagrams (pool_resource p) gone (sv_heap s), sv_demux := dx\<rparr>)"
| sv_stop: "server_step p limit idle_secs s (s\<lparr>sv_demux := stop_accepting (sv_demux s)\<rparr>)"
| sv_accept: "sv_waiting s = c # cs \<Longrightarrow>
    server_step p limit idle_secs s
      (s\<lparr>sv_demux := snd (demux_accept (Some c) (sv_demux s)), sv_waiting := cs\<rparr>)"
| sv_close: "c \<notin> set (sv_waiting s) \<Longrightarrow>
    server_step p limit idle_secs s (s\<lparr>sv_demux := passive_close c (sv_demux s)\<rparr>)"
| sv_abort: "c \<notin> set (sv_waiting s) \<Longrightarrow>
    server_step p limit idle_secs s (s\<lparr>sv_demux := passive_abort c (sv_demux s)\<rparr>)"
| sv_destroy: "c \<notin> set (sv_waiting s) \<Longrightarrow> dx = passive_destroy c (sv_demux s) \<Longrightarrow>
    mset gone + queued dx = queued (sv_demux s) \<Longrightarrow>
    server_step p limit idle_secs s
      (s\<lparr>sv_heap := drop_datagrams (pool_resource p) gone (sv_heap s), sv_demux := dx\<rparr>)"
| sv_receive: "c \<notin> set (sv_waiting s) \<Longrightarrow> map_of (dx_conns (sv_demux s)) c \<noteq> None \<Longrightarrow>
    passive_receive r c (sv_demux s) = (res, dx) \<Longrightarrow>
    server_step p limit idle_secs s
      (s\<lparr>sv_demux := dx,
         sv_messages := (case res of Some (Inr d) \<Rightarrow> [passive_message (pool_resource p) d] | _ \<Rightarrow> [])
           @ sv_messages s\<rparr>)"
| sv_drop: "sv_messages s = xs @ m # ys \<Longrightarrow>
    server_step p limit idle_secs s
      (s\<lparr>sv_heap := message_destroy (sv_heap s, m), sv_messages := xs @ ys\<rparr>)"

inductive server_reachable :: "pool \<Rightarrow> nat \<Rightarrow> int \<Rightarrow> 'e server \<Rightarrow> bool" for p limit idle_secs where
  sv_init: "make_pool cfg (empty_heap junk grants) = (Some p, h) \<Longrightarrow>
    server_reachable p limit idle_secs (server_start h t)"
| sv_step: "server_reachable p limit idle_secs s \<Longrightarrow> server_step p limit idle_secs s s' \<Longrightarrow>
    server_reachable p limit idle_secs s'"

section \<open>Who holds the memory\<close>

text \<open>
  The chains that exist are those of the queued datagrams and of the application's messages; the loop may
  hold one more handle, on the block it reads into, which nobody else refers to.
\<close>

definition live_messages :: "pool \<Rightarrow> 'e server \<Rightarrow> message multiset" where
  "live_messages p s =
    image_mset (passive_message (pool_resource p)) (queued (sv_demux s)) + mset (sv_messages s)"

definition loop_refs :: "loop_at \<Rightarrow> block_ref multiset" where
  "loop_refs at = (case at of Reading_Into r \<Rightarrow> {#r#} | _ \<Rightarrow> {#})"

definition refs_of :: "message multiset \<Rightarrow> block_ref multiset" where
  "refs_of D = (\<Sum>m\<in>#D. message_refs m)"

definition units_in :: "message multiset \<Rightarrow> alloc_unit multiset" where
  "units_in D = (\<Sum>m\<in>#D. message_units m)"

definition reading_ok :: "pool \<Rightarrow> heap \<Rightarrow> loop_at \<Rightarrow> message multiset \<Rightarrow> bool" where
  "reading_ok p h at D \<longleftrightarrow>
    (case at of
       Reading_Into r \<Rightarrow>
         (\<exists>b. br_blk r = Some b \<and> br_begin r = 0 \<and> length (block_data h b) = pool_block_size p \<and>
            (\<forall>q\<in>#refs_of D. br_blk q \<noteq> Some b))
     | _ \<Rightarrow> True)"

definition small_message :: "byte list list \<Rightarrow> heap \<Rightarrow> message \<Rightarrow> bool" where
  "small_message arrived h m \<longleftrightarrow>
    (\<exists>res d. m = passive_message res d \<and> chain_ok d \<and> length (ch_live d) \<le> 1 \<and> chain_bytes h d \<in> set arrived)"

definition memory_ok :: "pool \<Rightarrow> byte list list \<Rightarrow> heap \<Rightarrow> loop_at \<Rightarrow> message multiset \<Rightarrow> bool" where
  "memory_ok p arrived h at D \<longleftrightarrow>
    pool_ok p h \<and> heap_inv h (loop_refs at + refs_of D) (units_in D + pool_units p) \<and>
    reading_ok p h at D \<and> (\<forall>m\<in>#D. small_message arrived h m)"

lemma refs_of_simps [simp]:
  "refs_of {#} = {#}" "refs_of (add_mset m D) = message_refs m + refs_of D" "refs_of (D + E) = refs_of D + refs_of E"
  by (simp_all add: refs_of_def)

lemma units_in_simps [simp]:
  "units_in {#} = {#}" "units_in (add_mset m D) = message_units m + units_in D"
  "units_in (D + E) = units_in D + units_in E"
  by (simp_all add: units_in_def)

lemma loop_refs_simps [simp]:
  "loop_refs At_Top = {#}" "loop_refs Reading_Sink = {#}" "loop_refs Loop_Over = {#}"
  "loop_refs (Reading_Into r) = {#r#}"
  by (simp_all add: loop_refs_def)

lemma passive_message_simps [simp]:
  "message_refs (passive_message res d) = mset (ch_live d)"
  "message_units (passive_message res d) = add_mset (Chain_Alloc res) (chain_units d)"
  "message_bytes h (passive_message res d) = chain_bytes h d"
  "message_destroy (h, passive_message res d) = res_deallocate (Chain_Alloc res) (chain_destroy (h, d))"
  by (simp_all add: passive_message_def message_destroy_def message_of_chain_def message_refs_def
      message_units_def message_bytes_def)

lemma message_ok_small: "small_message arrived h m \<Longrightarrow> message_ok h' m"
  by (auto simp: small_message_def passive_message_def)

lemma small_message_bytes: "small_message arrived h m \<Longrightarrow> message_bytes h m \<in> set arrived"
  by (auto simp: small_message_def)

lemma refs_of_in: "m \<in># D \<Longrightarrow> message_refs m \<subseteq># refs_of D"
  by (metis insert_DiffM mset_subset_eq_add_left refs_of_simps(2))

lemma later_build_datagram: "build_datagram res r n h = (oc, h') \<Longrightarrow> later h h'"
  by (auto simp: build_datagram_def split: prod.splits option.splits bool.splits if_splits
      dest!: later_make_chain later_append intro: later_trans)

text \<open>What a message shows stays the same as long as the blocks of all messages do.\<close>

lemma small_messages_keep:
  assumes "\<forall>m\<in>#D. small_message arrived h m" and "keeps (refs_of D) h h'"
  shows "\<forall>m\<in>#D. small_message arrived h' m"
proof
  fix m assume m: "m \<in># D"
  then obtain res d where d: "m = passive_message res d" "chain_ok d" "length (ch_live d) \<le> 1"
    "chain_bytes h d \<in> set arrived" using assms(1) by (auto simp: small_message_def)
  have "keeps (mset (ch_live d)) h h'" using keeps_mono [OF assms(2) refs_of_in [OF m]] d(1) by simp
  then have "chain_bytes h' d = chain_bytes h d"
    unfolding chain_bytes_def by (auto intro: refs_bytes_keeps_set)
  then show "small_message arrived h' m"
    unfolding small_message_def using d by (intro exI [of _ res] exI [of _ d]) simp
qed

lemma later_drop_datagrams: "later h (drop_datagrams res gone h)"
proof (induction gone arbitrary: h)
  case (Cons d gone)
  have "later h (res_deallocate (Chain_Alloc res) (chain_destroy (h, d)))" by simp
  then show ?case using Cons by (simp add: drop_datagrams_def later_trans del: later_deallocate)
qed (simp add: drop_datagrams_def)

lemma memory_ok_drop:
  assumes ok: "memory_ok p arrived h at (add_mset m D)"
  shows "memory_ok p arrived (message_destroy (h, m)) at D"
proof -
  let ?h = "message_destroy (h, m)"
  have "heap_inv h (message_refs m + (loop_refs at + refs_of D)) (message_units m + (units_in D + pool_units p))"
    using ok by (simp add: memory_ok_def ac_simps)
  then have d: "heap_inv ?h (loop_refs at + refs_of D) (units_in D + pool_units p)"
    "keeps (loop_refs at + refs_of D) h ?h"
    using message_destroy_correct message_ok_small ok unfolding memory_ok_def by (meson union_single_eq_member)+
  have "reading_ok p ?h at D"
    using ok d(2) by (auto simp: memory_ok_def reading_ok_def split: loop_at.splits)
  moreover have "pool_ok p ?h" using ok later_pool_ok [OF later_message_destroy] by (auto simp: memory_ok_def)
  moreover have "\<forall>m\<in>#D. small_message arrived ?h m"
    using small_messages_keep [of D arrived h ?h] ok d(2) by (simp add: memory_ok_def)
  ultimately show ?thesis using d(1) by (simp add: memory_ok_def)
qed

lemma memory_ok_drops:
  "memory_ok p arrived h at (image_mset (passive_message (pool_resource p)) (mset gone) + D) \<Longrightarrow>
    memory_ok p arrived (drop_datagrams (pool_resource p) gone h) at D"
proof (induction gone arbitrary: h)
  case (Cons d gone)
  then have "memory_ok p arrived h at (add_mset (passive_message (pool_resource p) d)
      (image_mset (passive_message (pool_resource p)) (mset gone) + D))"
    by simp
  from Cons.IH [OF memory_ok_drop [OF this]] show ?case by (simp add: drop_datagrams_def)
qed (simp add: drop_datagrams_def)

text \<open>Every block has a handle, so there are no more blocks than handles.\<close>

lemma card_blocks:
  assumes "heap_inv h R X"
  shows "card (dom (h_blocks h)) \<le> size R"
proof -
  have "b \<in> (the \<circ> br_blk) ` set_mset R" if b: "b \<in> dom (h_blocks h)" for b
  proof -
    obtain d where "h_blocks h b = Some d" using b by blast
    then have "0 < refs_to b R" using assms counts_okD(2) by (auto simp: heap_inv_def)
    then obtain r where "r \<in># R" "br_blk r = Some b"
      by (auto simp: refs_to_def nonempty_has_size [symmetric] multiset_eq_iff split: if_splits)
    then show ?thesis by force
  qed
  then have "card (dom (h_blocks h)) \<le> card ((the \<circ> br_blk) ` set_mset R)" by (intro card_mono) auto
  also have "\<dots> \<le> card (set_mset R)" by (rule card_image_le) simp
  also have "\<dots> \<le> size R"
    by (induction R) (auto simp: card_insert_if)
  finally show ?thesis .
qed

section \<open>The turns of the loop\<close>

lemma memory_ok_loop_start:
  assumes ok: "memory_ok p arrived h At_Top D" and run: "loop_start p h = (w, h')"
  shows "memory_ok p arrived h'
    (case w of Loop_Into r \<Rightarrow> Reading_Into r | Loop_Sink \<Rightarrow> Reading_Sink | Loop_Throws \<Rightarrow> Loop_Over) D"
proof -
  have inv: "heap_inv h (refs_of D) (units_in D + pool_units p)" and pool: "pool_ok p h"
    and small: "\<forall>m\<in>#D. small_message arrived h m"
    using ok by (simp_all add: memory_ok_def)
  obtain ar h1 where acq: "acquire p h = (ar, h1)" by fastforce
  from inv pool acq show ?thesis
  proof (cases rule: acquire_cases)
    case (acquired r b)
    have "br_blk q \<noteq> Some b" if "q \<in># refs_of D" for q
      using heap_inv_alive [OF inv that] acquired(5) by fastforce
    moreover have "w = Loop_Into r" "h' = h1"
      using run acq acquired(1,2) by (simp_all add: loop_start_def ref_valid_def)
    ultimately show ?thesis
      using acquired small_messages_keep [OF small acquired(7)] by (simp add: memory_ok_def reading_ok_def)
  next
    case (at_cap k)
    then have "w = Loop_Sink" "h' = h" using run acq by (simp_all add: loop_start_def ref_valid_def ref_null_def)
    then show ?thesis using ok by (simp add: memory_ok_def reading_ok_def)
  next
    case thrown
    then have "w = Loop_Throws" "h' = h1" using run acq by (simp_all add: loop_start_def)
    then show ?thesis
      using thrown small_messages_keep [OF small thrown(3)] by (simp add: memory_ok_def reading_ok_def)
  qed
qed

lemma small_message_more: "small_message arrived h m \<Longrightarrow> small_message (bytes # arrived) h m"
  by (auto simp: small_message_def)

lemma memory_ok_read_failed:
  assumes ok: "memory_ok p arrived h (Reading_Into r) D" and at: "at = At_Top \<or> at = Loop_Over"
  shows "memory_ok p arrived (ref_drop r h) at D"
proof -
  have inv: "heap_inv h (add_mset r (refs_of D)) (units_in D + pool_units p)"
    using ok by (simp add: memory_ok_def)
  note d = heap_inv_ref_drop [OF inv]
  have "pool_ok p (ref_drop r h)" using ok later_pool_ok [OF later_ref_drop] by (auto simp: memory_ok_def)
  moreover have "\<forall>m\<in>#D. small_message arrived (ref_drop r h) m"
    using small_messages_keep [of D arrived h, OF _ d(2)] ok by (simp add: memory_ok_def)
  ultimately show ?thesis using d(1) at by (auto simp: memory_ok_def reading_ok_def)
qed

lemma memory_ok_read_done:
  assumes ok: "memory_ok p arrived h (Reading_Into r) D" and fits: "length bytes \<le> pool_block_size p"
    and run: "loop_read_done p r (Data bytes) h = (nx, h')"
  shows "case nx of
      Loop_Datagram d \<Rightarrow>
        memory_ok p (bytes # arrived) h' At_Top (add_mset (passive_message (pool_resource p) d) D)
    | Loop_Thrown \<Rightarrow> memory_ok p arrived h' Loop_Over D
    | _ \<Rightarrow> False"
proof -
  let ?R = "refs_of D" and ?X = "units_in D + pool_units p"
  have inv: "heap_inv h (add_mset r ?R) ?X" and pool: "pool_ok p h"
    and small: "\<forall>m\<in>#D. small_message arrived h m"
    using ok by (simp_all add: memory_ok_def)
  obtain b where b: "br_blk r = Some b" "br_begin r = 0" "length (block_data h b) = pool_block_size p"
    and other: "\<forall>q\<in>#?R. br_blk q \<noteq> Some b"
    using ok by (auto simp: memory_ok_def reading_ok_def)
  define h1 where "h1 = fill_block b 0 bytes h"
  have space: "0 + length bytes \<le> length (block_data h b)" using fits b(3) by simp
  have rin: "r \<in># add_mset r ?R" by simp
  note fill = heap_inv_fill_block [OF inv rin b(1) space, folded h1_def]
  have k1: "keeps ?R h h1" using other by (auto simp: keeps_def fill(2))
  have data: "take (length bytes) (block_data h1 b) = bytes" "length bytes \<le> length (block_data h1 b)"
    using space by (simp_all add: fill(2) overwrite_def)
  obtain oc h2 where bd: "build_datagram (pool_resource p) r (length bytes) h1 = (oc, h2)" by fastforce
  note d = build_datagram_correct [OF fill(1) b(1) data(2) bd]
  have k: "keeps ?R h h2" using k1 d(1) by (rule keeps_trans)
  have "later h1 h2" using bd by (rule later_build_datagram)
  then have pool': "pool_ok p h2"
    using later_pool_ok [OF later_trans] later_fill_block [of h b 0 bytes] pool unfolding h1_def by blast
  note s = small_messages_keep [OF small k]
  have run': "(nx, h') = (case oc of None \<Rightarrow> (Loop_Thrown, h2) | Some ch \<Rightarrow> (Loop_Datagram ch, h2))"
    using run by (simp add: loop_read_done_def b(1,2) h1_def [symmetric] bd)
  show ?thesis
  proof (cases oc)
    case None
    then show ?thesis using run' d(2) s pool' by (simp add: memory_ok_def reading_ok_def)
  next
    case (Some ch)
    have "small_message (bytes # arrived) h2 (passive_message (pool_resource p) ch)"
      unfolding small_message_def using d(2) Some data(1)
      by (intro exI [of _ "pool_resource p"] exI [of _ ch]) simp
    moreover have "\<forall>m\<in>#D. small_message (bytes # arrived) h2 m" using s small_message_more by blast
    ultimately show ?thesis
      using run' d(2) Some pool' by (simp add: memory_ok_def reading_ok_def ac_simps)
  qed
qed

text \<open>\<open>n\<close> turns of the loop on a socket that answers every read with the error \<open>ec\<close>.\<close>

fun loop_turns :: "pool \<Rightarrow> error_code \<Rightarrow> nat \<Rightarrow> heap \<Rightarrow> loop_next \<times> heap" where
  "loop_turns p ec 0 h = (Loop_Again, h)"
| "loop_turns p ec (Suc n) h =
    (case loop_start p h of
       (Loop_Throws, h1) \<Rightarrow> (Loop_Thrown, h1)
     | (Loop_Sink, h1) \<Rightarrow>
         (case loop_sink_done (Some ec) of Loop_Again \<Rightarrow> loop_turns p ec n h1 | nx \<Rightarrow> (nx, h1))
     | (Loop_Into b, h1) \<Rightarrow>
         (case loop_read_done p b (Failed ec) h1 of
            (Loop_Again, h2) \<Rightarrow> loop_turns p ec n h2
          | (nx, h2) \<Rightarrow> (nx, h2)))"

lemma loop_turn_goes_on:
  assumes "h_grants h = []" and "ec_value ec \<noteq> EC_operation_aborted"
  shows "\<exists>h'. h_grants h' = [] \<and> loop_turns p ec (Suc n) h = loop_turns p ec n h'"
proof -
  obtain ar h1 where acq: "acquire p h = (ar, h1)" by fastforce
  then obtain r where r: "ar = Some r" using acquire_granted [OF assms(1), of p] by auto
  have "h_grants h1 = []" using later_acquire [OF acq] assms(1) by (simp add: later_def)
  moreover from this have "h_grants (ref_drop r h1) = []" using later_ref_drop [of h1 r] by (simp add: later_def)
  ultimately show ?thesis
    using assms(2) acq r by (cases "ref_valid r") (auto simp: loop_start_def loop_sink_done_def loop_read_done_def)
qed

lemma loop_turns_go_on:
  "h_grants h = [] \<Longrightarrow> ec_value ec \<noteq> EC_operation_aborted \<Longrightarrow> fst (loop_turns p ec n h) = Loop_Again"
proof (induction n arbitrary: h)
  case (Suc n)
  then show ?case using loop_turn_goes_on [OF Suc.prems, of p n] by (auto simp del: loop_turns.simps)
qed simp

lemma loop_turn_ends:
  assumes "h_grants h = []" and "ec_value ec = EC_operation_aborted"
  shows "fst (loop_turns p ec (Suc n) h) = Loop_Ends"
  using acquire_granted [OF assms(1), of p] assms(2)
  by (auto simp: loop_start_def loop_sink_done_def loop_read_done_def split: prod.split option.split)

section \<open>The invariant of the server\<close>

definition server_inv :: "pool \<Rightarrow> nat \<Rightarrow> 'e server \<Rightarrow> bool" where
  "server_inv p limit s \<longleftrightarrow>
    table_ok limit (sv_time s, sv_demux s) \<and> owned (sv_demux s) \<and>
    memory_ok p (sv_arrived s) (sv_heap s) (sv_loop s) (live_messages p s) \<and>
    length (sv_waiting s) \<le> accept_backlog"

lemma loop_fields_drop_mailbox [simp]:
  "dx_conns (drop_mailbox a dx) = dx_conns dx" "dx_conns (evict it cause dx) = dx_conns dx"
  by (simp_all add: drop_mailbox_def evict_def split: option.split)

lemma datagram_fields:
  "\<not> sent \<Longrightarrow> dx_conns (on_datagram limit now a sent granted sender d dx) = dx_conns dx"
  by (auto simp: on_datagram_def deliver_to_def make_room_def Let_def
      split: option.splits prod.splits bool.splits if_splits)

lemma begin_read_fields [simp]:
  "owned (begin_read dx) = owned dx" "queued (begin_read dx) = queued dx"
  by (simp_all add: begin_read_def owned_def queued_def)

lemma table_ok_read: "table_ok limit (t, dx) \<Longrightarrow> table_ok limit (t, begin_read dx)"
  by (simp add: table_ok_def) (simp add: life_ok_def begin_read_def)

lemma live_messages_gone:
  "mset gone + queued dx = Q \<Longrightarrow>
    image_mset f Q + M = image_mset f (mset gone) + (image_mset f (queued dx) + M)"
  by (metis image_mset_union add.assoc)

lemma server_inv_table:
  assumes inv: "server_inv p limit s" and step: "demux_step limit idle_secs (sv_time s, sv_demux s) (t, dx)"
    and limit: "1 \<le> limit" and gone: "mset gone + queued dx = queued (sv_demux s)"
  shows "server_inv p limit
    (s\<lparr>sv_heap := drop_datagrams (pool_resource p) gone (sv_heap s), sv_time := t, sv_demux := dx\<rparr>)"
proof -
  let ?s = "s\<lparr>sv_heap := drop_datagrams (pool_resource p) gone (sv_heap s), sv_time := t, sv_demux := dx\<rparr>"
  have t: "table_ok limit (sv_time s, sv_demux s)" "owned (snd (sv_time s, sv_demux s))"
    using inv by (simp_all add: server_inv_def)
  have "live_messages p s = image_mset (passive_message (pool_resource p)) (mset gone) + live_messages p ?s"
    using live_messages_gone [OF gone, of "passive_message (pool_resource p)" "mset (sv_messages s)"]
    by (simp add: live_messages_def)
  then have "memory_ok p (sv_arrived s) (sv_heap ?s) (sv_loop s) (live_messages p ?s)"
    using inv by (simp add: server_inv_def memory_ok_drops)
  then show ?thesis
    using inv table_ok_step [OF step t(1) limit] owned_step [OF step t] by (simp add: server_inv_def)
qed

lemma drop_no_datagrams [simp]: "drop_datagrams res [] h = h"
  by (simp add: drop_datagrams_def)

lemma server_inv_quiet:
  assumes "server_inv p limit s" and "demux_step limit idle_secs (sv_time s, sv_demux s) (sv_time s, dx)"
    and "1 \<le> limit" and "queued dx = queued (sv_demux s)"
  shows "server_inv p limit (s\<lparr>sv_demux := dx\<rparr>)"
  using server_inv_table [of p limit s idle_secs "sv_time s" dx "[]"] assms by simp

lemma table_ok_turn: "table_ok limit (t, dx) \<Longrightarrow> st \<noteq> Read_Pending \<Longrightarrow> table_ok limit (t, dx\<lparr>dx_loop := st\<rparr>)"
  by (simp add: table_ok_def life_ok_def)

lemma server_inv_turn:
  assumes table: "table_ok limit (sv_time s, sv_demux s)" and owned: "owned (sv_demux s)"
    and waiting: "length (sv_waiting s) \<le> accept_backlog"
    and mem: "memory_ok p (sv_arrived s) (sv_heap s) (if goes_on then At_Top else Loop_Over) (live_messages p s)"
  shows "server_inv p limit (after_turn goes_on s)"
  using assms table_ok_turn [OF table]
  by (cases goes_on) (simp_all add: server_inv_def after_turn_def live_messages_def)

lemma server_inv_datagram:
  assumes inv: "server_inv p limit s" and limit: "1 \<le> limit" and loop: "sv_loop s = Reading_Into b"
    and came: "dx_loop (sv_demux s) = Read_Done" and fits: "length bytes \<le> pool_block_size p"
    and read: "loop_read_done p b (Data bytes) (sv_heap s) = (Loop_Datagram d, h)" and now: "sv_time s \<le> now"
    and fresh: "dx_mailboxes (make_room limit (sv_demux s)) a = None"
    and sent: "sent \<Longrightarrow> length (sv_waiting s) < accept_backlog"
    and dx: "dx = on_datagram limit now a sent granted sender d (sv_demux s)"
    and gone: "mset gone + queued dx = add_mset d (queued (sv_demux s))"
  shows "server_inv p limit
      (after_turn (dx_loop dx \<noteq> Read_Over)
         (s\<lparr>sv_heap := drop_datagrams (pool_resource p) gone h, sv_time := now, sv_demux := dx,
            sv_waiting := sv_waiting s @ queue_connection (sv_demux s) dx,
            sv_arrived := bytes # sv_arrived s\<rparr>))"
proof (rule server_inv_turn)
  let ?f = "passive_message (pool_resource p)"
  let ?s = "s\<lparr>sv_heap := drop_datagrams (pool_resource p) gone h, sv_time := now, sv_demux := dx,
    sv_waiting := sv_waiting s @ queue_connection (sv_demux s) dx, sv_arrived := bytes # sv_arrived s\<rparr>"
  have i: "table_ok limit (sv_time s, sv_demux s)" "owned (sv_demux s)" "length (sv_waiting s) \<le> accept_backlog"
    using inv loop by (simp_all add: server_inv_def)
  show "table_ok limit (sv_time ?s, sv_demux ?s)"
    using table_ok_datagram [OF i(1) limit now _ fresh] came by (simp add: dx)
  show "owned (sv_demux ?s)" using owned_datagram [of "sv_demux s"] i by (simp add: dx table_ok_def)
  show "length (sv_waiting ?s) \<le> accept_backlog"
    using sent i(3) datagram_fields [of sent limit now a granted sender d "sv_demux s"]
    by (cases sent) (auto simp: queue_connection_def dx)
  have "memory_ok p (bytes # sv_arrived s) h At_Top (add_mset (?f d) (live_messages p s))"
    using memory_ok_read_done [OF _ fits read] inv loop by (simp add: server_inv_def)
  moreover have "add_mset (?f d) (live_messages p s) = image_mset ?f (mset gone) + live_messages p ?s"
    using live_messages_gone [OF gone, of ?f "mset (sv_messages s)"] by (simp add: live_messages_def)
  ultimately have m: "memory_ok p (bytes # sv_arrived s) (sv_heap ?s) At_Top (live_messages p ?s)"
    by (simp add: memory_ok_drops)
  then show "memory_ok p (sv_arrived ?s) (sv_heap ?s)
      (if dx_loop dx \<noteq> Read_Over then At_Top else Loop_Over) (live_messages p ?s)"
    by (simp add: memory_ok_def reading_ok_def)
qed

lemma server_inv_step:
  assumes "server_step p limit idle_secs s s'" and "server_inv p limit s" and "1 \<le> limit"
  shows "server_inv p limit s'"
  using assms(1)
proof (cases rule: server_step.cases)
  case (sv_start w h)
  have "memory_ok p (sv_arrived s) (sv_heap s) At_Top (live_messages p s)"
    using assms(2) sv_start by (simp add: server_inv_def)
  note m = memory_ok_loop_start [OF this sv_start(3)]
  show ?thesis
  proof (cases w)
    case Loop_Throws
    have "server_inv p limit (after_turn False (s\<lparr>sv_heap := h\<rparr>))"
      using m Loop_Throws assms(2) by (intro server_inv_turn) (simp_all add: server_inv_def live_messages_def)
    then show ?thesis using sv_start Loop_Throws by simp
  qed (use m sv_start assms(2) in \<open>simp_all add: server_inv_def live_messages_def table_ok_read\<close>)
next
  case (sv_event dx)
  have "dx_mailboxes dx = dx_mailboxes (sv_demux s)" using event_step_only [OF sv_event(2)] by (rule coroutines_only_fields)
  then show ?thesis unfolding sv_event(1)
    using dstep_event [OF sv_event(2)] by (intro server_inv_quiet [OF assms(2) _ assms(3)]) (simp_all add: queued_def)
next
  case (sv_sink ec)
  have "server_inv p limit (after_turn g s)" for g
    using sv_sink assms(2)
    by (intro server_inv_turn) (simp_all add: server_inv_def memory_ok_def reading_ok_def)
  then show ?thesis using sv_sink by simp
next
  case (sv_no_datagram b ev nx h)
  note sv_no_datagram = sv_no_datagram(1,2,4-6)
  have ok: "memory_ok p (sv_arrived s) (sv_heap s) (Reading_Into b) (live_messages p s)"
    using assms(2) sv_no_datagram by (simp add: server_inv_def)
  have "memory_ok p (sv_arrived s) h (if loop_continues nx then At_Top else Loop_Over) (live_messages p s)"
  proof (cases ev)
    case (Failed ec)
    then show ?thesis
      using memory_ok_read_failed [OF ok] sv_no_datagram(4) by (auto simp: loop_read_done_def)
  next
    case (Data bytes)
    have "memory_ok p (sv_arrived s) h Loop_Over (live_messages p s) \<and> nx = Loop_Thrown"
      using memory_ok_read_done [OF ok sv_no_datagram(3) [OF Data]] sv_no_datagram(4,5) Data
      by (auto split: loop_next.splits)
    then show ?thesis by (simp add: loop_continues_def)
  qed
  then have "server_inv p limit (after_turn (loop_continues nx) (s\<lparr>sv_heap := h\<rparr>))"
    using assms(2) sv_no_datagram(2) by (intro server_inv_turn) (simp_all add: server_inv_def live_messages_def)
  then show ?thesis using sv_no_datagram by simp
next
  case (sv_datagram b bytes d h now a sent dx granted sender gone)
  show ?thesis
    unfolding sv_datagram(1) by (rule server_inv_datagram [OF assms(2,3) sv_datagram(2-)])
next
  case (sv_sweep now dx gone)
  have "demux_step limit idle_secs (sv_time s, sv_demux s) (now, dx)"
    using dstep_sweep sv_sweep(2-4) by blast
  then show ?thesis
    unfolding sv_sweep(1) using assms(2,3) sv_sweep(5) by (intro server_inv_table)
next
  case (sv_task dx gone)
  have "demux_step limit idle_secs (sv_time s, sv_demux s) (sv_time s, dx)"
    using dstep_task sv_task(2,3) by blast
  then have "server_inv p limit (s\<lparr>sv_heap := drop_datagrams (pool_resource p) gone (sv_heap s),
      sv_time := sv_time s, sv_demux := dx\<rparr>)"
    using assms(2,3) sv_task(4) by (intro server_inv_table)
  then show ?thesis using sv_task by simp
next
  case sv_stop
  show ?thesis unfolding sv_stop(1)
    using dstep_stop by (rule server_inv_quiet [OF assms(2) _ assms(3)]) (simp_all add: stop_accepting_def)
next
  case (sv_accept c cs)
  have "server_inv p limit (s\<lparr>sv_demux := snd (demux_accept (Some c) (sv_demux s))\<rparr>)"
    using dstep_accept by (rule server_inv_quiet [OF assms(2) _ assms(3)]) (simp_all add: demux_accept_def)
  then show ?thesis using sv_accept by (simp add: server_inv_def live_messages_def)
next
  case (sv_close c)
  show ?thesis unfolding sv_close(1)
    using dstep_close by (rule server_inv_quiet [OF assms(2) _ assms(3)]) simp_all
next
  case (sv_abort c)
  show ?thesis unfolding sv_abort(1)
    using dstep_abort by (rule server_inv_quiet [OF assms(2) _ assms(3)]) simp_all
next
  case (sv_destroy c dx gone)
  have "server_inv p limit (s\<lparr>sv_heap := drop_datagrams (pool_resource p) gone (sv_heap s),
      sv_time := sv_time s, sv_demux := dx\<rparr>)"
    using sv_destroy by (intro server_inv_table [OF assms(2) _ assms(3)]) (auto intro: dstep_destroy)
  then show ?thesis using sv_destroy by simp
next
  case (sv_receive c r res dx)
  have o: "owned (sv_demux s)" "table_ok limit (sv_time s, sv_demux s)" using assms(2) by (simp_all add: server_inv_def)
  have step: "demux_step limit idle_secs (sv_time s, sv_demux s) (sv_time s, dx)"
    using dstep_receive [OF sv_receive(3)] sv_receive(4) by (metis snd_conv)
  note q = queued_receive [OF o(1) sv_receive(4)]
  let ?s = "s\<lparr>sv_demux := dx, sv_messages := (case res of Some (Inr d) \<Rightarrow> [passive_message (pool_resource p) d] | _ \<Rightarrow> [])
    @ sv_messages s\<rparr>"
  have "live_messages p ?s = live_messages p s"
    using q by (auto simp: live_messages_def split: option.splits sum.splits)
  then have "server_inv p limit ?s"
    using assms(2) table_ok_step [OF step o(2) assms(3)] owned_step [OF step] o by (simp add: server_inv_def)
  then show ?thesis using sv_receive by simp
next
  case (sv_drop xs m ys)
  have "live_messages p s = add_mset m (live_messages p (s\<lparr>sv_messages := xs @ ys\<rparr>))"
    using sv_drop by (simp add: live_messages_def)
  then show ?thesis
    using sv_drop assms(2) memory_ok_drop by (auto simp: server_inv_def live_messages_def)
qed

lemma make_pool_heap:
  assumes "make_pool cfg (empty_heap junk grants) = (Some p, h)"
  shows "heap_inv h {#} (pool_units p)" and "pool_ok p h"
  using assms
  by (auto simp: make_pool_def heap_inv_def empty_heap_def counts_ok_def counted_blocks_def block_units_def
      pool_units_def pool_ok_def res_allocate.simps Let_def split: if_splits list.splits bool.splits)

lemma demux_started:
  "table_ok limit (t, snd (demux_start None make_demux))" "owned (snd (demux_start None make_demux))"
  "queued (snd (demux_start None make_demux)) = {#}"
  by (simp_all add: table_ok_def demux_start_def demux_inv_def life_ok_def make_demux_def owned_def boxes_ok_def
      queued_def queued_in_def)

lemma server_inv_reachable:
  assumes "server_reachable p limit idle_secs s" and "1 \<le> limit"
  shows "server_inv p limit s"
  using assms(1)
proof (induction rule: server_reachable.induct)
  case (sv_init cfg junk grants h t)
  show ?case
    using make_pool_heap [OF sv_init]
    by (simp add: demux_started server_inv_def server_start_def memory_ok_def reading_ok_def live_messages_def)
next
  case (sv_step s s')
  then show ?case using server_inv_step assms(2) by blast
qed

section \<open>Properties\<close>

text \<open>The connections that the application has accepted and not destroyed.\<close>

definition accepted :: "'e server \<Rightarrow> nat list" where
  "accepted s = filter (\<lambda>c. c \<notin> set (sv_waiting s)) (map fst (dx_conns (sv_demux s)))"

lemma connections_bounded:
  assumes "server_inv p limit s"
  shows "length (dx_conns (sv_demux s)) \<le> accept_backlog + length (accepted s)"
proof -
  let ?cs = "map fst (dx_conns (sv_demux s))"
  have "distinct ?cs" using assms by (simp add: server_inv_def table_ok_def demux_inv_def)
  then have "length (filter (\<lambda>c. c \<in> set (sv_waiting s)) ?cs) = card (set ?cs \<inter> set (sv_waiting s))"
    by (metis Int_def distinct_card distinct_filter set_filter)
  also have "\<dots> \<le> card (set (sv_waiting s))" by (intro card_mono) auto
  also have "\<dots> \<le> accept_backlog"
    using assms card_length [of "sv_waiting s"] by (simp add: server_inv_def)
  finally show ?thesis
    using sum_length_filter_compl [of "\<lambda>c. c \<in> set (sv_waiting s)" ?cs] by (simp add: accepted_def)
qed

lemma size_refs_of:
  assumes "\<forall>m\<in>#D. small_message arrived h m"
  shows "size (refs_of D) \<le> size D"
  using assms
proof (induction D)
  case (add m D)
  then have "size (message_refs m) \<le> 1" by (auto simp: small_message_def)
  then show ?case using add by simp
qed simp

text \<open>
  C9. Memory stays bounded under a flood of datagrams, whatever their number and their sources. In every
  reachable state of the server: the table has at most as many sources as the limit says; the connections that
  exist are those the application has accepted and at most 100 that wait to be accepted; each source and each
  connection accounts for one mailbox at most, and no mailbox holds more than 256 datagrams; the blocks that
  exist are at most one for the datagram that is being read, one for each message that the application holds,
  and one for each datagram that can be queued in these mailboxes. Every message shows the bytes of a datagram
  that arrived; nothing is used after it was freed; and when the messages, the queued datagrams and the read
  are gone, nothing but the pool's counter is still allocated.
\<close>

theorem flood_memory_bounded:
  assumes "server_reachable p (max_connections getenv) (idle_timeout getenv) s"
  shows "length (dx_lru (sv_demux s)) \<le> max_connections getenv \<and>
    length (sv_waiting s) \<le> accept_backlog \<and>
    length (dx_conns (sv_demux s)) \<le> accept_backlog + length (accepted s) \<and>
    card (dom (dx_mailboxes (sv_demux s))) \<le> length (dx_lru (sv_demux s)) + length (dx_conns (sv_demux s)) \<and>
    (\<forall>a mb. dx_mailboxes (sv_demux s) a = Some mb \<longrightarrow> length (mb_queue mb) \<le> default_mailbox_capacity) \<and>
    size (queued (sv_demux s))
      \<le> (max_connections getenv + accept_backlog + length (accepted s)) * default_mailbox_capacity \<and>
    card (dom (h_blocks (sv_heap s))) \<le> 1 + length (sv_messages s)
        + (max_connections getenv + accept_backlog + length (accepted s)) * default_mailbox_capacity \<and>
    (\<forall>m\<in>set (sv_messages s). message_bytes (sv_heap s) m \<in> set (sv_arrived s)) \<and>
    \<not> h_fault (sv_heap s) \<and> \<not> dx_fault (sv_demux s) \<and>
    (sv_messages s = [] \<and> queued (sv_demux s) = {#} \<and> (\<forall>b. sv_loop s \<noteq> Reading_Into b) \<longrightarrow>
      h_blocks (sv_heap s) = Map.empty \<and> h_out (sv_heap s) = pool_units p)"
proof -
  let ?limit = "max_connections getenv" and ?h = "sv_heap s" and ?D = "live_messages p s" and ?dx = "sv_demux s"
  have inv: "server_inv p ?limit s" using assms max_connections_pos by (rule server_inv_reachable)
  then have h: "heap_inv ?h (loop_refs (sv_loop s) + refs_of ?D) (units_in ?D + pool_units p)"
    and small: "\<forall>m\<in>#?D. small_message (sv_arrived s) ?h m" and own: "owned ?dx"
    and table: "length (dx_lru ?dx) \<le> ?limit" "\<not> dx_fault ?dx"
    by (simp_all add: server_inv_def memory_ok_def table_ok_def demux_inv_def)
  have "size (loop_refs (sv_loop s)) \<le> 1" by (simp add: loop_refs_def split: loop_at.split)
  then have "card (dom (h_blocks ?h)) \<le> 1 + size ?D"
    using card_blocks [OF h] size_refs_of [OF small] by simp
  also have "size ?D = length (sv_messages s) + size (queued ?dx)" by (simp add: live_messages_def)
  finally have blocks: "card (dom (h_blocks ?h)) \<le> 1 + length (sv_messages s) + size (queued ?dx)" by simp
  have conns: "length (dx_conns ?dx) \<le> accept_backlog + length (accepted s)" "length (sv_waiting s) \<le> accept_backlog"
    using connections_bounded [OF inv] inv by (simp_all add: server_inv_def)
  have "length (dx_lru ?dx) + length (dx_conns ?dx) \<le> ?limit + accept_backlog + length (accepted s)"
    using table(1) conns(1) by linarith
  then have queue: "size (queued ?dx) \<le> (?limit + accept_backlog + length (accepted s)) * default_mailbox_capacity"
    using size_queued [OF own] mult_le_mono1 order_trans by blast
  have "message_bytes ?h m \<in> set (sv_arrived s)" if "m \<in> set (sv_messages s)" for m
    using small that small_message_bytes by (simp add: live_messages_def)
  moreover have "h_blocks ?h = Map.empty \<and> h_out ?h = pool_units p"
    if "sv_messages s = []" "queued ?dx = {#}" "\<forall>b. sv_loop s \<noteq> Reading_Into b"
  proof -
    have "?D = {#}" "loop_refs (sv_loop s) = {#}"
      using that by (simp_all add: live_messages_def loop_refs_def split: loop_at.split)
    then have "heap_inv ?h {#} (pool_units p)" using h by simp
    then show ?thesis
      using card_blocks [of ?h "{#}"] by (auto simp: heap_inv_def block_units_def)
  qed
  moreover have "card (dom (h_blocks ?h)) \<le> 1 + length (sv_messages s)
      + (?limit + accept_backlog + length (accepted s)) * default_mailbox_capacity"
    using blocks queue by linarith
  ultimately show ?thesis
    using table conns queue card_mailboxes [OF own] owned_queue [OF own] heap_inv_no_fault [OF h] by blast
qed

text \<open>The step for a datagram is always possible, whatever it displaces.\<close>

lemma datagram_step_exists:
  assumes inv: "server_inv p limit s" and loop: "sv_loop s = Reading_Into b"
    and came: "dx_loop (sv_demux s) = Read_Done" and fits: "length bytes \<le> pool_block_size p"
    and read: "loop_read_done p b (Data bytes) (sv_heap s) = (Loop_Datagram d, h)" and now: "sv_time s \<le> now"
    and fresh: "dx_mailboxes (make_room limit (sv_demux s)) a = None"
  shows "\<exists>s'. server_step p limit idle_secs s s' \<and> sv_arrived s' = bytes # sv_arrived s \<and>
    (let dx = on_datagram limit now a (length (sv_waiting s) < accept_backlog) True sender d (sv_demux s)
     in dx_conns (sv_demux s') = dx_conns dx \<and>
        sv_waiting s' = sv_waiting s @ queue_connection (sv_demux s) dx)"
proof -
  let ?sent = "length (sv_waiting s) < accept_backlog"
  define dx where "dx = on_datagram limit now a ?sent True sender d (sv_demux s)"
  have "demux_inv (sv_demux s)" "owned (sv_demux s)" using inv by (simp_all add: server_inv_def table_ok_def)
  then have "queued dx \<subseteq># add_mset d (queued (sv_demux s))"
    unfolding dx_def using fresh by (rule queued_datagram)
  then obtain gone where "mset gone + queued dx = add_mset d (queued (sv_demux s))"
    by (metis ex_mset subset_mset.diff_add)
  note step = server_step.sv_datagram [OF loop came fits read now fresh _ dx_def this, where idle_secs = idle_secs]
  let ?s = "s\<lparr>sv_heap := drop_datagrams (pool_resource p) gone h, sv_time := now, sv_demux := dx,
    sv_waiting := sv_waiting s @ queue_connection (sv_demux s) dx, sv_arrived := bytes # sv_arrived s\<rparr>"
  have "sv_arrived (after_turn g ?s) = bytes # sv_arrived s" "dx_conns (sv_demux (after_turn g ?s)) = dx_conns dx"
    "sv_waiting (after_turn g ?s) = sv_waiting s @ queue_connection (sv_demux s) dx" for g
    by (simp_all add: after_turn_def)
  then show ?thesis using step unfolding dx_def Let_def by blast
qed

lemma loop_read_granted:
  assumes "br_blk r = Some b" and "h_grants h = []"
  shows "\<exists>d h'. loop_read_done p r (Data bytes) h = (Loop_Datagram d, h') \<and> h_grants h' = []"
proof -
  let ?h = "fill_block b (br_begin r) bytes h"
  have g: "h_grants ?h = []" using assms(2) later_fill_block [of h b "br_begin r" bytes] by (simp add: later_def)
  obtain oc h' where bd: "build_datagram (pool_resource p) r (length bytes) ?h = (oc, h')" by fastforce
  have "h_grants h' = []" using later_build_datagram [OF bd] g by (simp add: later_def)
  moreover have "oc \<noteq> None" using build_datagram_granted [OF g] bd by (metis fst_conv)
  ultimately show ?thesis using assms(1) bd by (auto simp: loop_read_done_def)
qed

definition demo_server_config :: memory_config where
  "demo_server_config = \<lparr>cfg_resource = None, cfg_block_size = 8, cfg_max_live_blocks = 0\<rparr>"

text \<open>A server whose loop has just started its first read, into the block \<open>r\<close>, and how far the read has come.\<close>

definition reading_server :: "heap \<Rightarrow> block_ref \<Rightarrow> read_state \<Rightarrow> nat server" where
  "reading_server h r st =
    (server_start h 0)\<lparr>sv_loop := Reading_Into r, sv_demux := (snd (demux_start None make_demux))\<lparr>dx_loop := st\<rparr>\<rparr>"

lemma demo_server_reading:
  obtains p r h where "make_pool demo_server_config (empty_heap (\<lambda>_. 0) []) = (Some p, empty_heap (\<lambda>_. 0) [])"
    and "pool_block_size p = 8" and "h_grants h = []" and "br_blk r \<noteq> None"
    and "server_reachable p 1024 30 (reading_server h r Read_Done)"
proof -
  let ?h0 = "empty_heap (\<lambda>_. 0) []"
  obtain p where p: "make_pool demo_server_config ?h0 = (Some p, ?h0)" "pool_block_size p = 8" "pool_live p = None"
    by (simp add: make_pool_def demo_server_config_def)
  have r0: "server_reachable p 1024 30 (server_start ?h0 0 :: nat server)" using p(1) by (rule sv_init)
  obtain ar h where acq: "acquire p ?h0 = (ar, h)" by fastforce
  have "ar \<noteq> None" using acquire_granted [of ?h0 p] acq by (simp add: empty_heap_def)
  with make_pool_heap [OF p(1)] acq obtain r b where r: "ar = Some r" "br_blk r = Some b"
    by (cases rule: acquire_cases) (use p(3) in auto)
  have "loop_start p (sv_heap (server_start ?h0 0 :: nat server)) = (Loop_Into r, h)"
    using acq r by (simp add: loop_start_def server_start_def ref_valid_def)
  from sv_step [OF r0 sv_start [OF _ this]]
  have "server_reachable p 1024 30 (reading_server h r Read_Pending)"
    by (simp add: server_start_def reading_server_def begin_read_def demux_start_def)
  from sv_step [OF this sv_event [OF event_datagram]]
  have "server_reachable p 1024 30 (reading_server h r Read_Done)"
    by (simp add: server_start_def reading_server_def)
  moreover have "h_grants h = []" using later_acquire [OF acq] by (simp add: later_def empty_heap_def)
  moreover have "br_blk r \<noteq> None" using r(2) by simp
  ultimately show ?thesis using that p(1,2) by blast
qed

text \<open>A server that has got one datagram, from source 1, whose connection waits in the accept channel.\<close>

lemma demo_server_datagram:
  obtains p and s :: "nat server" where "server_reachable p 1024 30 s" and "sv_arrived s = [[104, 105]]"
    and "map fst (dx_conns (sv_demux s)) = [0]" and "sv_waiting s = [0]"
proof -
  obtain p r h where p: "pool_block_size p = 8" and h: "h_grants h = []" and b: "br_blk r \<noteq> None"
    and r1: "server_reachable p 1024 30 (reading_server h r Read_Done)"
    by (rule demo_server_reading)
  let ?s1 = "reading_server h r Read_Done"
  obtain d h2 where read: "loop_read_done p r (Data [104, 105]) (sv_heap ?s1) = (Loop_Datagram d, h2)"
    using b loop_read_granted [OF _ h, of r _ p "[104, 105]"] by (auto simp: reading_server_def server_start_def)
  have fresh: "dx_mailboxes (make_room 1024 (sv_demux ?s1)) 7 = None"
    by (simp add: reading_server_def server_start_def demux_start_def make_demux_def make_room_def)
  let ?dx = "on_datagram 1024 0 7 True True 1 d (sv_demux ?s1)"
  have dx: "map fst (dx_conns ?dx) = [0]" "dx_conns (sv_demux ?s1) = []"
    by (simp_all add: reading_server_def server_start_def demux_start_def make_demux_def on_datagram_def index_find_def make_room_def
        deliver_to_def Let_def split: prod.split bool.split)
  then have q: "queue_connection (sv_demux ?s1) ?dx = [0]" by (auto simp: queue_connection_def)
  have w: "sv_waiting ?s1 = []" "sv_arrived ?s1 = []" "sv_time ?s1 = 0" "sv_loop ?s1 = Reading_Into r"
    "dx_loop (sv_demux ?s1) = Read_Done"
    by (simp_all add: reading_server_def server_start_def)
  have "server_inv p 1024 ?s1" using r1 by (rule server_inv_reachable) simp
  from datagram_step_exists [OF this w(4,5) _ read _ fresh, of 0 30 1, unfolded w q]
  obtain s where "server_step p 1024 30 ?s1 s" "sv_arrived s = [[104, 105]]" "dx_conns (sv_demux s) = dx_conns ?dx"
    "sv_waiting s = [0]"
    using q by (auto simp: p accept_backlog_def Let_def)
  then show ?thesis using that sv_step [OF r1] dx(1) by metis
qed

lemma flood_memory_bounded_witness:
  "\<exists>p (s :: nat server). sv_arrived s = [[104, 105]] \<and> length (dx_conns (sv_demux s)) = 1 \<and>
    server_reachable p 1024 30 s \<and> \<not> h_fault (sv_heap s) \<and>
    card (dom (h_blocks (sv_heap s))) \<le> 1 + length (sv_messages s) + (1124 + length (accepted s)) * 256"
proof -
  obtain p and s :: "nat server" where s: "server_reachable p 1024 30 s" "sv_arrived s = [[104, 105]]"
    "map fst (dx_conns (sv_demux s)) = [0]"
    by (rule demo_server_datagram)
  have r: "server_reachable p (max_connections (\<lambda>_. None)) (idle_timeout (\<lambda>_. None)) s"
    unfolding no_environment by (rule s(1))
  have "length (dx_conns (sv_demux s)) = 1" using arg_cong [OF s(3), of length] by simp
  then show ?thesis
    using flood_memory_bounded [OF r] s(1,2)
    by (intro exI [of _ p] exI [of _ s]) (simp add: no_environment accept_backlog_def default_mailbox_capacity_def)
qed

text \<open>
  C36. Closing the socket does not always end the receive loop. The loop ends only on \<open>operation_aborted\<close>, which
  a read gets that is pending when the socket is closed. But a read may have completed already: then the loop
  handles its datagram after the close and starts another read, which a closed socket answers with an error of
  its own (bad descriptor), and the loop takes every such error for a transient one: it never ends again.
\<close>

theorem closed_socket_spins:
  assumes "ec_value ec \<noteq> EC_operation_aborted"
  shows "\<exists>p (s :: nat server). server_reachable p 1024 30 s \<and> \<not> dx_open (sv_demux s) \<and>
    dx_lru (sv_demux s) = [] \<and> dx_conns (sv_demux s) = [] \<and> sv_loop s = At_Top \<and>
    (\<forall>n. fst (loop_turns p ec n (sv_heap s)) = Loop_Again)"
proof -
  obtain p r h where p: "pool_block_size p = 8" and h: "h_grants h = []" and b: "br_blk r \<noteq> None"
    and r1: "server_reachable p 1024 30 (reading_server h r Read_Done)"
    by (rule demo_server_reading)
  let ?s1 = "reading_server h r Read_Done"
  let ?s2 = "?s1\<lparr>sv_demux := stop_accepting (sv_demux ?s1)\<rparr>"
  let ?s3 = "?s2\<lparr>sv_heap := drop_datagrams (pool_resource p) [] (sv_heap ?s2), sv_demux := run_task (sv_demux ?s2)\<rparr>"
  have demux: "sv_demux ?s3 = (snd (demux_start None make_demux))
      \<lparr>dx_accepting := False, dx_open := False, dx_loop := Read_Done, dx_sweeping := Timer_Cancelled\<rparr>"
    by (simp add: reading_server_def server_start_def stop_accepting_def run_task_def shut_down_if_unused_def close_socket_def cancel_timer_def demux_start_def make_demux_def)
  have r2: "server_reachable p 1024 30 ?s2" using r1 sv_stop by (rule sv_step)
  have "queued (run_task (sv_demux ?s2)) = queued (sv_demux ?s2)"
    by (simp add: reading_server_def server_start_def stop_accepting_def run_task_def demux_start_def make_demux_def queued_def)
  then have r3: "server_reachable p 1024 30 ?s3"
    by (intro sv_step [OF r2] sv_task) (simp_all add: stop_accepting_def)
  obtain d h2 where read: "loop_read_done p r (Data []) (sv_heap ?s3) = (Loop_Datagram d, h2)" "h_grants h2 = []"
    using b loop_read_granted [OF _ h, of r _ p "[]"] by (auto simp: reading_server_def server_start_def)
  let ?s4 = "after_turn True (?s3\<lparr>sv_heap := drop_datagrams (pool_resource p) [d] h2, sv_time := 0,
      sv_demux := sv_demux ?s3, sv_waiting := sv_waiting ?s3 @ queue_connection (sv_demux ?s3) (sv_demux ?s3),
      sv_arrived := [] # sv_arrived ?s3\<rparr>)"
  have late: "on_datagram 1024 0 7 False True 1 d (sv_demux ?s3) = sv_demux ?s3"
    unfolding demux by (simp add: demux_start_def make_demux_def on_datagram_def index_find_def)
  have r4: "server_reachable p 1024 30 ?s4"
  proof (rule sv_step [OF r3])
    have "dx_mailboxes (make_room 1024 (sv_demux ?s3)) 7 = None"
      unfolding demux by (simp add: demux_start_def make_demux_def make_room_def)
    from sv_datagram [OF _ _ _ read(1) _ this, where now = 0 and sent = False and granted = True and sender = 1
        and gone = "[d]" and idle_secs = 30] late
    moreover have "dx_loop (sv_demux ?s3) = Read_Done" unfolding demux by simp
    ultimately show "server_step p 1024 30 ?s3 ?s4" by (simp add: reading_server_def server_start_def)
  qed
  have "h_grants (sv_heap ?s4) = []"
    using later_drop_datagrams [of h2 "pool_resource p" "[d]"] read(2) by (simp add: later_def after_turn_def)
  then have "\<forall>n. fst (loop_turns p ec n (sv_heap ?s4)) = Loop_Again" using loop_turns_go_on assms by blast
  moreover have "sv_demux ?s4 = (sv_demux ?s3)\<lparr>dx_loop := Read_Next\<rparr>" by (simp add: after_turn_def)
  then have "\<not> dx_open (sv_demux ?s4)" "dx_lru (sv_demux ?s4) = []" "dx_conns (sv_demux ?s4) = []"
    unfolding demux by (simp_all add: demux_start_def make_demux_def)
  moreover have "sv_loop ?s4 = At_Top" by (simp add: after_turn_def)
  ultimately show ?thesis using r4 by blast
qed

definition bad_descriptor :: error_code where
  "bad_descriptor = \<lparr>ec_value = EC_other 9, ec_message = ''Bad file descriptor''\<rparr>"

lemma closed_socket_spins_witness:
  "\<exists>p (s :: nat server). server_reachable p 1024 30 s \<and> \<not> dx_open (sv_demux s) \<and>
    (\<forall>n. fst (loop_turns p bad_descriptor n (sv_heap s)) = Loop_Again)"
  using closed_socket_spins [of bad_descriptor] by (auto simp: bad_descriptor_def)

end
