(* ===== verification/Connections.thy ===== *)
theory Connections
  imports Tcp_Life Udp_Server
begin

text \<open>
  The interface \<open>Connection\<close> of taps_api.h and its three classes. The contract that callers rely on is the
  locale \<open>connection\<close>: a closed connection stays closed and refuses to send, and \<open>abort()\<close> closes. The locale
  \<open>receiving_connection\<close> adds that a closed connection refuses to receive: TCP and initiated UDP connections
  do, accepted UDP connections do not. The locale \<open>advancing_connection\<close> adds that the state never goes back in
  the order ESTABLISHING, ESTABLISHED, CLOSING, CLOSED; once they are handed out, all three classes meet it.
\<close>

section \<open>The contract\<close>

definition refuses :: "ErrorEvent \<Rightarrow> TAPSError option \<Rightarrow> bool" where
  "refuses ev r \<longleftrightarrow> (\<exists>e. r = Some e \<and> err_event e = ev \<and> err_reason e = INVALID_STATE)"

locale connection =
  fixes state :: "'c \<Rightarrow> ConnectionState"
    and ok :: "'c \<Rightarrow> bool"
    and step :: "'c \<Rightarrow> 'c \<Rightarrow> bool"
    and abort :: "'c \<Rightarrow> 'c \<Rightarrow> bool"
    and send_error :: "'c \<Rightarrow> TAPSError option"
  assumes ok_step: "ok c \<Longrightarrow> step c c' \<Longrightarrow> ok c'"
    and closed_step: "ok c \<Longrightarrow> step c c' \<Longrightarrow> state c = CLOSED \<Longrightarrow> state c' = CLOSED"
    and abort_step: "ok c \<Longrightarrow> abort c c' \<Longrightarrow> step c c' \<and> state c' = CLOSED"
    and closed_send: "state c = CLOSED \<Longrightarrow> refuses SEND_ERROR (send_error c)"
begin

lemma closed_forever: "step\<^sup>*\<^sup>* c c' \<Longrightarrow> ok c \<Longrightarrow> state c = CLOSED \<Longrightarrow> ok c' \<and> state c' = CLOSED"
  by (induction rule: rtranclp_induct) (auto intro: ok_step closed_step)

lemma abort_is_final:
  assumes "ok c" and "abort c c1" and "step\<^sup>*\<^sup>* c1 c'"
  shows "state c' = CLOSED \<and> refuses SEND_ERROR (send_error c')"
  using abort_step [OF assms(1,2)] ok_step [OF assms(1)] closed_forever [OF assms(3)] closed_send by blast

end

locale receiving_connection = connection +
  fixes receive_error :: "'a \<Rightarrow> TAPSError option"
  assumes closed_receive: "state c = CLOSED \<Longrightarrow> refuses RECEIVE_ERROR (receive_error c)"
begin

lemma abort_ends_receiving:
  assumes "ok c" and "abort c c1" and "step\<^sup>*\<^sup>* c1 c'"
  shows "refuses RECEIVE_ERROR (receive_error c')"
  using abort_is_final [OF assms] closed_receive by blast

end

locale advancing_connection = connection +
  assumes forward: "ok c \<Longrightarrow> step c c' \<Longrightarrow> state c \<le> state c'"
begin

lemma advances: "step\<^sup>*\<^sup>* c c' \<Longrightarrow> ok c \<Longrightarrow> ok c' \<and> state c \<le> state c'"
  by (induction rule: rtranclp_induct) (auto intro: ok_step order_trans forward)

end

section \<open>TCP\<close>

definition refusal_of :: "TAPSError + 'a \<Rightarrow> TAPSError option" where
  "refusal_of r = (case r of Inl e \<Rightarrow> Some e | Inr _ \<Rightarrow> None)"

definition tcp_aborts :: "tcp \<Rightarrow> tcp \<Rightarrow> bool" where
  "tcp_aborts s s' \<longleftrightarrow> (\<exists>ec. s' = (fst s, snd (tcp_abort ec (snd s))))"

interpretation tcp: receiving_connection "\<lambda>s. tc_state (snd s)" "\<lambda>_. True" "tcp_step tls" tcp_aborts
    "\<lambda>s. refusal_of (send_start (fst s) m (snd s))" "\<lambda>s. receive_refused (snd s)"
  for tls m
proof
  show "tc_state (snd s') = CLOSED" if "tcp_step tls s s'" "tc_state (snd s) = CLOSED" for s s'
    using closed_step [of tls "fst s" "snd s" "fst s'" "snd s'"] that by simp
  show "tcp_step tls s s' \<and> tc_state (snd s') = CLOSED" if "tcp_aborts s s'" for s s'
    using that tstep_abort [of tls "fst s" "snd s"]
    by (auto simp: tcp_aborts_def tcp_abort_def Let_def split: option.split)
qed (simp_all add: refuses_def refusal_of_def send_start_def receive_refused_def can_receive_def)

text \<open>
  A connection is handed out, by \<open>initiate()\<close> or by a listener, when its \<open>connect()\<close> has completed: from then on
  it takes every step but that one.
\<close>

definition held_step :: "bool \<Rightarrow> tcp \<Rightarrow> tcp \<Rightarrow> bool" where
  "held_step tls s s' \<longleftrightarrow> tcp_step tls s s' \<and> \<not> connects_late (snd s) (snd s')"

interpretation held: advancing_connection "\<lambda>s. tc_state (snd s)" "\<lambda>_. True" "held_step tls" tcp_aborts
    "\<lambda>s. refusal_of (send_start (fst s) m (snd s))"
  for tls m
proof
  show "held_step tls s s' \<and> tc_state (snd s') = CLOSED" if "tcp_aborts s s'" for s s'
  proof -
    have "tcp_step tls s s' \<and> tc_state (snd s') = CLOSED" using tcp.abort_step [OF TrueI that] .
    then show ?thesis by (auto simp: held_step_def connects_late_def connect_done_def)
  qed
  show "tc_state (snd s) \<le> tc_state (snd s')" if "held_step tls s s'" for s s'
    using state_step [of tls "fst s" "snd s" "fst s'" "snd s'"] that by (auto simp: held_step_def)
  then show "tc_state (snd s') = CLOSED" if "held_step tls s s'" "tc_state (snd s) = CLOSED" for s s'
    using that by fastforce
qed (simp_all add: refuses_def refusal_of_def send_start_def)

section \<open>Initiated UDP connections\<close>

text \<open>Once it is open, what an initiated connection does with its state: sending and receiving do not change it.\<close>

inductive active_step :: "active_udp \<Rightarrow> active_udp \<Rightarrow> bool" where
  astep_close: "active_step c (snd (active_close ec c))"
| astep_abort: "active_step c (snd (active_abort ec c))"
| astep_framer: "active_step c (c\<lparr>au_framer := Some f\<rparr>)"

definition active_aborts :: "active_udp \<Rightarrow> active_udp \<Rightarrow> bool" where
  "active_aborts c c' \<longleftrightarrow> (\<exists>ec. c' = snd (active_abort ec c))"

definition active_receive_refused :: "heap \<Rightarrow> active_udp \<Rightarrow> TAPSError option" where
  "active_receive_refused h c =
    (case fst (active_receive_start c h) of Udp_Done (Inl e) \<Rightarrow> Some e | _ \<Rightarrow> None)"

lemma active_close_state: "au_state (snd (active_close ec c)) = CLOSED" "au_state (snd (active_abort ec c)) = CLOSED"
  by (simp_all add: active_abort_def active_close_def Let_def split: option.split)

interpretation initiated: receiving_connection au_state "\<lambda>_. True" active_step active_aborts
    "\<lambda>c. refusal_of (active_send_start h m c)" "active_receive_refused h"
  for h m
proof
  show "au_state c' = CLOSED" if "active_step c c'" "au_state c = CLOSED" for c c'
    using that by (cases rule: active_step.cases) (simp_all add: active_close_state)
  show "active_step c c' \<and> au_state c' = CLOSED" if "active_aborts c c'" for c c'
    using that astep_abort by (auto simp: active_aborts_def active_close_state)
qed (simp_all add: refuses_def refusal_of_def active_send_start_def active_receive_refused_def active_receive_start_def)

interpretation initiated_forward: advancing_connection au_state "\<lambda>_. True" active_step active_aborts
    "\<lambda>c. refusal_of (active_send_start h m c)"
  for h m
proof
  show "au_state c \<le> au_state c'" if "active_step c c'" for c c'
    using that by (cases rule: active_step.cases) (simp_all add: active_close_state)
qed

section \<open>Accepted UDP connections\<close>

text \<open>
  An accepted connection lives in the server: its steps are those of the server, which may concern it or
  others. A connection that is destroyed counts as closed.
\<close>

definition conn_state :: "nat \<Rightarrow> 'e server \<Rightarrow> ConnectionState" where
  "conn_state c s = (case map_of (dx_conns (sv_demux s)) c of Some pc \<Rightarrow> pc_state pc | None \<Rightarrow> CLOSED)"

definition passive_send_refused :: "framer option \<Rightarrow> message \<Rightarrow> nat \<Rightarrow> 'e server \<Rightarrow> TAPSError option" where
  "passive_send_refused f m c s =
    (case map_of (dx_conns (sv_demux s)) c of
       Some pc \<Rightarrow> refusal_of (passive_send_start f (sv_heap s) m pc)
     | None \<Rightarrow> Some (taps_error SEND_ERROR INVALID_STATE ''Connection is closed''))"

definition passive_aborts :: "nat \<Rightarrow> 'e server \<Rightarrow> 'e server \<Rightarrow> bool" where
  "passive_aborts c s s' \<longleftrightarrow> s' = s\<lparr>sv_demux := passive_abort c (sv_demux s)\<rparr>"

text \<open>
  Sending goes through the shared socket: whatever the system answers, or, once the socket is closed, the
  error of an operation on a closed socket.
\<close>

definition demux_send_to :: "error_code option \<Rightarrow> ('e, 'd) demux \<Rightarrow> error_code option" where
  "demux_send_to answer dx = (if dx_open dx then answer else Some bad_descriptor)"

definition passive_send ::
  "framer option \<Rightarrow> error_code option \<Rightarrow> message \<Rightarrow> 'e passive_conn \<Rightarrow> 'e server \<Rightarrow> unit result" where
  "passive_send f answer m pc s =
    (case passive_send_start f (sv_heap s) m pc of
       Inl e \<Rightarrow> Inl e
     | Inr _ \<Rightarrow> passive_send_done (demux_send_to answer (sv_demux s)) pc)"

text \<open>The defaults of the base class, which UDP connections inherit.\<close>

definition base_can_send :: "ConnectionState \<Rightarrow> bool" where
  "base_can_send st \<longleftrightarrow> st = ESTABLISHED"

definition base_can_receive :: "ConnectionState \<Rightarrow> bool" where
  "base_can_receive st \<longleftrightarrow> st = ESTABLISHED"

text \<open>The connection has left the accept channel; its number is not given to another.\<close>

definition in_hands :: "pool \<Rightarrow> nat \<Rightarrow> nat \<Rightarrow> 'e server \<Rightarrow> bool" where
  "in_hands p limit c s \<longleftrightarrow>
    1 \<le> limit \<and> server_inv p limit s \<and> c \<notin> set (sv_waiting s) \<and> c < dx_next (sv_demux s)"

text \<open>What the operations do to the connection \<open>c\<close> in the table of connections.\<close>

definition state_at :: "nat \<Rightarrow> ('e, 'd) demux \<Rightarrow> ConnectionState" where
  "state_at c dx = (case map_of (dx_conns dx) c of None \<Rightarrow> CLOSED | Some pc \<Rightarrow> pc_state pc)"

definition conn_moves :: "nat \<Rightarrow> ('e, 'd) demux \<Rightarrow> ('e, 'd) demux \<Rightarrow> bool" where
  "conn_moves c dx dx' \<longleftrightarrow> dx_next dx \<le> dx_next dx' \<and> state_at c dx \<le> state_at c dx'"

lemma conn_moves_refl [simp]: "conn_moves c dx dx"
  by (simp add: conn_moves_def)

lemma conn_moves_trans: "conn_moves c dx dx1 \<Longrightarrow> conn_moves c dx1 dx2 \<Longrightarrow> conn_moves c dx dx2"
  by (auto simp: conn_moves_def)

lemma conn_moves_same: "dx_conns dx' = dx_conns dx \<Longrightarrow> dx_next dx' = dx_next dx \<Longrightarrow> conn_moves c dx dx'"
  by (simp add: conn_moves_def state_at_def)

lemma map_of_upd_conn:
  "map_of (dx_conns (upd_conn k f dx)) c =
    (if c = k then map_option f (map_of (dx_conns dx) c) else map_of (dx_conns dx) c)"
proof -
  have "map_of (map (\<lambda>p. if fst p = k then (k, f (snd p)) else p) l) c =
      (if c = k then map_option f (map_of l c) else map_of l c)" for l
    by (induction l) auto
  then show ?thesis by (simp add: upd_conn_def)
qed

lemma conn_moves_upd:
  assumes "k = c \<longrightarrow> (\<forall>pc. pc_state pc \<le> pc_state (f pc))"
  shows "conn_moves c dx (upd_conn k f dx)"
proof -
  have "dx_next (upd_conn k f dx) = dx_next dx" by (simp add: upd_conn_def)
  then show ?thesis using assms by (simp add: conn_moves_def state_at_def map_of_upd_conn split: option.split)
qed

lemma map_of_without: "map_of (filter (\<lambda>p. fst p \<noteq> k) l) c = (if c = k then None else map_of l c)"
  by (induction l) auto

lemma conn_moves_drop: "conn_moves c dx (dx\<lparr>dx_conns := filter (\<lambda>p. fst p \<noteq> k) (dx_conns dx)\<rparr>)"
  by (simp add: conn_moves_def state_at_def map_of_without)

lemma conn_moves_release: "conn_moves c dx (passive_release k dx)"
proof (cases "map_of (dx_conns dx) k")
  case (Some pc)
  let ?dx = "upd_conn k (\<lambda>pc. pc\<lparr>pc_released := True\<rparr>) dx"
  have "conn_moves c dx ?dx" by (rule conn_moves_upd) simp
  moreover have "conn_moves c ?dx (demux_release e a ?dx)" for e a
    by (rule conn_moves_same) (simp_all add: demux_release_def)
  ultimately have "conn_moves c dx (demux_release e a ?dx)" for e a by (rule conn_moves_trans)
  then show ?thesis using Some by (simp add: passive_release_def)
qed (simp add: passive_release_def)

lemma conn_moves_close: "conn_moves c dx (passive_close k dx)"
  unfolding passive_close_def
  by (rule conn_moves_trans [OF conn_moves_upd conn_moves_release]) simp

lemma conn_moves_abort: "conn_moves c dx (passive_abort k dx)"
  unfolding passive_abort_def
  by (rule conn_moves_trans [OF conn_moves_upd conn_moves_close]) simp

lemma next_unchanged [simp]: "dx_next (drop_mailbox a dx) = dx_next dx" "dx_next (evict it cause dx) = dx_next dx"
  by (simp_all add: drop_mailbox_def evict_def split: option.split)

lemma conn_moves_destroy: "conn_moves c dx (passive_destroy k dx)"
proof (cases "map_of (dx_conns dx) k")
  case (Some pc)
  let ?dx1 = "passive_release k dx"
  have "conn_moves c dx (?dx1\<lparr>dx_conns := filter (\<lambda>p. fst p \<noteq> k) (dx_conns ?dx1)\<rparr>)"
    using conn_moves_release conn_moves_drop by (rule conn_moves_trans)
  then have "conn_moves c dx (drop_mailbox (pc_mailbox pc)
      (?dx1\<lparr>dx_conns := filter (\<lambda>p. fst p \<noteq> k) (dx_conns ?dx1)\<rparr>))"
    by (rule conn_moves_trans [OF _ conn_moves_same]) simp_all
  then show ?thesis using Some by (simp add: passive_destroy_def Let_def)
qed (simp add: passive_destroy_def)

lemma conn_moves_receive: "conn_moves c dx (snd (passive_receive r k dx))"
proof -
  have same: "conn_moves c dx (dx\<lparr>dx_mailboxes := m\<rparr>)" for m by (rule conn_moves_same) simp_all
  have "conn_moves c dx (upd_conn k (\<lambda>pc. pc\<lparr>pc_state := CLOSED\<rparr>) (dx\<lparr>dx_mailboxes := m\<rparr>))" for m
    by (rule conn_moves_trans [OF same conn_moves_upd]) simp
  then show ?thesis
    using same by (simp add: passive_receive_def Let_def conn_moves_same split: option.split prod.split look.split)
qed

lemma conn_moves_sweep_evict: "conn_moves c dx (sweep_evict cutoff dx)"
proof (induction cutoff dx rule: sweep_evict.induct)
  case (1 cutoff dx)
  show ?case
  proof (cases "dx_lru dx \<noteq> [] \<and> en_last_active (snd (last (dx_lru dx))) < cutoff")
    case True
    have "conn_moves c dx (evict (fst (last (dx_lru dx))) idle dx)" by (rule conn_moves_same) simp_all
    then show ?thesis
      using conn_moves_trans 1 [OF True] True by (simp add: sweep_evict.simps [of cutoff dx])
  next
    case False
    then have "sweep_evict cutoff dx = dx" by (subst sweep_evict.simps) (simp only: if_False)
    then show ?thesis by simp
  qed
qed

lemma conn_moves_task: "conn_moves c dx (exec_task t dx)"
  by (cases t) (auto intro!: conn_moves_same split: option.split)

text \<open>A connection that enters the channel is new.\<close>

lemma queue_connection_new:
  assumes "k \<in> set (queue_connection dx (on_datagram limit now a sent granted sender d dx))"
  shows "k = dx_next dx"
proof -
  have [simp]: "dx_conns (deliver_to granted d b dx') = dx_conns dx'" for b and dx' :: "('a, 'b) demux"
    by (simp add: deliver_to_def split: option.split prod.split bool.split)
  show ?thesis
    using assms
    by (auto simp: queue_connection_def on_datagram_def make_room_def Let_def split: option.splits if_splits)
qed

lemma conn_moves_deliver: "conn_moves c dx (deliver_to granted d a dx)"
  by (auto simp: deliver_to_def intro!: conn_moves_same split: option.split prod.split bool.split)

lemma conn_moves_datagram:
  assumes "c < dx_next dx"
  shows "conn_moves c dx (on_datagram limit now a sent granted sender d dx)"
proof (cases "index_find sender dx")
  case (Some it)
  have "conn_moves c dx (dx\<lparr>dx_lru := l\<rparr>)" "conn_moves c dx (dx\<lparr>dx_fault := b\<rparr>)" for l b
    by (rule conn_moves_same, simp, simp)+
  then show ?thesis
    using Some conn_moves_trans conn_moves_deliver by (fastforce simp: on_datagram_def split: option.split)
next
  case None
  define dx1 where "dx1 = make_room limit dx"
  have dx1: "dx_conns dx1 = dx_conns dx" "dx_next dx1 = dx_next dx" by (simp_all add: dx1_def make_room_def)
  have new: "conn_moves c dx (dx1\<lparr>dx_mailboxes := m, dx_lru := l, dx_index := ix, dx_next := dx_next dx1 + 1,
      dx_conns := (dx_next dx1, conn) # dx_conns dx1\<rparr>)" for m l ix conn
    using assms dx1 by (simp add: conn_moves_def state_at_def)
  have other: "conn_moves c dx (dx1\<lparr>dx_mailboxes := m, dx_lru := l, dx_index := ix, dx_next := dx_next dx1 + 1,
      dx_posted := ts\<rparr>)" for m l ix ts
    using dx1 by (simp add: conn_moves_def state_at_def)
  show ?thesis
    using None conn_moves_trans [OF new conn_moves_deliver] other by (simp add: on_datagram_def Let_def dx1_def)
qed

lemma conn_moves_turn [simp]:
  "conn_moves c dx (sv_demux (after_turn g s)) = conn_moves c dx (sv_demux s)"
  "sv_waiting (after_turn g s) = sv_waiting s" "dx_next (sv_demux (after_turn g s)) = dx_next (sv_demux s)"
  by (simp_all add: after_turn_def conn_moves_def state_at_def)

text \<open>A step does not reopen the connection, and does not put it back into the channel.\<close>

lemma server_conn_step:
  assumes "server_step p limit idle_secs s s'" and "c \<notin> set (sv_waiting s)" and "c < dx_next (sv_demux s)"
  shows "conn_moves c (sv_demux s) (sv_demux s') \<and> c \<notin> set (sv_waiting s')"
  using assms(1)
proof (cases rule: server_step.cases)
  case (sv_start w h)
  moreover have "conn_moves c dx (begin_read dx)" for dx :: "('a, chain) demux"
    by (rule conn_moves_same) (simp_all add: begin_read_def)
  ultimately show ?thesis using assms(2) by (cases w) simp_all
next
  case (sv_event dx)
  have "conn_moves c (sv_demux s) dx"
    by (rule conn_moves_same) (rule coroutines_only_fields [OF event_step_only [OF sv_event(2)]])+
  then show ?thesis using assms(2) sv_event(1) by simp
next
  case (sv_datagram b bytes d h now a sent dx granted sender gone)
  have "c \<notin> set (queue_connection (sv_demux s) dx)"
    using assms(3) queue_connection_new [of c "sv_demux s" limit now a sent granted sender d] sv_datagram(9) by auto
  moreover have "conn_moves c (sv_demux s) dx" using assms(3) sv_datagram(9) by (simp add: conn_moves_datagram)
  ultimately show ?thesis using assms(2) sv_datagram(1) by simp
next
  case (sv_sweep now dx gone)
  have "conn_moves c (sweep_evict k (sv_demux s))
      ((shut_down_if_unused (sweep_evict k (sv_demux s)))\<lparr>dx_sweeping := ti\<rparr>)" for k ti
    by (rule conn_moves_same) simp_all
  then have "conn_moves c (sv_demux s) dx"
    unfolding sv_sweep(4) sweep_def using conn_moves_trans [OF conn_moves_sweep_evict] by blast
  then show ?thesis using assms(2) sv_sweep(1) by simp
next
  case (sv_task dx gone)
  have "conn_moves c (sv_demux s) ((sv_demux s)\<lparr>dx_posted := ts\<rparr>)" for ts
    by (rule conn_moves_same) simp_all
  then have "conn_moves c (sv_demux s) dx"
    using conn_moves_trans conn_moves_task sv_task(3) by (fastforce simp: run_task_def split: list.split)
  then show ?thesis using assms(2) sv_task(1) by simp
next
  case sv_stop
  have "conn_moves c (sv_demux s) (stop_accepting (sv_demux s))"
    by (rule conn_moves_same) (simp_all add: stop_accepting_def)
  then show ?thesis using assms(2) sv_stop by simp
next
  case (sv_accept k cs)
  have "conn_moves c (sv_demux s) (upd_conn k (\<lambda>pc. pc\<lparr>pc_state := ESTABLISHED\<rparr>) (sv_demux s))"
    by (rule conn_moves_upd) (use assms(2) sv_accept(2) in auto)
  then show ?thesis using assms(2) sv_accept by (simp add: demux_accept_def)
next
  case (sv_receive k r res dx)
  then show ?thesis using assms(2) conn_moves_receive [of c "sv_demux s" r k] by simp
qed (use assms(2) in \<open>simp_all add: conn_moves_close conn_moves_abort conn_moves_destroy\<close>)

lemma in_hands_step:
  assumes "in_hands p limit c s" and "server_step p limit idle_secs s s'"
  shows "in_hands p limit c s'" and "conn_state c s \<le> conn_state c s'"
proof -
  have i: "1 \<le> limit" "server_inv p limit s" "c \<notin> set (sv_waiting s)" "c < dx_next (sv_demux s)"
    using assms(1) by (simp_all add: in_hands_def)
  note m = server_conn_step [OF assms(2) i(3,4)]
  have "server_inv p limit s'" using server_inv_step assms(2) i(1,2) by blast
  then show "in_hands p limit c s'" using m i(1,4) by (simp add: in_hands_def conn_moves_def)
  show "conn_state c s \<le> conn_state c s'" using m by (simp add: conn_moves_def conn_state_def state_at_def)
qed

lemma conn_state_abort: "conn_state c (s\<lparr>sv_demux := passive_abort c (sv_demux s)\<rparr>) = CLOSED"
proof -
  have release: "map_of (dx_conns (passive_release c dx)) c = Some pc' \<Longrightarrow>
      \<exists>pc. map_of (dx_conns dx) c = Some pc \<and> pc_state pc' = pc_state pc" for dx :: "('a, chain) demux" and pc'
    by (auto simp: passive_release_def demux_release_def map_of_upd_conn split: option.splits if_splits)
  show ?thesis
    by (auto simp: conn_state_def passive_abort_def passive_close_def map_of_upd_conn split: option.split dest!: release)
qed

interpretation accepted: advancing_connection "conn_state c" "in_hands p limit c" "server_step p limit idle_secs" "passive_aborts c"
    "passive_send_refused f m c"
  for c p limit idle_secs f m
proof
  show "in_hands p limit c s'" if "in_hands p limit c s" "server_step p limit idle_secs s s'" for s s'
    using in_hands_step(1) [OF that] .
  show "conn_state c s \<le> conn_state c s'" if "in_hands p limit c s" "server_step p limit idle_secs s s'" for s s'
    using in_hands_step(2) [OF that] .
  then show "conn_state c s' = CLOSED"
    if "in_hands p limit c s" "server_step p limit idle_secs s s'" "conn_state c s = CLOSED" for s s'
    using that by fastforce
  show "server_step p limit idle_secs s s' \<and> conn_state c s' = CLOSED"
    if "in_hands p limit c s" "passive_aborts c s s'" for s s'
    using that sv_abort [of c s p limit idle_secs] conn_state_abort by (auto simp: passive_aborts_def in_hands_def)
  show "refuses SEND_ERROR (passive_send_refused f m c s)" if "conn_state c s = CLOSED" for s
    using that by (auto simp: refuses_def passive_send_refused_def refusal_of_def passive_send_start_def conn_state_def
        split: option.splits)
qed

section \<open>Properties\<close>

lemma accepted_in_hands:
  assumes "server_reachable p limit idle_secs s" and "1 \<le> limit" and "c \<in> set (accepted s)"
  shows "in_hands p limit c s"
proof -
  have inv: "server_inv p limit s" using assms(1,2) by (rule server_inv_reachable)
  then have "\<forall>q\<in>set (dx_conns (sv_demux s)). fst q < dx_next (sv_demux s)"
    by (simp add: server_inv_def table_ok_def demux_inv_def)
  then show ?thesis using inv assms(2,3) by (auto simp: in_hands_def accepted_def)
qed

text \<open>
  C11. Once a connection is handed out, whatever the application and the event loop do, in any order, its state
  never goes back in the order ESTABLISHING, ESTABLISHED, CLOSING, CLOSED, for every class of connections. And
  \<open>abort()\<close> is final: whatever happens afterwards, the connection is CLOSED and refuses to send with SEND_ERROR
  and INVALID_STATE; TCP connections and initiated UDP connections also refuse to receive. For a connection that
  a UDP listener has accepted this includes everything that happens to the listener, its table and the others.
\<close>

theorem aborted_is_final:
  assumes "server_reachable p (max_connections getenv) (idle_timeout getenv) s" and "c \<in> set (accepted s)"
  shows "(\<forall>t'. (held_step tls)\<^sup>*\<^sup>* (h, t) t' \<longrightarrow> tc_state t \<le> tc_state (snd t')) \<and>
    (\<forall>u'. active_step\<^sup>*\<^sup>* u u' \<longrightarrow> au_state u \<le> au_state u') \<and>
    (\<forall>s'. (server_step p (max_connections getenv) (idle_timeout getenv))\<^sup>*\<^sup>* s s' \<longrightarrow>
      conn_state c s \<le> conn_state c s') \<and>
    (\<forall>t'. (tcp_step tls)\<^sup>*\<^sup>* (h, snd (tcp_abort ec t)) t' \<longrightarrow>
      tc_state (snd t') = CLOSED \<and> refuses SEND_ERROR (refusal_of (send_start (fst t') m (snd t'))) \<and>
      refuses RECEIVE_ERROR (receive_refused (snd t'))) \<and>
    (\<forall>u'. active_step\<^sup>*\<^sup>* (snd (active_abort ec u)) u' \<longrightarrow>
      au_state u' = CLOSED \<and> refuses SEND_ERROR (refusal_of (active_send_start h m u')) \<and>
      refuses RECEIVE_ERROR (active_receive_refused h u')) \<and>
    (\<forall>s'. (server_step p (max_connections getenv) (idle_timeout getenv))\<^sup>*\<^sup>*
        (s\<lparr>sv_demux := passive_abort c (sv_demux s)\<rparr>) s' \<longrightarrow>
      conn_state c s' = CLOSED \<and> refuses SEND_ERROR (passive_send_refused f m c s'))"
proof (intro conjI allI impI)
  have s: "in_hands p (max_connections getenv) c s"
    using assms(1) max_connections_pos assms(2) by (rule accepted_in_hands)
  show "tc_state t \<le> tc_state (snd t')" if "(held_step tls)\<^sup>*\<^sup>* (h, t) t'" for t'
    using held.advances [OF that] by simp
  show "au_state u \<le> au_state u'" if "active_step\<^sup>*\<^sup>* u u'" for u'
    using initiated_forward.advances [OF that] by simp
  show "conn_state c s \<le> conn_state c s'"
    if "(server_step p (max_connections getenv) (idle_timeout getenv))\<^sup>*\<^sup>* s s'" for s'
    using accepted.advances [OF that s] by simp
  have t: "tcp_aborts (h, t) (h, snd (tcp_abort ec t))" by (auto simp: tcp_aborts_def)
  show "tc_state (snd t') = CLOSED" "refuses SEND_ERROR (refusal_of (send_start (fst t') m (snd t')))"
    "refuses RECEIVE_ERROR (receive_refused (snd t'))"
    if "(tcp_step tls)\<^sup>*\<^sup>* (h, snd (tcp_abort ec t)) t'" for t'
    using tcp.abort_is_final [OF TrueI t that] tcp.abort_ends_receiving [OF TrueI t that] by blast+
  have u: "active_aborts u (snd (active_abort ec u))" by (auto simp: active_aborts_def)
  show "au_state u' = CLOSED" "refuses SEND_ERROR (refusal_of (active_send_start h m u'))"
    "refuses RECEIVE_ERROR (active_receive_refused h u')"
    if "active_step\<^sup>*\<^sup>* (snd (active_abort ec u)) u'" for u'
    using initiated.abort_is_final [OF TrueI u that] initiated.abort_ends_receiving [OF TrueI u that] by blast+
  show "conn_state c s' = CLOSED" "refuses SEND_ERROR (passive_send_refused f m c s')"
    if "(server_step p (max_connections getenv) (idle_timeout getenv))\<^sup>*\<^sup>*
        (s\<lparr>sv_demux := passive_abort c (sv_demux s)\<rparr>) s'" for s'
    using accepted.abort_is_final [OF s _ that] by (auto simp: passive_aborts_def)
qed

text \<open>As long as its source is in the table, a connection can send, also after the listener has stopped or gone.\<close>

lemma send_while_known:
  assumes "server_reachable p limit idle_secs s" and "1 \<le> limit" and "dx_lru (sv_demux s) \<noteq> []" and "pc_state pc \<noteq> CLOSED"
  shows "passive_send f None m pc s = Inr ()"
proof -
  have "life_ok (sv_demux s)"
    using server_inv_reachable [OF assms(1,2)] by (simp add: server_inv_def table_ok_def)
  then have "dx_open (sv_demux s)" using assms(3) by (auto simp: life_ok_def)
  then show ?thesis
    using assms(4) by (simp add: passive_send_def passive_send_start_def demux_send_to_def passive_send_done_def)
qed

lemma demo_server_accepted:
  obtains p c and s :: "nat server" where "server_reachable p 1024 30 s" and "c \<in> set (accepted s)"
proof -
  obtain p and s :: "nat server" where s: "server_reachable p 1024 30 s"
    "map fst (dx_conns (sv_demux s)) = [0]" "sv_waiting s = [0]"
    by (rule demo_server_datagram)
  let ?dx = "upd_conn 0 (\<lambda>pc. pc\<lparr>pc_state := ESTABLISHED\<rparr>) (sv_demux s)"
  let ?s = "s\<lparr>sv_demux := snd (demux_accept (Some 0) (sv_demux s)), sv_waiting := []\<rparr>"
  have "map_of (dx_conns (sv_demux s)) 0 \<noteq> None"
    unfolding map_of_eq_None_iff using arg_cong [OF s(2), of set] by simp
  then have "0 \<in> fst ` set (dx_conns ?dx)"
    using map_of_upd_conn [of 0 "\<lambda>pc. pc\<lparr>pc_state := ESTABLISHED\<rparr>" "sv_demux s" 0]
      map_of_eq_None_iff [of "dx_conns ?dx" 0] by auto
  then have "0 \<in> set (accepted ?s)" by (simp add: accepted_def demux_accept_def)
  moreover have "server_reachable p 1024 30 ?s" using s(1) server_step.sv_accept [OF s(3)] by (rule sv_step)
  ultimately show ?thesis using that by blast
qed

lemma aborted_is_final_witness:
  "\<exists>p c (s :: nat server). server_reachable p 1024 30 s \<and> c \<in> set (accepted s) \<and>
    conn_state c (s\<lparr>sv_demux := passive_abort c (sv_demux s)\<rparr>) = CLOSED"
proof -
  obtain p c and s :: "nat server" where s: "server_reachable p 1024 30 s" "c \<in> set (accepted s)"
    by (rule demo_server_accepted)
  then have "server_reachable p (max_connections (\<lambda>_. None)) (idle_timeout (\<lambda>_. None)) s" by (simp add: no_environment)
  from aborted_is_final [OF this s(2)] show ?thesis using s by blast
qed

text \<open>
  C39. An accepted UDP connection does not check that it is closed before it receives: after \<open>close()\<close>, also when the
  source has left the table and the mailbox is closed, \<open>receive()\<close> still delivers the datagrams that were queued,
  on a connection whose \<open>can_receive()\<close> is false.
\<close>

definition closed_run :: "(nat, nat) demux" where
  "closed_run = run_task (passive_close 0 (snd (demux_accept (Some 0) demo_demux)))"

theorem closed_connection_still_receives:
  "demux_reachable 1024 30 (0, closed_run) \<and> dx_lru closed_run = [] \<and>
    (\<exists>pc. map_of (dx_conns closed_run) 0 = Some pc \<and> pc_state pc = CLOSED \<and> pc_released pc \<and>
      \<not> base_can_receive (pc_state pc)) \<and>
    fst (passive_receive 0 0 closed_run) = Some (Inr 100)"
proof -
  let ?a = "snd (demux_accept (Some 0) demo_demux)" and ?b = "passive_close 0 (snd (demux_accept (Some 0) demo_demux))"
  have "demux_reachable 1024 30 (0, ?b)"
    using dreach_step [OF dreach_step [OF demo_demux_reachable dstep_accept] dstep_close] .
  moreover have "dx_posted ?b \<noteq> []" by code_simp
  ultimately have "demux_reachable 1024 30 (0, closed_run)"
    unfolding closed_run_def by (blast intro: dreach_step dstep_task)
  moreover have "map_of (dx_conns closed_run) 0 = Some \<lparr>pc_remote = 1, pc_mailbox = 7, pc_state = CLOSED,
      pc_aborted = False, pc_released = True\<rparr>"
    by code_simp
  moreover have "dx_lru closed_run = []" by code_simp
  moreover have "fst (passive_receive 0 0 closed_run) = Some (Inr 100)" by code_simp
  ultimately show ?thesis by (simp add: base_can_receive_def)
qed

end
