(* ===== verification/Error_Events.thy ===== *)
theory Error_Events
  imports Connections Listeners
begin

text \<open>
  Which event an error carries. The events name the operation that failed (RFC 9622), and applications
  choose their reaction by them, so every operation may raise only its own; what ends a connection as a whole
  is a CONNECTION_ERROR in all of them.
\<close>

definition raises :: "ErrorEvent set \<Rightarrow> 'a result \<Rightarrow> bool" where
  "raises S r \<longleftrightarrow> (case r of Inl e \<Rightarrow> err_event e \<in> S | Inr _ \<Rightarrow> True)"

lemma raises_simps [simp]: "raises S (Inl e) = (err_event e \<in> S)" "raises S (Inr x)"
  by (simp_all add: raises_def)

lemma raises_map: "raises S r \<Longrightarrow> r = Inl e \<Longrightarrow> err_event e \<in> S"
  by simp

section \<open>Establishing\<close>

lemma raises_config_fail [simp]: "raises {ESTABLISHMENT_ERROR} (config_fail msg)"
  by (simp add: config_fail_def)

lemma raises_load_anchors: "raises {ESTABLISHMENT_ERROR} (load_anchors load anchors ctx)"
  by (induction load anchors ctx rule: load_anchors.induct) (simp_all split: option.split)

lemma raises_create_provider: "raises {ESTABLISHMENT_ERROR} (create_provider ssl params role)"
proof -
  have "raises {ESTABLISHMENT_ERROR} (client_setup ssl params ctx)" "raises {ESTABLISHMENT_ERROR} (server_setup ssl params ctx)"
    "raises {ESTABLISHMENT_ERROR} (cipher_setup ssl params ctx)" "raises {ESTABLISHMENT_ERROR} (group_setup ssl params ctx)"
    "raises {ESTABLISHMENT_ERROR} (alpn_setup ssl params role ctx)" for ctx
    by (simp_all add: client_setup_def server_setup_def cipher_setup_def group_setup_def alpn_setup_def Let_def
        raises_load_anchors split: option.split)
  note raises_map [OF this(1)] raises_map [OF this(2)] raises_map [OF this(3)] raises_map [OF this(4)] this(5)
  then show ?thesis by (auto simp: create_provider_def split: sum.split)
qed

lemma raises_secure: "raises {ESTABLISHMENT_ERROR} (secure p ss server_name)"
  by (auto simp: secure_def handshake_client_def handshake_server_def handshake_failed_def Let_def
      split: sum.split option.split)

lemma raises_apply_security: "raises S r \<Longrightarrow> raises S (fst (apply_security_done r c))"
  by (cases r) (simp_all add: apply_security_done_def)

lemma raises_connect_done: "raises {ESTABLISHMENT_ERROR} (fst (connect_done completion c))"
  by (auto simp: connect_done_def Let_def split: sum.split prod.split)

definition outcome_raises :: "ErrorEvent set \<Rightarrow> 'a result outcome_of \<Rightarrow> bool" where
  "outcome_raises S out \<longleftrightarrow> (case out of Returned r \<Rightarrow> raises S r | Thrown \<Rightarrow> True)"

lemma outcome_raises_simps [simp]: "outcome_raises S (Returned r) = raises S r" "outcome_raises S Thrown"
  by (simp_all add: outcome_raises_def)

lemma raises_failed [simp]: "outcome_raises S (fst (failed e pre w)) = (err_event e \<in> S)"
  by (simp add: failed_def)

lemma raises_establish: "outcome_raises {ESTABLISHMENT_ERROR} (fst (establish_connection env i e c pre w))"
proof -
  have p: "err_event err = ESTABLISHMENT_ERROR"
    if "(case pr_provider pre of Some p \<Rightarrow> Inr p | None \<Rightarrow> create_provider (ev_ssl env) (pr_security pre) Client) = Inl err" for err
    using that raises_map [OF raises_create_provider] by (auto split: option.splits)
  have a: "err_event err = ESTABLISHMENT_ERROR" if "apply_security_done (secure p ss n) c = (Inl err, c1)" for p ss n err c1
    using raises_apply_security [OF raises_secure, of p ss n c] that by simp
  show ?thesis
    by (auto simp: establish_connection_def Let_def dest!: p a split: sum.split prod.split)
qed

lemma raises_attempt:
  "attempt env i e pre w = (Some (Inl err, c), w1) \<Longrightarrow> err_event err = ESTABLISHMENT_ERROR"
  using raises_connect_done [of "ev_connect env i e"]
  by (auto simp: attempt_def split: prod.splits option.splits) (metis fst_conv raises_simps(1) singletonD)

lemma raises_race: "outcome_raises {ESTABLISHMENT_ERROR} (fst (race_from env pre n le i es w))"
  by (induction env pre n le i es w rule: race_from.induct)
    (auto simp: raises_establish Let_def split: prod.split option.split sum.split)

lemma raises_udp_candidates: "outcome_raises {ESTABLISHMENT_ERROR} (fst (udp_candidates env pre rs w))"
  by (induction env pre rs w rule: udp_candidates.induct)
    (auto simp: active_open_def failed_def split: prod.split option.split sum.split list.split)

lemma raises_initiate: "outcome_raises {ESTABLISHMENT_ERROR} (fst (initiate env pre w))"
  by (auto simp: initiate_def initiate_udp_def initiate_with_single_endpoint_def happy_eyeballs_racing_def
      race_connections_def raises_race raises_udp_candidates raises_establish Let_def
      split: list.split prod.split option.split sum.split dest: raises_attempt)

section \<open>Receiving over TCP\<close>

definition receive_raises :: "ErrorEvent set \<Rightarrow> receiving \<Rightarrow> bool" where
  "receive_raises S r \<longleftrightarrow> (case r of Done res \<Rightarrow> raises S res | _ \<Rightarrow> True)"

lemma receive_raises_simps [simp]:
  "receive_raises S (Done res) = raises S res" "receive_raises S (Reading n)" "receive_raises S Raised"
  by (simp_all add: receive_raises_def)

abbreviation receive_events :: "ErrorEvent set" where
  "receive_events \<equiv> {RECEIVE_ERROR, CONNECTION_ERROR}"

lemma raises_fail_with: "err_event e \<in> receive_events \<Longrightarrow> receive_raises receive_events (fst (fail_with e s))"
  by (auto simp: fail_with_def receive_failure_def Let_def split: prod.split)

lemma raises_await_read: "receive_raises receive_events (fst (await_read s))"
proof -
  have "err_event e \<in> receive_events" if "start_read s = (Returned (Inl e), s1)" for e s1
    using that by (auto simp: start_read_def Let_def split: prod.splits option.splits if_splits)
  then show ?thesis by (auto simp: await_read_def raises_fail_with split: prod.split outcome_of.split sum.split)
qed

lemma raises_gather_if: "receive_raises S (fst (gather_if g m s))"
  by (auto simp: gather_if_def split: prod.split option.split)

lemma raises_deliver_record: "receive_raises S (fst (deliver_record pr s))"
  by (auto simp: deliver_record_def Let_def raises_gather_if split: prod.split option.split)

lemma raises_empty_message: "receive_raises S (fst (empty_message e s))"
  by (auto simp: empty_message_def split: prod.split option.split)

lemma raises_framed_turn: "receive_raises receive_events (fst (framed_turn f s))"
  by (auto simp: framed_turn_def Let_def raises_deliver_record raises_empty_message raises_await_read
      split: prod.split intro!: raises_fail_with)

lemma raises_finish_read: "finish_read tls ev s = (Inl e, s') \<Longrightarrow> err_event e \<in> receive_events"
  using read_failure_event_cases [of tls] by (auto simp: finish_read_def Let_def split: prod.splits read_event.splits if_splits)

lemma raises_receive:
  "receive_raises receive_events (fst (receive_start f s))"
  "receive_raises receive_events (fst (receive_resume tls f ev s))"
proof -
  show "receive_raises receive_events (fst (receive_start f s))"
    by (auto simp: receive_start_def receive_refused_def raises_framed_turn raises_await_read split: option.split)
  have "receive_raises receive_events (fst (chunk_message r t))" for r t
    by (auto simp: chunk_message_def split: prod.split option.split bool.split)
  then show "receive_raises receive_events (fst (receive_resume tls f ev s))"
    by (auto simp: receive_resume_def framed_resume_def unframed_resume_def raises_framed_turn raises_empty_message
        dest: raises_finish_read intro!: raises_fail_with split: option.split prod.split sum.split bool.split)
qed

section \<open>Closing\<close>

lemma raises_drain: "drain_until_eof reads = Some r \<Longrightarrow> raises {CONNECTION_ERROR} r"
  by (induction reads rule: drain_until_eof.induct) (auto split: if_splits)

lemma raises_shutdown: "stream_shutdown st ec reads = Some r \<Longrightarrow> raises {CONNECTION_ERROR} r"
  by (auto simp: stream_shutdown_def plain_shutdown_def tls_shutdown_def
      split: byte_stream.splits option.splits if_splits dest: raises_drain)

lemma raises_close_done: "raises {CONNECTION_ERROR} sd \<Longrightarrow> raises {CONNECTION_ERROR} (fst (close_done sd ec c))"
  by (auto simp: close_done_def Let_def split: sum.split option.split)

section \<open>UDP\<close>

definition udp_raises :: "ErrorEvent set \<Rightarrow> udp_receiving \<Rightarrow> bool" where
  "udp_raises S r \<longleftrightarrow> (case r of Udp_Done res \<Rightarrow> raises S res | _ \<Rightarrow> True)"

lemma udp_failure_event: "err_event (udp_failure ev ec ab) \<in> {ev, CONNECTION_ERROR}"
  by (simp add: udp_failure_def cancelled_def)

lemma close_error_event: "err_event (close_error cause ab) \<in> receive_events"
  by (cases cause) (simp_all add: close_error_def cancelled_def)

lemma raises_active_receive:
  "udp_raises receive_events (fst (active_receive_start u h))"
  "udp_raises receive_events (fst (active_receive_done u b ev h))"
  using udp_failure_event [of RECEIVE_ERROR]
  by (auto simp: udp_raises_def active_receive_start_def active_receive_done_def Let_def
      split: prod.split option.split read_event.split)

lemma raises_passive_receive:
  "case fst (passive_receive r c dx) of None \<Rightarrow> True | Some res \<Rightarrow> raises receive_events res"
  using close_error_event by (auto simp: passive_receive_def Let_def split: option.split prod.split look.split)

section \<open>Listening\<close>

lemma raises_tcp_listen: "raises {ESTABLISHMENT_ERROR} (fst (tcp_listen with_tls rs bind ssl l))"
  using raises_create_provider [of ssl "tl_security l" Server]
  by (auto simp: tcp_listen_def reject_security_def Let_def split: bind_result.split sum.split option.split)

lemma raises_udp_listen: "raises {ESTABLISHMENT_ERROR} (fst (udp_listen rs bind l))"
  by (auto simp: udp_listen_def demux_start_def split: list.split option.split)

lemma raises_plain_accept:
  "plain_accept memory answers h = Some (out, h') \<Longrightarrow> outcome_raises {ESTABLISHMENT_ERROR} out"
  by (induction memory answers h rule: plain_accept.induct) (auto split: if_splits prod.splits option.splits)

lemma raises_sa_accept: "raises {ESTABLISHMENT_ERROR} (sa_accept got)"
  by (auto simp: sa_accept_def split: sum.split)

lemma raises_tcp_accept:
  "tcp_accept answers channel l h = Some (out, h') \<Longrightarrow> outcome_raises {ESTABLISHMENT_ERROR} out"
  by (auto simp: tcp_accept_def raises_sa_accept dest: raises_plain_accept split: if_splits)

lemma raises_services_listen:
  "raises {ESTABLISHMENT_ERROR} (fst (services_listen with_tls rs tb ub ssl what local props security s))"
  using raises_tcp_listen [of with_tls rs tb ssl] raises_udp_listen [of rs ub]
  by (auto simp: services_listen_def split: prod.split option.split sum.split) (metis fst_conv raises_simps(1) singletonD)+

section \<open>Properties\<close>

text \<open>
  C14. Every error names the operation that failed. Initiating, listening and accepting raise
  ESTABLISHMENT_ERROR; sending raises SEND_ERROR, receiving RECEIVE_ERROR, and both CONNECTION_ERROR for what
  ends the connection or was aborted; closing and aborting raise CONNECTION_ERROR. This holds for both
  protocols, with and without security, whatever the system, the peer and the TLS library answer.
\<close>

theorem errors_name_their_operation:
  "outcome_raises {ESTABLISHMENT_ERROR} (fst (initiate env pre w)) \<and>
    raises {ESTABLISHMENT_ERROR} (fst (services_listen tls rs tb ub ssl what local props security s)) \<and>
    (case tcp_accept answers channel lst h of None \<Rightarrow> True | Some out \<Rightarrow> outcome_raises {ESTABLISHMENT_ERROR} (fst out)) \<and>
    raises {ESTABLISHMENT_ERROR} (fst (udp_accept got ulst)) \<and>
    raises {SEND_ERROR} (send_start h m t) \<and> raises {SEND_ERROR, CONNECTION_ERROR} (fst (send_done ec t)) \<and>
    raises {SEND_ERROR} (active_send_start h m u) \<and>
    raises {SEND_ERROR, CONNECTION_ERROR} (active_send_done ec sent expected u) \<and>
    raises {SEND_ERROR} (passive_send_start f h m pc) \<and> raises {SEND_ERROR, CONNECTION_ERROR} (passive_send_done ec pc) \<and>
    receive_raises {RECEIVE_ERROR, CONNECTION_ERROR} (fst (receive_start f (h, t))) \<and>
    receive_raises {RECEIVE_ERROR, CONNECTION_ERROR} (fst (receive_resume tls f ev (h, t))) \<and>
    udp_raises {RECEIVE_ERROR, CONNECTION_ERROR} (fst (active_receive_start u h)) \<and>
    udp_raises {RECEIVE_ERROR, CONNECTION_ERROR} (fst (active_receive_done u b ev h)) \<and>
    (case fst (passive_receive r c dx) of None \<Rightarrow> True | Some res \<Rightarrow> raises {RECEIVE_ERROR, CONNECTION_ERROR} res) \<and>
    (case stream_shutdown (tc_stream t) sd reads of
       None \<Rightarrow> True | Some res \<Rightarrow> raises {CONNECTION_ERROR} (fst (close_done res ec t))) \<and>
    raises {CONNECTION_ERROR} (fst (tcp_abort ec t)) \<and>
    raises {CONNECTION_ERROR} (fst (active_close ec u)) \<and> raises {CONNECTION_ERROR} (fst (active_abort ec u))"
proof (intro conjI)
  show "case tcp_accept answers channel lst h of None \<Rightarrow> True | Some out \<Rightarrow> outcome_raises {ESTABLISHMENT_ERROR} (fst out)"
    using raises_tcp_accept [of answers channel lst h] by (auto split: option.split)
  show "raises {ESTABLISHMENT_ERROR} (fst (udp_accept got ulst))"
    by (auto simp: udp_accept_def demux_accept_def split: option.split)
  show "raises {SEND_ERROR} (send_start h m t)" "raises {SEND_ERROR, CONNECTION_ERROR} (fst (send_done ec t))"
    "raises {SEND_ERROR} (active_send_start h m u)" "raises {SEND_ERROR} (passive_send_start f h m pc)"
    by (simp_all add: send_start_def send_done_def active_send_start_def passive_send_start_def split: option.split)
  show "raises {SEND_ERROR, CONNECTION_ERROR} (active_send_done ec sent expected u)"
    "raises {SEND_ERROR, CONNECTION_ERROR} (passive_send_done ec pc)"
    using udp_failure_event [of SEND_ERROR]
    by (simp_all add: active_send_done_def passive_send_done_def split: option.split)
  show "case stream_shutdown (tc_stream t) sd reads of None \<Rightarrow> True | Some res \<Rightarrow> raises {CONNECTION_ERROR} (fst (close_done res ec t))"
    using raises_shutdown raises_close_done by (auto split: option.split)
  show "raises {CONNECTION_ERROR} (fst (tcp_abort ec t))" "raises {CONNECTION_ERROR} (fst (active_close ec u))"
    "raises {CONNECTION_ERROR} (fst (active_abort ec u))"
    by (simp_all add: tcp_abort_def active_abort_def active_close_def Let_def split: option.split)
qed (rule raises_initiate raises_services_listen raises_receive raises_active_receive raises_passive_receive)+

end
