(* ===== verification/Tcp_Unframed.thy ===== *)
theory Tcp_Unframed
  imports Tcp_Stream
begin

text \<open>
  A TCP connection without a framer: \<open>receive()\<close> delivers the byte stream in the pieces in which it arrives,
  each as an incomplete message, and the end of the stream as an empty complete one.
\<close>

section \<open>One receive\<close>

lemma chunk_message_granted:
  assumes "h_grants h = []"
  shows "fst (chunk_message r (h, c)) \<noteq> Raised"
proof -
  obtain h1 mc where 1: "make_chain (pool_resource (tc_pool c)) (h, empty_chain) = (h1, mc)" by fastforce
  then obtain ch where mc: "mc = Some ch" using make_chain_granted [OF assms] by (metis option.exhaust snd_conv)
  have "h_grants h1 = []" using later_make_chain [OF 1] assms by (simp add: later_def)
  then have "fst (chain_append r (h1, ch))" by (rule append_granted)
  then show ?thesis by (cases "chain_append r (h1, ch)") (simp add: chunk_message_def 1 mc)
qed

lemma unframed_next:
  assumes st: "receiving_stream [] R X (h, c)" and room: "size R + 3 < 2 ^ 32" and pending: "pending \<noteq> []"
  obtains bytes rest m h' c' where "pending = bytes @ rest" "bytes \<noteq> []"
    "receive_run tls pick None pending (receive_start None (h, c)) = Some (Done (Inr m), (h', c'), rest)"
    "receiving_stream [] (message_refs m + R) (message_units m + X) (h', c')"
    "message_ok h' m" "message_bytes h' m = bytes" "\<not> msg_eom m" "same_bytes R h h'" "tc_pool c' = tc_pool c"
    "tc_framer c' = tc_framer c"
proof -
  have inv: "tcp_inv h c R X" and g: "h_grants h = []" "pool_live (tc_pool c) = None"
    using st by (simp_all add: receiving_stream_def)
  obtain n h1 c1 where 1: "await_read (h, c) = (Reading n, h1, c1)" "tcp_inv h1 c1 R X" "same_conn c c1"
    "chain_bytes h1 (tc_chain c1) = chain_bytes h (tc_chain c)" "same_bytes R h h1" "later h h1"
    "ref_valid (tc_current c1)" "n = capacity_after_begin h1 (tc_current c1)" "reuse_threshold c \<le> n"
    "tc_message_open c1 = tc_message_open c" "ch_count (tc_chain c1) = ch_count (tc_chain c)"
    by (rule await_read_granted [OF inv g])
  have "0 < reuse_threshold c"
    using st by (simp add: receiving_stream_def reuse_threshold_def div_greater_zero_iff)
  then have "0 < n" using 1(9) by simp
  then obtain bytes rest where 2: "socket_read pick pending n = (Data bytes, rest)" "pending = bytes @ rest"
    "bytes \<noteq> []" "length bytes \<le> n"
    using pending by (rule socket_read_some)
  obtain b where b: "br_blk (tc_current c1) = Some b" using 1(7) by (auto simp: ref_valid_def)
  have empty: "chain_bytes h1 (tc_chain c1) = []" using 1(4) st by (simp add: receiving_stream_def)
  then have "ch_size (tc_chain c1) = 0" using chain_bytes_length [OF tcp_inv_parts(2,5) [OF 1(2)]] by simp
  then have none: "ch_live (tc_chain c1) = []" using chain_count_le(1) [OF tcp_inv_parts(2) [OF 1(2)]] by simp
  obtain res h2 c2 where fin: "finish_read tls (Data bytes) (h1, c1) = (res, h2, c2)" using prod_cases3 by blast
  obtain r where r: "res = Inr r" "br_blk r = Some b" "ref_bytes h2 r = bytes" "same_conn c1 c2"
    "tc_chain c2 = tc_chain c1" "tcp_mem h2 c2 (add_mset r R) X" "same_bytes R h1 h2" "later h1 h2"
    "tc_message_open c2 = tc_message_open c1"
    using finish_read_data [OF tcp_inv_parts(1) [OF 1(2)] b _ _ fin] 2(4) 1(8) room none
    by (simp add: same_bytes_union) metis
  have ok: "chain_ok (tc_chain c2)" using r(5) tcp_inv_parts(2) [OF 1(2)] by simp
  obtain out h3 c3 where run: "chunk_message r (h2, c2) = (out, h3, c3)" using prod_cases3 by blast
  note k = chunk_message_correct [OF r(6) ok run]
  have l2: "later h h2" using 1(6) r(8) by (rule later_trans)
  then have g2: "h_grants h2 = []" using g(1) by (simp add: later_def)
  then have "out \<noteq> Raised" using chunk_message_granted [OF g2, of r c2] run by simp
  then obtain m where m: "out = Done (Inr m)" "message_bytes h3 m = ref_bytes h2 r" "\<not> msg_eom m"
    using k(3) by (auto split: receiving.splits sum.splits)
  have s: "same_bytes R h2 h3" "later h2 h3" "tcp_inv h3 c3 (message_refs m + R) (message_units m + X)" "message_ok h3 m"
    using k(1) by (simp_all add: receive_safe_def m(1))
  have "h_grants h3 = []" using s(2) g2 by (simp add: later_def)
  moreover have "chain_bytes h3 (tc_chain c3) = []"
    using none r(5) k(2) by (simp add: chain_bytes_def refs_bytes_def)
  ultimately have "receiving_stream [] (message_refs m + R) (message_units m + X) (h3, c3)"
    using st s(3) 1(3,10) r(4,9) k(2) by (auto simp: receiving_stream_def same_conn_def can_receive_def)
  moreover have "receive_run tls pick None pending (receive_start None (h, c)) = Some (Done (Inr m), (h3, c3), rest)"
    using st run m(1) r(1,2) fin 2(1)
    by (simp add: receive_start_def receive_refused_def receiving_stream_def 1(1) receive_resume_def unframed_resume_def
        ref_valid_def)
  moreover have "same_bytes R h h3" using 1(5) r(7) s(1) by (blast intro: same_bytes_trans)
  moreover have "tc_pool c3 = tc_pool c" "tc_framer c3 = tc_framer c"
    using 1(3) r(4) k(2) by (simp_all add: same_conn_def)
  ultimately show ?thesis using that [OF 2(2,3)] s(4) m r(3) by simp
qed

lemma unframed_end:
  assumes st: "receiving_stream [] R X (h, c)"
  shows "\<exists>m h' c'. receive_run tls pick None [] (receive_start None (h, c)) = Some (Done (Inr m), (h', c'), []) \<and>
    tcp_inv h' c' (message_refs m + R) (message_units m + X) \<and> message_ok h' m \<and> message_bytes h' m = [] \<and>
    msg_eom m \<and> same_bytes R h h' \<and> tc_ended c' \<and> tc_state c' = tc_state c \<and> tc_pool c' = tc_pool c \<and>
    tc_framer c' = tc_framer c \<and> h_grants h' = []"
proof -
  have inv: "tcp_inv h c R X" and g: "h_grants h = []" "pool_live (tc_pool c) = None"
    using st by (simp_all add: receiving_stream_def)
  obtain n h1 c1 where 1: "await_read (h, c) = (Reading n, h1, c1)" "tcp_inv h1 c1 R X" "same_conn c c1"
    "chain_bytes h1 (tc_chain c1) = chain_bytes h (tc_chain c)" "same_bytes R h h1" "later h h1"
    "ref_valid (tc_current c1)" "n = capacity_after_begin h1 (tc_current c1)" "reuse_threshold c \<le> n"
    "tc_message_open c1 = tc_message_open c" "ch_count (tc_chain c1) = ch_count (tc_chain c)"
    by (rule await_read_granted [OF inv g])
  have "0 < reuse_threshold c"
    using st by (simp add: receiving_stream_def reuse_threshold_def div_greater_zero_iff)
  then have "0 < n" using 1(9) by simp
  let ?c2 = "c1\<lparr>tc_eof := True, tc_ended := True\<rparr>"
  have "h_grants h1 = []" using g(1) 1(6) by (simp add: later_def)
  then obtain h2 ch where mk: "make_chain (pool_resource (tc_pool c1)) (h1, empty_chain) = (h2, Some ch)"
    using make_chain_granted by (metis option.collapse prod.collapse)
  let ?m = "message_of_chain (pool_resource (tc_pool c1), ch) default_context True"
  have e: "empty_message True (h1, ?c2) = (Done (Inr ?m), h2, ?c2)" by (simp add: empty_message_def mk)
  have "tcp_inv h1 ?c2 R X" using 1(2) by simp
  from empty_message_safe [OF this, of True]
  have s: "tcp_inv h2 c1 (message_refs ?m + R) (message_units ?m + X)" "chain_ok ch" "same_bytes R h1 h2" "later h1 h2"
    by (simp_all add: e receive_safe_def)
  have "heap_inv h1 (mset (ch_live empty_chain) + add_mset (tc_current c1) (mset (ch_live (tc_chain c1)) + R))
      (chain_units empty_chain + (chain_units (tc_chain c1) + X))"
    using tcp_inv_parts(4) [OF 1(2)] by (simp add: chain_units_empty)
  from make_chain_correct [OF chain_ok_empty(1) this mk] have b: "chain_bytes h2 ch = []"
    by (simp add: chain_bytes_def)
  have run: "receive_run tls pick None [] (receive_start None (h, c)) = Some (Done (Inr ?m), (h2, ?c2), [])"
    using \<open>0 < n\<close> st e
    by (simp add: receive_start_def receive_refused_def receiving_stream_def 1(1) socket_read_def receive_resume_def
        unframed_resume_def finish_read_def end_of_file_def ref_valid_def ref_null_def)
  have "same_bytes R h h2" using 1(5) s(3) by (rule same_bytes_trans)
  moreover have "h_grants h2 = []" using s(4) \<open>h_grants h1 = []\<close> by (simp add: later_def)
  ultimately show ?thesis
    using run s(1,2) b 1(3) by (intro exI [of _ ?m] exI [of _ h2] exI [of _ ?c2]) (simp add: same_conn_def)
qed

section \<open>The whole stream\<close>

lemma unframed_all:
  assumes "receiving_stream [] R X (h, c)" and "size R + 3 + length stream < 2 ^ 32"
  shows "\<exists>k msgs fin h' c'. receive_all tls pick None (Suc k) stream (h, c) = Some (msgs @ [fin], (h', c'), []) \<and>
    length msgs = k \<and> concat (map (message_bytes h') msgs) = stream \<and>
    (\<forall>m\<in>set msgs. message_bytes h' m \<noteq> [] \<and> \<not> msg_eom m) \<and> message_bytes h' fin = [] \<and> msg_eom fin \<and>
    (\<forall>m\<in>set (msgs @ [fin]). message_ok h' m) \<and> tc_ended c' \<and> same_bytes R h h' \<and>
    tcp_inv h' c' (sum_list (map message_refs (msgs @ [fin])) + R) (sum_list (map message_units (msgs @ [fin])) + X)"
  using assms
proof (induction "length stream" arbitrary: stream R X h c rule: less_induct)
  case less
  show ?case
  proof (cases "stream = []")
    case True
    obtain m h' c' where e: "receive_run tls pick None [] (receive_start None (h, c)) = Some (Done (Inr m), (h', c'), [])"
      "tcp_inv h' c' (message_refs m + R) (message_units m + X)" "message_ok h' m" "message_bytes h' m = []"
      "msg_eom m" "same_bytes R h h'" "tc_ended c'"
      using unframed_end [OF less.prems(1)] by blast
    have "receive_all tls pick None (Suc 0) [] (h, c) = Some ([m], (h', c'), [])" using e(1) by simp
    then show ?thesis
      using e(2-) True by (intro exI [of _ 0] exI [of _ "[]"] exI [of _ m] exI [of _ h'] exI [of _ c']) simp
  next
    case False
    have "size R + 3 < 2 ^ 32" using less.prems(2) by simp
    then obtain bytes rest m h1 c1 where n: "stream = bytes @ rest" "bytes \<noteq> []"
      "receive_run tls pick None stream (receive_start None (h, c)) = Some (Done (Inr m), (h1, c1), rest)"
      "receiving_stream [] (message_refs m + R) (message_units m + X) (h1, c1)"
      "message_ok h1 m" "message_bytes h1 m = bytes" "\<not> msg_eom m" "same_bytes R h h1"
      using unframed_next [OF less.prems(1) _ False] by metis
    have i1: "tcp_inv h1 c1 (message_refs m + R) (message_units m + X)" using n(4) by (simp add: receiving_stream_def)
    have "heap_inv h1 (message_refs m + (add_mset (tc_current c1) (mset (ch_live (tc_chain c1)) + R)))
        (chain_units (tc_chain c1) + (message_units m + X))"
      using tcp_inv_parts(4) [OF i1] by (simp add: add.left_commute)
    from message_refs_size [OF n(5) this] have "size (message_refs m) \<le> length bytes" using n(6) by simp
    then have room: "size (message_refs m + R) + 3 + length rest < 2 ^ 32" using less.prems(2) n(1) by simp
    have shorter: "length rest < length stream" using n(1,2) by simp
    obtain k msgs fin h' c' where r: "receive_all tls pick None (Suc k) rest (h1, c1) = Some (msgs @ [fin], (h', c'), [])"
      "length msgs = k" "concat (map (message_bytes h') msgs) = rest"
      "\<forall>m\<in>set msgs. message_bytes h' m \<noteq> [] \<and> \<not> msg_eom m" "message_bytes h' fin = []" "msg_eom fin"
      "\<forall>m\<in>set (msgs @ [fin]). message_ok h' m" "tc_ended c'" "same_bytes (message_refs m + R) h1 h'"
      "tcp_inv h' c' (sum_list (map message_refs (msgs @ [fin])) + (message_refs m + R))
        (sum_list (map message_units (msgs @ [fin])) + (message_units m + X))"
      using less.hyps [OF shorter n(4) room] by blast
    have run: "receive_all tls pick None (Suc (Suc k)) stream (h, c) = Some ((m # msgs) @ [fin], (h', c'), [])"
      unfolding append_Cons using n(3) r(1) by (rule receive_all_Suc)
    have "message_bytes h' m = bytes" "message_ok h' m"
      using same_bytes_message [of m h1 h'] r(9) n(5,6) by (auto simp: message_ok_def split: option.splits)
    moreover have "same_bytes R h h'" using n(8) r(9) by (auto intro: same_bytes_trans)
    moreover have "tcp_inv h' c' (sum_list (map message_refs ((m # msgs) @ [fin])) + R)
        (sum_list (map message_units ((m # msgs) @ [fin])) + X)"
      using r(10) by (simp add: ac_simps)
    ultimately show ?thesis
      using run r(2-8) n(1,2,7)
      by (intro exI [of _ "Suc k"] exI [of _ "m # msgs"] exI [of _ fin] exI [of _ h'] exI [of _ c']) simp
  qed
qed

section \<open>Properties\<close>

text \<open>
  C13. Without a framer a connection delivers the stream of the peer: after finitely many receives it has
  returned the stream's bytes, all of them, in order and once, in pieces that are never empty and are marked
  as incomplete, and then the empty complete message that marks the end. This holds however the network cuts
  the stream into reads. All pieces are intact at the end, and the memory is consistent with them.
\<close>

theorem unframed_stream:
  assumes "receiving_stream [] R X (h, c)" and "size R + 3 + length stream < 2 ^ 32"
  shows "\<exists>msgs fin h' c'.
    receive_all tls pick None (Suc (length msgs)) stream (h, c) = Some (msgs @ [fin], (h', c'), []) \<and>
    concat (map (message_bytes h') msgs) = stream \<and>
    (\<forall>m\<in>set msgs. message_bytes h' m \<noteq> [] \<and> \<not> msg_eom m) \<and> message_bytes h' fin = [] \<and> msg_eom fin \<and>
    (\<forall>m\<in>set (msgs @ [fin]). message_ok h' m) \<and> tc_ended c' \<and> same_bytes R h h' \<and>
    tcp_inv h' c' (sum_list (map message_refs (msgs @ [fin])) + R) (sum_list (map message_units (msgs @ [fin])) + X)"
  using unframed_all [OF assms] by blast

lemma unframed_stream_witness:
  "\<exists>msgs fin h' c'.
    receive_all False (\<lambda>_. 1) None (Suc (length msgs)) [1, 2, 3] (fresh_conn 8 (pass_framer_of True))
      = Some (msgs @ [fin], (h', c'), []) \<and>
    concat (map (message_bytes h') msgs) = [1, 2, 3]"
proof -
  let ?c = "fresh_conn 8 (pass_framer_of True)"
  have "receiving_stream [] {#} {#} (fst ?c, snd ?c)" using fresh_receiving by simp
  from unframed_stream [OF this, of "[1, 2, 3]" False "\<lambda>_. 1"]
  show ?thesis by (auto simp del: receive_all.simps)
qed

end
