(* ===== verification/Listening.thy ===== *)
theory Listening
  imports Listeners Connections
begin

text \<open>
  The interface \<open>Listener\<close> of taps_api.h and its two classes, over sequences of calls. The contract is the locale
  \<open>listening_contract\<close>: which calls make a listener listen and stop, and that it accepts only in between. It is
  met by TCP and by UDP listeners, and by the dispatch over both. \<open>single_listening\<close> adds that a listener that
  listens refuses to listen again, which only TCP listeners do.
\<close>

section \<open>The contract\<close>

text \<open>
  The operations, and what the event loop does between two calls. A call is logged with its success.
\<close>

datatype listener_op = Listen_Call | Accept_Call | Stop_Call | Event_Loop

type_synonym call_log = "(listener_op \<times> bool) list"

definition listening_then :: "bool \<Rightarrow> listener_op \<times> bool \<Rightarrow> bool" where
  "listening_then b call =
    (case call of (Listen_Call, True) \<Rightarrow> True | (Stop_Call, True) \<Rightarrow> False | _ \<Rightarrow> b)"

definition listening_after :: "bool \<Rightarrow> call_log \<Rightarrow> bool" where
  "listening_after b log = foldl listening_then b log"

primrec runs :: "(listener_op \<Rightarrow> bool \<Rightarrow> 'l \<Rightarrow> 'l \<Rightarrow> bool) \<Rightarrow> call_log \<Rightarrow> 'l \<Rightarrow> 'l \<Rightarrow> bool" where
  "runs call [] l l' \<longleftrightarrow> l' = l"
| "runs call (c # log) l l' \<longleftrightarrow> (\<exists>l1. call (fst c) (snd c) l l1 \<and> runs call log l1 l')"

lemma listening_after_simps [simp]:
  "listening_after b [] = b"
  "listening_after b (c # log) = listening_after (listening_then b c) log"
  by (simp_all add: listening_after_def)

lemma runs_append: "runs call (log @ log') l l' \<longleftrightarrow> (\<exists>l1. runs call log l l1 \<and> runs call log' l1 l')"
  by (induction log arbitrary: l) auto

locale listening_contract =
  fixes listening :: "'l \<Rightarrow> bool"
    and call :: "listener_op \<Rightarrow> bool \<Rightarrow> 'l \<Rightarrow> 'l \<Rightarrow> bool"
    and accept_error :: "'l \<Rightarrow> TAPSError option"
  assumes listen_law: "call Listen_Call r l l' \<Longrightarrow> listening l' \<longleftrightarrow> r \<or> listening l"
    and accept_law: "call Accept_Call r l l' \<Longrightarrow> listening l' = listening l \<and> (r \<longrightarrow> listening l)"
    and stop_law: "call Stop_Call r l l' \<Longrightarrow> listening l' \<longleftrightarrow> \<not> r \<and> listening l"
    and event_law: "call Event_Loop r l l' \<Longrightarrow> listening l' = listening l"
    and refusal: "\<not> listening l \<Longrightarrow> refuses ESTABLISHMENT_ERROR (accept_error l)"
begin

lemma call_follows: "call op r l l' \<Longrightarrow> listening l' = listening_then (listening l) (op, r)"
  using listen_law stop_law accept_law event_law
  by (cases op; cases r) (auto simp: listening_then_def)

lemma runs_follow: "runs call log l l' \<Longrightarrow> listening l' = listening_after (listening l) log"
proof (induction log arbitrary: l)
  case (Cons c log)
  then obtain l1 where "call (fst c) (snd c) l l1" and "runs call log l1 l'" by auto
  with Cons.IH [of l1] call_follows [of "fst c" "snd c" l l1] show ?case by simp
qed simp

lemma accepts_only_listening:
  assumes "runs call (log @ [(Accept_Call, True)]) l l'"
  shows "listening_after (listening l) log"
  using assms accept_law runs_follow by (fastforce simp: runs_append)

lemma refused_unless_listening:
  assumes "runs call log l l'" and "\<not> listening_after (listening l) log"
  shows "refuses ESTABLISHMENT_ERROR (accept_error l')"
  using assms runs_follow refusal by blast

end

locale single_listening = listening_contract +
  assumes listen_once: "call Listen_Call r l l' \<Longrightarrow> listening l \<Longrightarrow> \<not> r \<and> l' = l"
begin

lemma listens_again_only_stopped:
  assumes "runs call (log @ [(Listen_Call, True)]) l l'"
  shows "\<not> listening_after (listening l) log"
  using assms listen_once runs_follow by (fastforce simp: runs_append)

end

section \<open>TCP\<close>

definition succeeded :: "'a result \<Rightarrow> bool" where
  "succeeded r = (case r of Inr _ \<Rightarrow> True | Inl _ \<Rightarrow> False)"

inductive tcp_call :: "listener_op \<Rightarrow> bool \<Rightarrow> tcp_listener \<Rightarrow> tcp_listener \<Rightarrow> bool" where
  tcall_listen: "tcp_listen with_tls rs bind ssl l = (r, l') \<Longrightarrow> tcp_call Listen_Call (succeeded r) l l'"
| tcall_accept: "tcp_accept answers channel l h = Some (out, h') \<Longrightarrow>
    tcp_call Accept_Call (case out of Returned r \<Rightarrow> succeeded r | Thrown \<Rightarrow> False) l l"
| tcall_stop: "tcp_stop close_ec l = (r, l') \<Longrightarrow> tcp_call Stop_Call (succeeded r) l l'"

inductive_cases tcp_call_cases:
  "tcp_call Listen_Call r l l'" "tcp_call Accept_Call r l l'" "tcp_call Stop_Call r l l'" "tcp_call Event_Loop r l l'"

definition tcp_accept_error :: "tcp_listener \<Rightarrow> TAPSError option" where
  "tcp_accept_error l =
    (case tcp_accept [] None l (empty_heap (\<lambda>_. 0) []) of Some (Returned (Inl e), _) \<Rightarrow> Some e | _ \<Rightarrow> None)"

lemma succeeded_simps [simp]: "\<not> succeeded (Inl e)" "succeeded (Inr x)"
  by (simp_all add: succeeded_def)

lemma tcp_listen_flag:
  "tcp_listen with_tls rs bind ssl l = (r, l') \<Longrightarrow> tl_listening l' \<longleftrightarrow> succeeded r \<or> tl_listening l"
  by (auto simp: tcp_listen_def Let_def split: if_splits bind_result.splits sum.splits)

lemma tcp_listen_twice:
  "tcp_listen with_tls rs bind ssl l = (r, l') \<Longrightarrow> tl_listening l \<Longrightarrow> \<not> succeeded r \<and> l' = l"
  by (auto simp: tcp_listen_def)

lemma tcp_stop_flag: "tcp_stop close_ec l = (r, l') \<Longrightarrow> tl_listening l' \<longleftrightarrow> \<not> succeeded r \<and> tl_listening l"
  by (auto simp: tcp_stop_def split: if_splits option.splits)

interpretation tcp_l: single_listening tl_listening tcp_call tcp_accept_error
proof
  fix r l l'
  show "tl_listening l' \<longleftrightarrow> r \<or> tl_listening l" if "tcp_call Listen_Call r l l'"
    using that by (cases rule: tcp_call_cases(1)) (auto dest: tcp_listen_flag)
  show "tl_listening l' = tl_listening l \<and> (r \<longrightarrow> tl_listening l)" if "tcp_call Accept_Call r l l'"
    using that by (cases rule: tcp_call_cases(2)) (auto simp: tcp_accept_def split: if_splits)
  show "tl_listening l' \<longleftrightarrow> \<not> r \<and> tl_listening l" if "tcp_call Stop_Call r l l'"
    using that by (cases rule: tcp_call_cases(3)) (auto dest: tcp_stop_flag)
  show "tl_listening l' = tl_listening l" if "tcp_call Event_Loop r l l'"
    using that by (cases rule: tcp_call_cases(4))
  show "refuses ESTABLISHMENT_ERROR (tcp_accept_error l)" if "\<not> tl_listening l"
    using that by (simp add: refuses_def tcp_accept_error_def tcp_accept_def)
  show "\<not> r \<and> l' = l" if "tcp_call Listen_Call r l l'" "tl_listening l"
    using that by (cases rule: tcp_call_cases(1)) (auto dest: tcp_listen_twice)
qed

section \<open>UDP\<close>

text \<open>Between the calls the handlers of the demultiplexer run, in any order.\<close>

inductive udp_call :: "listener_op \<Rightarrow> bool \<Rightarrow> udp_listener \<Rightarrow> udp_listener \<Rightarrow> bool" where
  ucall_listen: "udp_listen rs bind l = (r, l') \<Longrightarrow> udp_call Listen_Call (succeeded r) l l'"
| ucall_accept: "udp_accept got l = (r, l') \<Longrightarrow> udp_call Accept_Call (succeeded r) l l'"
| ucall_stop: "udp_call Stop_Call True l (udp_stop l)"
| ucall_event: "demux_step limit idle_secs (t, ul_demux l) (t', dx) \<Longrightarrow>
    udp_call Event_Loop True l (l\<lparr>ul_demux := dx\<rparr>)"

inductive_cases udp_call_cases:
  "udp_call Listen_Call r l l'" "udp_call Accept_Call r l l'"

definition udp_accept_error :: "udp_listener \<Rightarrow> TAPSError option" where
  "udp_accept_error l = refusal_of (fst (udp_accept None l))"

lemma udp_listen_flag: "udp_listen rs bind l = (r, l') \<Longrightarrow> ul_listening l' \<longleftrightarrow> succeeded r \<or> ul_listening l"
  by (auto simp: udp_listen_def demux_start_def split: if_splits list.splits option.splits)

lemma udp_accept_flag:
  "udp_accept got l = (r, l') \<Longrightarrow> ul_listening l' = ul_listening l \<and> (succeeded r \<longrightarrow> ul_listening l)"
  by (auto simp: udp_accept_def split: if_splits prod.splits)

interpretation udp_l: listening_contract ul_listening udp_call udp_accept_error
proof
  fix r l l'
  show "ul_listening l' \<longleftrightarrow> r \<or> ul_listening l" if "udp_call Listen_Call r l l'"
    using that by (cases rule: udp_call_cases(1)) (auto dest: udp_listen_flag)
  show "ul_listening l' = ul_listening l \<and> (r \<longrightarrow> ul_listening l)" if "udp_call Accept_Call r l l'"
    using that by (cases rule: udp_call_cases(2)) (auto dest: udp_accept_flag)
  show "ul_listening l' \<longleftrightarrow> \<not> r \<and> ul_listening l" if "udp_call Stop_Call r l l'"
    using that by (cases rule: udp_call.cases) (simp_all add: udp_stop_def)
  show "ul_listening l' = ul_listening l" if "udp_call Event_Loop r l l'"
    using that by (cases rule: udp_call.cases) simp_all
  show "refuses ESTABLISHMENT_ERROR (udp_accept_error l)" if "\<not> ul_listening l"
    using that by (simp add: refuses_def udp_accept_error_def refusal_of_def udp_accept_def)
qed

section \<open>Both\<close>

text \<open>What a caller holds is a pointer to the base class: the calls are dispatched.\<close>

definition listener_listening :: "listener \<Rightarrow> bool" where
  "listener_listening l = (case l of TCP_Listener x \<Rightarrow> tl_listening x | UDP_Listener x \<Rightarrow> ul_listening x)"

inductive listener_call :: "listener_op \<Rightarrow> bool \<Rightarrow> listener \<Rightarrow> listener \<Rightarrow> bool" where
  lcall_tcp: "tcp_call op r x y \<Longrightarrow> listener_call op r (TCP_Listener x) (TCP_Listener y)"
| lcall_udp: "udp_call op r x y \<Longrightarrow> listener_call op r (UDP_Listener x) (UDP_Listener y)"

definition listener_accept_error :: "listener \<Rightarrow> TAPSError option" where
  "listener_accept_error l =
    (case l of TCP_Listener x \<Rightarrow> tcp_accept_error x | UDP_Listener x \<Rightarrow> udp_accept_error x)"

interpretation listeners: listening_contract listener_listening listener_call listener_accept_error
proof
  fix r l l'
  show "listener_listening l' \<longleftrightarrow> r \<or> listener_listening l" if "listener_call Listen_Call r l l'"
    using that tcp_l.listen_law udp_l.listen_law
    by (cases rule: listener_call.cases) (simp_all add: listener_listening_def)
  show "listener_listening l' = listener_listening l \<and> (r \<longrightarrow> listener_listening l)" if "listener_call Accept_Call r l l'"
    using that tcp_l.accept_law udp_l.accept_law
    by (cases rule: listener_call.cases) (simp_all add: listener_listening_def)
  show "listener_listening l' \<longleftrightarrow> \<not> r \<and> listener_listening l" if "listener_call Stop_Call r l l'"
    using that tcp_l.stop_law udp_l.stop_law
    by (cases rule: listener_call.cases) (simp_all add: listener_listening_def)
  show "listener_listening l' = listener_listening l" if "listener_call Event_Loop r l l'"
    using that tcp_l.event_law udp_l.event_law
    by (cases rule: listener_call.cases) (simp_all add: listener_listening_def)
  show "refuses ESTABLISHMENT_ERROR (listener_accept_error l)" if "\<not> listener_listening l"
    using that tcp_l.refusal udp_l.refusal
    by (cases l) (simp_all add: listener_listening_def listener_accept_error_def)
qed

section \<open>A demultiplexer that has stopped accepting\<close>

definition sources :: "('e, 'd) demux \<Rightarrow> 'e set" where
  "sources dx = (\<lambda>p. en_source (snd p)) ` set (dx_lru dx)"

definition conn_keys :: "('e, 'd) demux \<Rightarrow> nat set" where
  "conn_keys dx = fst ` set (dx_conns dx)"

text \<open>No handler and no call revives it: it enters no source and makes no connection.\<close>

definition stays_stopped :: "('e, 'd) demux \<Rightarrow> ('e, 'd) demux \<Rightarrow> bool" where
  "stays_stopped dx dx' \<longleftrightarrow>
    (\<not> dx_accepting dx \<longrightarrow> \<not> dx_accepting dx' \<and> sources dx' \<subseteq> sources dx \<and> conn_keys dx' \<subseteq> conn_keys dx)"

lemma stays_stopped_refl [simp]: "stays_stopped dx dx"
  by (simp add: stays_stopped_def)

lemma stays_stopped_trans: "stays_stopped dx dx1 \<Longrightarrow> stays_stopped dx1 dx2 \<Longrightarrow> stays_stopped dx dx2"
  by (auto simp: stays_stopped_def)

lemma stays_stopped_same:
  "dx_accepting dx' = dx_accepting dx \<Longrightarrow> dx_lru dx' = dx_lru dx \<Longrightarrow> dx_conns dx' = dx_conns dx \<Longrightarrow> stays_stopped dx dx'"
  by (simp add: stays_stopped_def sources_def conn_keys_def)

lemma stays_stopped_upd_conn: "stays_stopped dx (upd_conn c f dx)"
  by (force simp: stays_stopped_def sources_def conn_keys_def upd_conn_def)

lemma stays_stopped_drop_mailbox: "stays_stopped dx (drop_mailbox a dx)"
  by (rule stays_stopped_same) (simp_all add: drop_mailbox_def)

lemma stays_stopped_evict: "stays_stopped dx (evict it cause dx)"
proof (cases "map_of (dx_lru dx) it")
  case None
  then show ?thesis by (auto simp: evict_def intro: stays_stopped_same)
next
  case (Some e)
  let ?dx = "dx\<lparr>dx_mailboxes := close_mailbox cause (en_mailbox e) (dx_mailboxes dx),
               dx_index := filter (\<lambda>p. fst p \<noteq> en_source e) (dx_index dx),
               dx_lru := filter (\<lambda>p. fst p \<noteq> it) (dx_lru dx)\<rparr>"
  have "stays_stopped dx ?dx" by (auto simp: stays_stopped_def sources_def conn_keys_def)
  from stays_stopped_trans [OF this stays_stopped_drop_mailbox] show ?thesis using Some by (simp add: evict_def)
qed

lemma stays_stopped_shut_down: "stays_stopped dx (shut_down_if_unused dx)"
  by (rule stays_stopped_same) simp_all

lemma stays_stopped_datagram: "stays_stopped dx (on_datagram limit now a sent granted sender d dx)"
proof (cases "dx_accepting dx")
  case False
  have deliver: "stays_stopped dy (deliver_to granted d b dy)" for b and dy :: "('a, 'b) demux"
    by (rule stays_stopped_same) (auto simp: deliver_to_def split: option.split prod.split bool.split)
  have "stays_stopped dx (dx\<lparr>dx_lru := (it, e\<lparr>en_last_active := now\<rparr>) # filter (\<lambda>p. fst p \<noteq> it) (dx_lru dx)\<rparr>)"
    if "map_of (dx_lru dx) it = Some e" for it e
    using map_of_SomeD [OF that] by (force simp: stays_stopped_def sources_def conn_keys_def)
  moreover have "stays_stopped dx (dx\<lparr>dx_fault := True\<rparr>)" by (rule stays_stopped_same) simp_all
  ultimately show ?thesis
    using False stays_stopped_trans [OF _ deliver] by (auto simp: on_datagram_def split: option.split)
qed (simp add: stays_stopped_def)

lemma stays_stopped_sweep: "stays_stopped dx (sweep now idle_secs dx)"
proof -
  have "stays_stopped dx (sweep_evict cutoff dx)" for cutoff
  proof (induction cutoff dx rule: sweep_evict.induct)
    case (1 cutoff dx)
    then show ?case
      using stays_stopped_trans [OF stays_stopped_evict [of dx "fst (last (dx_lru dx))" idle]]
      by (subst sweep_evict.simps) (auto simp del: sweep_evict.simps)
  qed
  moreover have "stays_stopped dy (dy\<lparr>dx_sweeping := ti\<rparr>)" for dy :: "('a, 'b) demux" and ti
    by (rule stays_stopped_same) simp_all
  ultimately show ?thesis unfolding sweep_def using stays_stopped_trans stays_stopped_shut_down by blast
qed

lemma stays_stopped_task: "stays_stopped dx (run_task dx)"
proof -
  have "stays_stopped dy (exec_task task dy)" for task and dy :: "('a, 'b) demux"
  proof (cases task)
    case (Release source a)
    have "stays_stopped dy (dy\<lparr>dx_fault := True\<rparr>)" by (rule stays_stopped_same) simp_all
    then show ?thesis
      by (auto simp: Release intro!: stays_stopped_trans [OF _ stays_stopped_shut_down] stays_stopped_evict split: option.split)
  next
    case Stop
    have "stays_stopped dy (dy\<lparr>dx_accepting := False\<rparr>)" by (simp add: stays_stopped_def sources_def conn_keys_def)
    from stays_stopped_trans [OF this stays_stopped_shut_down] show ?thesis using Stop by simp
  qed
  moreover have "stays_stopped dx (dx\<lparr>dx_posted := ts\<rparr>)" for ts by (rule stays_stopped_same) simp_all
  ultimately have "stays_stopped dx (exec_task task (dx\<lparr>dx_posted := ts\<rparr>))" for task ts
    using stays_stopped_trans by blast
  then show ?thesis by (simp add: run_task_def split: list.split)
qed

lemma stays_stopped_release: "stays_stopped dx (passive_release c dx)"
proof -
  have "stays_stopped dx1 (demux_release source a dx1)" for dx1 :: "('a, 'b) demux" and source a
    by (rule stays_stopped_same) (simp_all add: demux_release_def)
  note stays_stopped_trans [OF stays_stopped_upd_conn this]
  then show ?thesis by (simp add: passive_release_def split: option.split)
qed

lemma stays_stopped_close: "stays_stopped dx (passive_close c dx)" "stays_stopped dx (passive_abort c dx)"
proof -
  show c: "stays_stopped dx (passive_close c dx)" for dx :: "('a, 'b) demux"
    unfolding passive_close_def using stays_stopped_upd_conn stays_stopped_release by (rule stays_stopped_trans)
  show "stays_stopped dx (passive_abort c dx)"
    unfolding passive_abort_def using stays_stopped_upd_conn c by (rule stays_stopped_trans)
qed

lemma stays_stopped_destroy: "stays_stopped dx (passive_destroy c dx)"
proof (cases "map_of (dx_conns dx) c")
  case (Some pc)
  let ?dx1 = "passive_release c dx"
  have "stays_stopped ?dx1 (?dx1\<lparr>dx_conns := filter (\<lambda>p. fst p \<noteq> c) (dx_conns ?dx1)\<rparr>)"
    by (auto simp: stays_stopped_def sources_def conn_keys_def)
  then show ?thesis
    using Some stays_stopped_trans stays_stopped_release stays_stopped_drop_mailbox
    by (simp add: passive_destroy_def Let_def) blast
qed (simp add: passive_destroy_def)

lemma stays_stopped_receive: "stays_stopped dx (snd (passive_receive r c dx))"
  by (force simp: passive_receive_def stays_stopped_def sources_def conn_keys_def upd_conn_def Let_def
      split: option.split prod.split look.split)

lemma stays_stopped_coroutines: "coroutines_only dx dx' \<Longrightarrow> stays_stopped dx dx'"
  by (rule stays_stopped_same) (simp_all add: coroutines_only_fields)

lemma stays_stopped_step: "demux_step limit idle_secs s s' \<Longrightarrow> stays_stopped (snd s) (snd s')"
proof (induction rule: demux_step.induct)
  case (dstep_datagram t now dx a sent granted sender d)
  have "stays_stopped dx (dx\<lparr>dx_loop := Read_Next\<rparr>)" by (rule stays_stopped_same) simp_all
  from stays_stopped_trans [OF this stays_stopped_datagram] show ?case by simp
next
  case (dstep_stop t dx)
  show ?case by (simp, rule stays_stopped_same) (simp_all add: stop_accepting_def)
next
  case (dstep_accept t dx got)
  show ?case by (cases got) (simp_all add: demux_accept_def stays_stopped_upd_conn)
qed (simp_all add: stays_stopped_coroutines loop_step_only event_step_only stays_stopped_sweep stays_stopped_task
      stays_stopped_close stays_stopped_destroy stays_stopped_receive)

lemma stays_stopped_run: "(demux_step limit idle_secs)\<^sup>*\<^sup>* s s' \<Longrightarrow> stays_stopped (snd s) (snd s')"
  by (induction rule: rtranclp_induct) (auto intro: stays_stopped_trans stays_stopped_step)

text \<open>Once the handler that \<open>stop()\<close> posts has run, the demultiplexer does not accept.\<close>

definition stopping :: "('e, 'd) demux \<Rightarrow> bool" where
  "stopping dx \<longleftrightarrow> \<not> dx_accepting dx \<or> Stop \<in> set (dx_posted dx)"

lemma stopping_same:
  "stopping dx \<Longrightarrow> dx_accepting dx' = dx_accepting dx \<Longrightarrow> set (dx_posted dx) \<subseteq> set (dx_posted dx') \<Longrightarrow> stopping dx'"
  by (auto simp: stopping_def)

lemma stopping_fields [simp]:
  "dx_accepting (drop_mailbox a dx) = dx_accepting dx" "dx_posted (drop_mailbox a dx) = dx_posted dx"
  "dx_accepting (evict it cause dx) = dx_accepting dx" "dx_posted (evict it cause dx) = dx_posted dx"
  "dx_accepting (deliver_to granted d b dx) = dx_accepting dx" "dx_posted (deliver_to granted d b dx) = dx_posted dx"
  by (simp_all add: drop_mailbox_def evict_def deliver_to_def split: option.split prod.split bool.split)

lemma stopping_sweep_evict [simp]:
  "dx_accepting (sweep_evict cutoff dx) = dx_accepting dx \<and> dx_posted (sweep_evict cutoff dx) = dx_posted dx"
proof (induction cutoff dx rule: sweep_evict.induct)
  case (1 cutoff dx)
  then show ?case by (subst (1 2) sweep_evict.simps) (auto simp del: sweep_evict.simps)
qed

lemma stopping_task:
  assumes "stopping dx"
  shows "stopping (run_task dx)"
proof (cases "dx_posted dx")
  case (Cons task ts)
  then show ?thesis using assms by (cases task) (auto simp: run_task_def stopping_def split: option.split)
qed (use assms in \<open>simp add: run_task_def\<close>)

lemma stopping_release: "stopping dx \<Longrightarrow> stopping (passive_release c dx)"
  by (erule stopping_same) (auto simp: passive_release_def demux_release_def split: option.split)

lemma stopping_upd_conn [simp]: "stopping (upd_conn c f dx) = stopping dx"
  by (simp add: stopping_def)

lemma stopping_step: "demux_step limit idle_secs s s' \<Longrightarrow> stopping (snd s) \<Longrightarrow> stopping (snd s')"
proof (induction rule: demux_step.induct)
  case (dstep_loop dx dx' t)
  then show ?case by (simp add: stopping_def coroutines_only_fields [OF loop_step_only])
next
  case (dstep_event dx dx' t)
  then show ?case by (simp add: stopping_def coroutines_only_fields [OF event_step_only])
next
  case (dstep_datagram t now dx a sent granted sender d)
  then show ?case
    by (auto simp: stopping_def on_datagram_def make_room_def Let_def split: option.split)
next
  case (dstep_sweep t now dx)
  then show ?case by (simp add: stopping_def sweep_def)
next
  case (dstep_task dx t)
  then show ?case by (simp add: stopping_task)
next
  case (dstep_accept t dx got)
  then show ?case by (cases got) (simp_all add: demux_accept_def)
next
  case (dstep_destroy t dx c)
  have "stopping (drop_mailbox a (dy\<lparr>dx_conns := cs\<rparr>)) = stopping dy" for a cs and dy :: "('a, 'b) demux"
    by (simp add: stopping_def)
  then show ?case
    using dstep_destroy stopping_release [of dx c] by (simp add: passive_destroy_def Let_def split: option.split)
next
  case (dstep_receive dx c t r)
  then show ?case by (auto simp: stopping_def passive_receive_def Let_def split: option.split prod.split look.split)
next
  case (dstep_stop t dx)
  then show ?case by (simp add: stopping_def stop_accepting_def)
qed (simp_all add: passive_close_def passive_abort_def stopping_release)

lemma stopping_run: "(demux_step limit idle_secs)\<^sup>*\<^sup>* s s' \<Longrightarrow> stopping (snd s) \<Longrightarrow> stopping (snd s')"
  by (induction rule: rtranclp_induct) (auto intro: stopping_step)

section \<open>Properties\<close>

text \<open>
  C12. A listener that \<open>TransportServices::listen()\<close> has returned follows its calls: whatever is called on it, in
  any order, and whatever the system and the event loop do, it listens exactly after the last successful
  \<open>listen()\<close> or \<open>stop()\<close> says so; \<open>accept()\<close> succeeds only then, and otherwise is refused with
  ESTABLISHMENT_ERROR and INVALID_STATE; a TCP listener never starts a second time without being stopped.
\<close>

theorem listener_follows_its_calls:
  assumes "services_listen with_tls rs tcp_bind udp_bind ssl what local props security s = (Inr l, h)"
    and "runs listener_call log l l'"
  shows "listener_listening l' = listening_after True log \<and>
    (listener_call Accept_Call True l' l'' \<longrightarrow> listening_after True log) \<and>
    (\<not> listening_after True log \<longrightarrow> refuses ESTABLISHMENT_ERROR (listener_accept_error l')) \<and>
    (listener_call Listen_Call True l' l'' \<longrightarrow> listening_after True log \<longrightarrow> (\<exists>u. l' = UDP_Listener u))"
proof -
  have start: "listener_listening l"
    using assms(1)
    by (auto simp: services_listen_def listener_listening_def dest: tcp_listen_flag udp_listen_flag
        split: prod.splits if_splits sum.splits option.splits)
  have flag: "listener_listening l' = listening_after True log" using listeners.runs_follow [OF assms(2)] start by simp
  have "l'' = l''" "\<not> listening_after True log" if "listener_call Listen_Call True l' l''" "l' = TCP_Listener x" for x
    using that flag tcp_l.listen_once by (auto simp: listener_listening_def elim!: listener_call.cases)
  then show ?thesis
    using flag start listeners.accept_law [of True l' l''] listeners.refused_unless_listening [OF assms(2)]
    by (cases l') auto
qed

definition demo_services :: "listener result \<times> heap" where
  "demo_services = services_listen False (\<lambda>_ _. None) (\<lambda>_. Bound) (\<lambda>_. None) quiet_ssl [] (make_endpoint [] 9999)
     (set_property RELIABILITY AVOID (\<lambda>_. None)) default_security (default_memory_config, empty_heap (\<lambda>_. 0) [])"

lemma listener_follows_its_calls_witness:
  "\<exists>l h l'. demo_services = (Inr l, h) \<and> runs listener_call [(Stop_Call, True)] l l' \<and>
    refuses ESTABLISHMENT_ERROR (listener_accept_error l')"
proof -
  have "\<exists>u h. demo_services = (Inr (UDP_Listener u), h)"
    by (simp add: demo_services_def services_listen_def requires_reliable_transport_def get_set_property make_pool_def
        default_memory_config_def udp_listen_def make_udp_listener_def resolve_local_def make_endpoint_def
        demux_start_def make_demux_def is_enabled_def default_security_def Let_def)
  then obtain u h where s: "demo_services = (Inr (UDP_Listener u), h)" by blast
  have r: "runs listener_call [(Stop_Call, True)] (UDP_Listener u) (UDP_Listener (udp_stop u))"
    by (simp add: lcall_udp ucall_stop)
  from listener_follows_its_calls [OF s [unfolded demo_services_def] r] s r show ?thesis
    by (auto simp: listening_then_def)
qed

text \<open>
  C38. A TCP listener without security that was stopped can listen again and accepts connections again. A UDP
  listener cannot. Take one that is stopped, whatever happens until the handler that \<open>stop()\<close> posts has run, and
  call \<open>listen()\<close>. If the socket is still open, as it is while a source is left in the table, the call fails and
  closes it; otherwise it reports success and binds the socket anew. In both cases the demultiplexer never
  accepts again: whatever datagrams arrive, no source is ever entered and no connection made.
\<close>

theorem only_tcp_listens_again:
  assumes "demux_reachable (max_connections getenv) (idle_timeout getenv) (t0, ul_demux ul)" and "ul_listening ul"
    and "(demux_step (max_connections getenv) (idle_timeout getenv))\<^sup>*\<^sup>* (t0, ul_demux (udp_stop ul)) (t, dx)"
    and "Stop \<notin> set (dx_posted dx)" and "\<not> is_enabled (ul_security ul)"
    and "resolve_local rs (ul_local ul) = e # es" and "udp_bind e = None"
    and "tl_listening tls" and "tl_secure tls = None" and "\<not> is_enabled (tl_security tls)"
    and "resolve_local rs (tl_local tls) = e' # es'" and "tcp_bind e' = Bound" and "make_pool (tl_memory tls) h = (Some p, h')"
  shows "(let again = udp_listen rs udp_bind ((udp_stop ul)\<lparr>ul_demux := dx\<rparr>)
      in (dx_lru dx \<noteq> [] \<longrightarrow> dx_open dx) \<and>
        (if dx_open dx
         then fst again = Inl (io_error ESTABLISHMENT_ERROR already_open) \<and> \<not> dx_open (ul_demux (snd again))
         else fst again = Inr () \<and> ul_listening (snd again) \<and> dx_open (ul_demux (snd again))) \<and>
        (\<forall>s. (demux_step (max_connections getenv) (idle_timeout getenv))\<^sup>*\<^sup>* (t, ul_demux (snd again)) s \<longrightarrow>
          sources (snd s) \<subseteq> sources dx \<and> conn_keys (snd s) \<subseteq> conn_keys dx)) \<and>
    (let again = tcp_listen with_tls rs tcp_bind ssl (snd (tcp_stop None tls))
      in fst again = Inr () \<and>
        tcp_accept [Accepted (l, r)] channel (snd again) h = Some (Returned (Inr (TCP_Connection (make_accepted p l r))), h'))"
proof -
  let ?again = "udp_listen rs udp_bind ((udp_stop ul)\<lparr>ul_demux := dx\<rparr>)"
  have stop: "ul_demux (udp_stop ul) = stop_accepting (ul_demux ul)" using assms(2) by (simp add: udp_stop_def)
  have "demux_reachable (max_connections getenv) (idle_timeout getenv) (t0, ul_demux (udp_stop ul))"
    unfolding stop using assms(1) dstep_stop by (rule dreach_step)
  then have "demux_reachable (max_connections getenv) (idle_timeout getenv) (t, dx)"
    using assms(3) reachable_run by blast
  then have "table_ok (max_connections getenv) (t, dx)" using max_connections_pos by (rule table_ok_reachable)
  then have needed: "dx_lru dx \<noteq> [] \<longrightarrow> dx_open dx" by (auto simp: table_ok_def life_ok_def)
  have "stopping (ul_demux (udp_stop ul))" by (simp add: stop stopping_def stop_accepting_def)
  then have closed: "\<not> dx_accepting dx" using stopping_run [OF assms(3)] assms(4) by (simp add: stopping_def)
  let ?bound = "dx\<lparr>dx_open := True, dx_loop := Read_Next, dx_sweeping := Timer_Pending\<rparr>"
  have u: "\<not> is_enabled (ul_security (udp_stop ul))" "resolve_local rs (ul_local (udp_stop ul)) = e # es"
    using assms(2,5,6) by (simp_all add: udp_stop_def)
  then have listen: "?again = (if dx_open dx
      then (Inl (io_error ESTABLISHMENT_ERROR already_open), (udp_stop ul)\<lparr>ul_demux := close_socket dx\<rparr>)
      else (Inr (), (udp_stop ul)\<lparr>ul_demux := ?bound, ul_listening := True\<rparr>))"
    using assms(7) by (simp add: udp_listen_def demux_start_def)
  have "stays_stopped dx (ul_demux (snd ?again))"
    by (rule stays_stopped_same) (simp_all add: listen close_socket_def)
  then have "sources (snd s) \<subseteq> sources dx \<and> conn_keys (snd s) \<subseteq> conn_keys dx"
    if "(demux_step (max_connections getenv) (idle_timeout getenv))\<^sup>*\<^sup>* (t, ul_demux (snd ?again)) s" for s
    using stays_stopped_trans [OF _ stays_stopped_run [OF that]] closed by (auto simp: stays_stopped_def)
  moreover have "tcp_listen with_tls rs tcp_bind ssl (snd (tcp_stop None tls)) =
      (Inr (), tls\<lparr>tl_acceptor := Some e', tl_listening := True\<rparr>)"
    using assms(8-12) by (simp add: tcp_stop_def tcp_listen_def)
  ultimately show ?thesis
    using assms(9,13) needed by (simp add: listen tcp_accept_def close_socket_def del: split_paired_All)
qed

text \<open>For the witness: two listeners on all interfaces, without security. The UDP listener has the source of \<open>demo_demux\<close>.\<close>

definition demo_udp_listener :: udp_listener where
  "demo_udp_listener = (make_udp_listener (make_endpoint [] 9999) (\<lambda>_. None) default_security (small_pool 8))
    \<lparr>ul_listening := True, ul_demux := snd (demux_start None make_demux)\<rparr>"

definition demo_tcp_listener :: tcp_listener where
  "demo_tcp_listener =
    (make_tcp_listener default_endpoint (\<lambda>_. None) default_security default_memory_config)\<lparr>tl_listening := True\<rparr>"

lemma only_tcp_listens_again_witness:
  "\<exists>dx again. dx = run_task (ul_demux (udp_stop demo_udp_listener)) \<and>
    again = udp_listen (\<lambda>_ _. None) (\<lambda>_. None) ((udp_stop demo_udp_listener)\<lparr>ul_demux := dx\<rparr>) \<and>
    fst again = Inr () \<and> ul_listening (snd again) \<and> \<not> dx_accepting (ul_demux (snd again))"
proof -
  let ?ul = demo_udp_listener and ?tls = demo_tcp_listener
  let ?dx = "run_task (ul_demux (udp_stop ?ul))"
  have u: "demux_reachable (max_connections (\<lambda>_. None)) (idle_timeout (\<lambda>_. None)) (0, ul_demux ?ul)" "ul_listening ?ul"
    "\<not> is_enabled (ul_security ?ul)"
    "resolve_local (\<lambda>_ _. None) (ul_local ?ul) = [(Any_IPv4, 9999), (Any_IPv6, 9999)]"
    using dreach_init [of "max_connections (\<lambda>_. None)" "idle_timeout (\<lambda>_. None)" 0]
    by (simp_all add: demo_udp_listener_def make_udp_listener_def resolve_local_def make_endpoint_def
        is_enabled_def default_security_def)
  have "dx_posted (ul_demux (udp_stop ?ul)) \<noteq> []"
    by (simp add: demo_udp_listener_def udp_stop_def stop_accepting_def)
  then have run: "(demux_step (max_connections (\<lambda>_. None)) (idle_timeout (\<lambda>_. None)))\<^sup>*\<^sup>* (0, ul_demux (udp_stop ?ul)) (0, ?dx)"
    by (intro r_into_rtranclp dstep_task)
  have dx: "Stop \<notin> set (dx_posted ?dx)" "\<not> dx_open ?dx" "\<not> dx_accepting ?dx"
    by (simp_all add: demo_udp_listener_def udp_stop_def stop_accepting_def run_task_def shut_down_if_unused_def
        close_socket_def cancel_timer_def demux_start_def make_demux_def)
  have t: "tl_listening ?tls" "tl_secure ?tls = None" "\<not> is_enabled (tl_security ?tls)"
    "resolve_local (\<lambda>_ _. None) (tl_local ?tls) = [(Any_IPv4, 0), (Any_IPv6, 0)]"
    "make_pool (tl_memory ?tls) (empty_heap (\<lambda>_. 0) []) =
      (Some \<lparr>pool_resource = default_message_resource, pool_block_size = 65536, pool_max_live = 0, pool_live = None\<rparr>,
       empty_heap (\<lambda>_. 0) [])"
    by (simp_all add: demo_tcp_listener_def make_tcp_listener_def default_endpoint_def resolve_local_def make_endpoint_def
        is_enabled_def default_security_def make_pool_def default_memory_config_def)
  note w = only_tcp_listens_again [OF u(1,2) run dx(1) u(3,4), of "\<lambda>_. None" ?tls "(Any_IPv4, 0)" "[(Any_IPv6, 0)]" "\<lambda>_. Bound"
      "empty_heap (\<lambda>_. 0) []", OF refl t(1-4) refl t(5), of False quiet_ssl]
  have "dx_accepting (ul_demux (snd (udp_listen (\<lambda>_ _. None) (\<lambda>_. None) ((udp_stop ?ul)\<lparr>ul_demux := ?dx\<rparr>)))) = dx_accepting ?dx"
    by (auto simp: udp_listen_def demux_start_def close_socket_def split: list.split)
  with w dx show ?thesis by (simp add: Let_def)
qed

end
