(* ===== verification/Secure_Accept.thy ===== *)
theory Secure_Accept
  imports Listeners Udp_Server
begin

text \<open>
  A \<open>SecureAcceptor\<close> at work (src/TCPListener.cpp, src/secure_acceptor.h): the accept loop, the handshakes in
  flight, the channel of established connections and the calls of the listener, as one step relation. The
  strand serialises the loop and the channel; the handshakes run beside them, so their steps come at any time.

  The channel is asio's: a send is taken while fewer than its capacity wait, waits while it is full, and
  fails when it is closed, which drops what was sent (one that waits then may also wait on); a receive takes
  the oldest. Closing the acceptor cancels the pending accept, unless it has completed; an accept that starts
  afterwards fails with \<open>closed_ec\<close>, the system's error for an operation on a closed socket.
\<close>

section \<open>State\<close>

text \<open>
  Where the accept loop stands: in a wait for a socket, which began while the acceptor was open or not; in a
  send of an error to the channel; or ended. A handshake in flight has its socket only, until its coroutine
  starts; then its connection; then a secured connection to send.
\<close>

datatype accept_at = Awaiting_Socket bool | Reporting error_code | Accept_Over

datatype flight = Starting accepted_socket | Handshaking tcp_conn | Sending tcp_conn

record acceptance =
  ac_acceptor :: secure_acceptor
  ac_heap :: heap
  ac_open :: bool
  ac_channel_open :: bool
  ac_loop :: accept_at
  ac_ready :: "(error_code + tcp_conn) list"
  ac_flights :: "flight list"
  ac_stops :: nat
  ac_secured :: "tcp_conn list"
  ac_delivered :: "tcp_conn list"
  ac_completed :: "tcp_conn list"
  ac_dropped :: "tcp_conn list"

text \<open>
  Four fields are histories: \<open>ac_completed\<close> has a connection for each handshake that the TLS library has completed,
  over the accepted socket and with the acceptor's configuration, \<open>ac_secured\<close> those the channel took,
  \<open>ac_delivered\<close> those it yielded, \<open>ac_dropped\<close> those it refused because it was closed.
\<close>

definition completes :: "secure_acceptor \<Rightarrow> ssl_session \<Rightarrow> tcp_conn \<Rightarrow> tcp_conn list" where
  "completes a session c =
    (if ss_handshake session = None
     then [c\<lparr>tc_stream := TlsStream (make_tls_stream (tp_context (sa_provider a)) session)\<rparr>] else [])"

definition channel_capacity :: nat where
  "channel_capacity = 100"

definition acceptance_start :: "secure_acceptor \<Rightarrow> heap \<Rightarrow> acceptance" where
  "acceptance_start a h =
    \<lparr>ac_acceptor = sa_start a, ac_heap = h, ac_open = True, ac_channel_open = True, ac_loop = Awaiting_Socket True,
     ac_ready = [], ac_flights = [], ac_stops = 0, ac_secured = [], ac_delivered = [], ac_completed = [], ac_dropped = []\<rparr>"

section \<open>Steps\<close>

definition after_accept :: "accept_answer \<Rightarrow> acceptance \<Rightarrow> acceptance" where
  "after_accept answer s =
    (case accept_turn answer of
       Accept_Ends \<Rightarrow> s\<lparr>ac_loop := Accept_Over\<rparr>
     | Accept_Goes_On \<Rightarrow> s\<lparr>ac_loop := Awaiting_Socket (ac_open s)\<rparr>
     | Accept_Reports ec \<Rightarrow> s\<lparr>ac_loop := Reporting ec\<rparr>
     | Accept_Secures k \<Rightarrow> s\<lparr>ac_flights := ac_flights s @ [Starting k], ac_loop := Awaiting_Socket (ac_open s)\<rparr>)"

text \<open>The coroutine \<open>secure\<close>: its start creates the connection; the end of the handshake decides.\<close>

definition flight_start :: "secure_acceptor \<Rightarrow> accepted_socket \<Rightarrow> heap \<Rightarrow> flight list \<times> heap" where
  "flight_start a k h =
    (case make_pool (sa_memory a) h of
       (None, h1) \<Rightarrow> ([], h1)
     | (Some p, h1) \<Rightarrow> ([Handshaking (make_accepted p (fst k) (snd k))], h1))"

definition flight_secured :: "secure_acceptor \<Rightarrow> ssl_session \<Rightarrow> tcp_conn \<Rightarrow> heap \<Rightarrow> flight list \<times> heap" where
  "flight_secured a session c h =
    (case apply_security_done (secure (sa_provider a) session []) c of
       (Inl _, c1) \<Rightarrow> ([], destroy_pool (tc_pool c1) h)
     | (Inr _, c1) \<Rightarrow> ([Sending c1], h))"

inductive acceptor_step :: "error_code \<Rightarrow> acceptance \<Rightarrow> acceptance \<Rightarrow> bool" for closed_ec where
  astep_accept: "ac_loop s = Awaiting_Socket True \<Longrightarrow>
    (\<And>ec. answer = Accept_Failed ec \<Longrightarrow> ec_value ec = EC_operation_aborted \<Longrightarrow> \<not> ac_open s) \<Longrightarrow>
    acceptor_step closed_ec s (after_accept answer s)"
| astep_accept_closed: "ac_loop s = Awaiting_Socket False \<Longrightarrow>
    acceptor_step closed_ec s (after_accept (Accept_Failed closed_ec) s)"
| astep_report: "ac_loop s = Reporting ec \<Longrightarrow> ac_channel_open s \<Longrightarrow> length (ac_ready s) < channel_capacity \<Longrightarrow>
    acceptor_step closed_ec s (s\<lparr>ac_ready := ac_ready s @ [Inl ec], ac_loop := Awaiting_Socket (ac_open s)\<rparr>)"
| astep_report_closed: "ac_loop s = Reporting ec \<Longrightarrow> \<not> ac_channel_open s \<Longrightarrow>
    acceptor_step closed_ec s (s\<lparr>ac_loop := Awaiting_Socket (ac_open s)\<rparr>)"
| astep_start: "ac_flights s = xs @ Starting k # ys \<Longrightarrow> flight_start (ac_acceptor s) k (ac_heap s) = (fs, h) \<Longrightarrow>
    acceptor_step closed_ec s (s\<lparr>ac_flights := xs @ fs @ ys, ac_heap := h\<rparr>)"
| astep_secured: "ac_flights s = xs @ Handshaking c # ys \<Longrightarrow>
    flight_secured (ac_acceptor s) session c (ac_heap s) = (fs, h) \<Longrightarrow>
    acceptor_step closed_ec s
      (s\<lparr>ac_flights := xs @ fs @ ys, ac_heap := h,
         ac_completed := ac_completed s @ completes (ac_acceptor s) session c\<rparr>)"
| astep_send: "ac_flights s = xs @ Sending c # ys \<Longrightarrow> ac_channel_open s \<Longrightarrow> length (ac_ready s) < channel_capacity \<Longrightarrow>
    acceptor_step closed_ec s
      (s\<lparr>ac_flights := xs @ ys, ac_ready := ac_ready s @ [Inr c], ac_secured := ac_secured s @ [c]\<rparr>)"
| astep_send_closed: "ac_flights s = xs @ Sending c # ys \<Longrightarrow> \<not> ac_channel_open s \<Longrightarrow>
    acceptor_step closed_ec s
      (s\<lparr>ac_flights := xs @ ys, ac_heap := destroy_pool (tc_pool c) (ac_heap s), ac_dropped := ac_dropped s @ [c]\<rparr>)"
| astep_deliver: "ac_ready s = item # items \<Longrightarrow>
    acceptor_step closed_ec s
      (s\<lparr>ac_ready := items, ac_delivered := ac_delivered s @ (case item of Inr c \<Rightarrow> [c] | Inl _ \<Rightarrow> [])\<rparr>)"
| astep_stop: "acceptor_step closed_ec s
    (s\<lparr>ac_acceptor := sa_stop (ac_acceptor s), ac_stops := Suc (ac_stops s)\<rparr>)"
| astep_stopped: "ac_stops s = Suc n \<Longrightarrow>
    acceptor_step closed_ec s (s\<lparr>ac_stops := n, ac_open := False, ac_channel_open := False\<rparr>)"

inductive acceptor_reachable :: "error_code \<Rightarrow> secure_acceptor \<Rightarrow> acceptance \<Rightarrow> bool" for closed_ec a where
  areach_start: "acceptor_reachable closed_ec a (acceptance_start a (empty_heap junk grants))"
| areach_step: "acceptor_reachable closed_ec a s \<Longrightarrow> acceptor_step closed_ec s s' \<Longrightarrow> acceptor_reachable closed_ec a s'"

text \<open>The two stretches of \<open>secure\<close>, without a wait between them, are \<open>sa_secure\<close>.\<close>

lemma flight_is_sa_secure:
  "sa_secure a session k h =
    (case flight_start a k h of
       ([Handshaking c], h1) \<Rightarrow>
         (case flight_secured a session c h1 of ([Sending c1], h2) \<Rightarrow> (Some c1, h2) | (_, h2) \<Rightarrow> (None, h2))
     | (_, h1) \<Rightarrow> (None, h1))"
  by (auto simp: sa_secure_def flight_start_def flight_secured_def apply_security_done_def make_accepted_def make_tcp_def
      split: prod.split option.split sum.split)

section \<open>Invariant\<close>

text \<open>A connection that has completed a handshake as a server with the acceptor's configuration.\<close>

definition secured_as :: "secure_acceptor \<Rightarrow> tcp_conn \<Rightarrow> bool" where
  "secured_as a c \<longleftrightarrow> tc_state c = ESTABLISHED \<and>
    (\<exists>st. tc_stream c = TlsStream st \<and> ts_context st = tp_context (sa_provider a) \<and> ss_handshake (ts_session st) = None)"

fun flight_ok :: "secure_acceptor \<Rightarrow> flight \<Rightarrow> bool" where
  "flight_ok a (Starting k) = True"
| "flight_ok a (Handshaking c) = (tc_state c = ESTABLISHED)"
| "flight_ok a (Sending c) = secured_as a c"

fun flight_units :: "flight \<Rightarrow> alloc_unit multiset" where
  "flight_units (Starting k) = {#}"
| "flight_units (Handshaking c) = pool_units (tc_pool c)"
| "flight_units (Sending c) = pool_units (tc_pool c)"

definition conns_in :: "(error_code + tcp_conn) list \<Rightarrow> tcp_conn list" where
  "conns_in items = concat (map (\<lambda>i. case i of Inr c \<Rightarrow> [c] | Inl _ \<Rightarrow> []) items)"

lemma conns_in_simps [simp]:
  "conns_in [] = []" "conns_in (Inl e # items) = conns_in items" "conns_in (Inr c # items) = c # conns_in items"
  "conns_in (items @ items') = conns_in items @ conns_in items'"
  by (simp_all add: conns_in_def)

text \<open>The connections that are being sent to the channel.\<close>

definition sending :: "flight list \<Rightarrow> tcp_conn list" where
  "sending fs = concat (map (\<lambda>f. case f of Sending c \<Rightarrow> [c] | _ \<Rightarrow> []) fs)"

lemma sending_simps [simp]:
  "sending [] = []" "sending (Starting k # fs) = sending fs" "sending (Handshaking c # fs) = sending fs"
  "sending (Sending c # fs) = c # sending fs" "sending (fs @ fs') = sending fs @ sending fs'"
  by (simp_all add: sending_def)

definition acceptance_inv :: "secure_acceptor \<Rightarrow> acceptance \<Rightarrow> bool" where
  "acceptance_inv a s \<longleftrightarrow>
    sa_provider (ac_acceptor s) = sa_provider a \<and> (\<forall>f\<in>set (ac_flights s). flight_ok a f) \<and>
    (\<forall>c\<in>set (ac_secured s). secured_as a c) \<and> ac_delivered s @ conns_in (ac_ready s) = ac_secured s \<and>
    mset (ac_completed s) = mset (ac_secured s) + mset (sending (ac_flights s)) + mset (ac_dropped s) \<and>
    (ac_channel_open s \<longrightarrow> ac_dropped s = []) \<and>
    length (ac_ready s) \<le> channel_capacity \<and> \<not> h_fault (ac_heap s) \<and>
    h_out (ac_heap s) = sum_list (map flight_units (ac_flights s)) + sum_list (map (pool_units \<circ> tc_pool) (ac_secured s))"

lemma allocate_ledger:
  assumes "res_allocate u h = (ok, h')"
  shows "h_fault h' = h_fault h" and "h_out h' = (if ok then {#u#} else {#}) + h_out h"
  using assms by (auto simp: res_allocate.simps split: list.splits bool.splits)

lemma make_pool_ledger:
  assumes "make_pool cfg h = (op, h')"
  shows "h_fault h' = h_fault h"
    and "h_out h' = (case op of None \<Rightarrow> {#} | Some p \<Rightarrow> pool_units p) + h_out h"
  using assms
  by (auto simp: make_pool_def pool_units_def Let_def dest: allocate_ledger
      split: if_splits prod.splits bool.splits)

lemma destroy_pool_ledger:
  assumes "\<not> h_fault h" and "h_out h = pool_units p + X"
  shows "\<not> h_fault (destroy_pool p h)" and "h_out (destroy_pool p h) = X"
  using assms by (simp_all add: destroy_pool_def pool_units_def res_deallocate_def split: if_splits)

lemma flight_start_ledger:
  assumes "flight_start a k h = (fs, h')"
  shows "\<forall>f\<in>set fs. flight_ok a' f" and "h_fault h' = h_fault h"
    and "h_out h' = sum_list (map flight_units fs) + h_out h" and "sending fs = []"
proof -
  obtain op h1 where m: "make_pool (sa_memory a) h = (op, h1)" by fastforce
  note l = make_pool_ledger [OF m]
  show "\<forall>f\<in>set fs. flight_ok a' f" "h_fault h' = h_fault h" "h_out h' = sum_list (map flight_units fs) + h_out h"
    "sending fs = []"
    using assms l m by (auto simp: flight_start_def make_accepted_def make_tcp_def split: option.splits)
qed

lemma flight_secured_ledger:
  assumes "flight_secured a session c h = (fs, h')" and "tc_state c = ESTABLISHED" and "tp_role (sa_provider a) = Server"
    and "sa_provider a = sa_provider a'" and "\<not> h_fault h" and "h_out h = pool_units (tc_pool c) + X"
  shows "\<forall>f\<in>set fs. flight_ok a' f" and "\<not> h_fault h'" and "h_out h' = sum_list (map flight_units fs) + X"
    and "sending fs = completes a session c"
proof -
  have pool: "tc_pool (snd (apply_security_done r c)) = tc_pool c" for r
    by (simp add: apply_security_done_def split: sum.split)
  have "(\<forall>f\<in>set fs. flight_ok a' f) \<and> \<not> h_fault h' \<and> h_out h' = sum_list (map flight_units fs) + X"
  proof (cases "secure (sa_provider a) session []")
    case (Inl e)
    then show ?thesis
      using assms(1) destroy_pool_ledger [OF assms(5,6)] by (auto simp: flight_secured_def apply_security_done_def)
  next
    case (Inr st)
    have "ts_context st = tp_context (sa_provider a') \<and> ss_handshake (ts_session st) = None"
      using Inr assms(3,4) by (auto simp: secure_def handshake_server_def make_tls_stream_def Let_def split: option.splits)
    then show ?thesis
      using assms(1,2,5,6) Inr by (auto simp: flight_secured_def apply_security_done_def secured_as_def)
  qed
  then show "\<forall>f\<in>set fs. flight_ok a' f" and "\<not> h_fault h'" and "h_out h' = sum_list (map flight_units fs) + X"
    by blast+
  show "sending fs = completes a session c"
    using assms(1,3)
    by (auto simp: flight_secured_def completes_def apply_security_done_def secure_def handshake_server_def
        make_tls_stream_def Let_def split: option.splits)
qed

lemma acceptance_inv_step:
  assumes "acceptor_step closed_ec s s'" and inv: "acceptance_inv a s" and role: "tp_role (sa_provider a) = Server"
  shows "acceptance_inv a s'"
  using assms(1)
proof (cases rule: acceptor_step.cases)
  case (astep_accept answer)
  then show ?thesis using inv by (auto simp: acceptance_inv_def after_accept_def split: accept_step.split)
next
  case astep_accept_closed
  then show ?thesis using inv by (auto simp: acceptance_inv_def after_accept_def split: accept_step.split)
next
  case (astep_start xs k ys fs h)
  note l = flight_start_ledger [OF astep_start(3)]
  show ?thesis using inv l astep_start(2) unfolding astep_start(1) by (auto simp: acceptance_inv_def ac_simps)
next
  case (astep_secured xs c ys session fs h)
  have "h_out (ac_heap s) = pool_units (tc_pool c) + (sum_list (map flight_units (xs @ ys)) +
      sum_list (map (pool_units \<circ> tc_pool) (ac_secured s)))" "tc_state c = ESTABLISHED" "\<not> h_fault (ac_heap s)"
    "sa_provider (ac_acceptor s) = sa_provider a"
    using inv astep_secured(2) by (simp_all add: acceptance_inv_def ac_simps)
  note l = flight_secured_ledger [OF astep_secured(3) this(2) _ this(4,3,1)]
  show ?thesis
    using inv l role astep_secured(2) unfolding astep_secured(1) by (auto simp: acceptance_inv_def ac_simps)
next
  case (astep_send xs c ys)
  then show ?thesis using inv by (auto simp: acceptance_inv_def ac_simps)
next
  case (astep_send_closed xs c ys)
  have "h_out (ac_heap s) = pool_units (tc_pool c) + (sum_list (map flight_units (xs @ ys)) +
      sum_list (map (pool_units \<circ> tc_pool) (ac_secured s)))" "\<not> h_fault (ac_heap s)"
    using inv astep_send_closed(2) by (simp_all add: acceptance_inv_def ac_simps)
  note d = destroy_pool_ledger [OF this(2,1)]
  show ?thesis using inv d astep_send_closed(2,3) unfolding astep_send_closed(1) by (auto simp: acceptance_inv_def)
next
  case (astep_deliver item items)
  then show ?thesis using inv by (cases item) (auto simp: acceptance_inv_def)
qed (use inv in \<open>auto simp: acceptance_inv_def sa_stop_def\<close>)

lemma acceptance_inv_reachable:
  "acceptor_reachable closed_ec a s \<Longrightarrow> tp_role (sa_provider a) = Server \<Longrightarrow> acceptance_inv a s"
proof (induction rule: acceptor_reachable.induct)
  case (areach_start junk grants)
  show ?case by (simp add: acceptance_inv_def acceptance_start_def sa_start_def empty_heap_def)
next
  case (areach_step s s')
  then show ?case using acceptance_inv_step by blast
qed

text \<open>Once the channel is closed it takes nothing more.\<close>

lemma closed_takes_nothing:
  "(acceptor_step closed_ec)\<^sup>*\<^sup>* s s' \<Longrightarrow> \<not> ac_channel_open s \<Longrightarrow> \<not> ac_channel_open s' \<and> ac_secured s' = ac_secured s"
proof (induction rule: rtranclp_induct)
  case (step s1 s2)
  then have "\<not> ac_channel_open s1" "ac_secured s1 = ac_secured s" by simp_all
  with step(2) show ?case
    by (cases rule: acceptor_step.cases) (auto simp: after_accept_def split: accept_step.split)
qed simp

text \<open>A loop whose wait began on the closed acceptor never ends.\<close>

definition spinning :: "acceptance \<Rightarrow> bool" where
  "spinning s \<longleftrightarrow> \<not> ac_open s \<and> (ac_loop s = Awaiting_Socket False \<or> (\<exists>ec. ac_loop s = Reporting ec))"

lemma spinning_not_over: "spinning s \<Longrightarrow> ac_loop s \<noteq> Accept_Over"
  by (auto simp: spinning_def)

lemma spins_on:
  assumes "ec_value closed_ec \<noteq> EC_operation_aborted"
  shows "(acceptor_step closed_ec)\<^sup>*\<^sup>* s s' \<Longrightarrow> spinning s \<Longrightarrow> spinning s'"
proof (induction rule: rtranclp_induct)
  case (step s1 s2)
  then have "spinning s1" by simp
  with step(2) assms show ?case
    by (cases rule: acceptor_step.cases) (auto simp: spinning_def after_accept_def accept_turn_def)
qed

lemma closed_cycle:
  assumes ec: "ec_value closed_ec \<noteq> EC_operation_aborted" "ec_value closed_ec \<noteq> EC_connection_aborted"
    and s: "ac_loop s = Awaiting_Socket False" "\<not> ac_open s" "\<not> ac_channel_open s"
  shows "\<exists>s1. acceptor_step closed_ec s s1 \<and> acceptor_step closed_ec s1 s"
proof (intro exI conjI)
  let ?t = "s\<lparr>ac_loop := Reporting closed_ec\<rparr>"
  have "after_accept (Accept_Failed closed_ec) s = ?t" using ec by (simp add: after_accept_def accept_turn_def)
  then show "acceptor_step closed_ec s ?t" using astep_accept_closed [OF s(1), of closed_ec] by simp
  have "?t\<lparr>ac_loop := Awaiting_Socket (ac_open ?t)\<rparr> = s" using s(1,2) by simp
  then show "acceptor_step closed_ec ?t s" using astep_report_closed [of ?t closed_ec closed_ec] s(3) by simp
qed

section \<open>Properties\<close>

text \<open>
  C8. A secure acceptor delivers exactly the connections whose TLS handshake has completed, each once, whatever the
  interleaving of accepting, handshakes, deliveries and stopping. For every handshake that the TLS library has
  completed there is one connection, over the accepted socket, established and secured with the acceptor's
  configuration, and it has been delivered, waits in the channel, or is about to be sent to it; only when the
  acceptor has been stopped may it have been dropped instead. There are no others: a failed handshake delivers
  nothing. The channel yields the connections in the order in which it took them, and holds at most its capacity.
  What is allocated is what the connections in flight and those taken hold, so that failed handshakes and
  dropped connections give everything back. Once stopped, the channel takes no connection any more.
\<close>

theorem secure_acceptor_delivers:
  assumes "acceptor_reachable closed_ec a s" and "tp_role (sa_provider a) = Server"
  shows "mset (ac_completed s) = mset (ac_delivered s @ conns_in (ac_ready s)) + mset (sending (ac_flights s))
      + mset (ac_dropped s) \<and>
    (ac_channel_open s \<longrightarrow> ac_dropped s = []) \<and>
    (\<forall>c\<in>set (ac_delivered s). secured_as a c) \<and> ac_delivered s @ conns_in (ac_ready s) = ac_secured s \<and>
    length (ac_ready s) \<le> channel_capacity \<and> \<not> h_fault (ac_heap s) \<and>
    h_out (ac_heap s) = sum_list (map flight_units (ac_flights s)) + sum_list (map (pool_units \<circ> tc_pool) (ac_secured s)) \<and>
    (\<not> ac_channel_open s \<longrightarrow> (\<forall>s'. (acceptor_step closed_ec)\<^sup>*\<^sup>* s s' \<longrightarrow> ac_secured s' = ac_secured s))"
proof -
  have i: "acceptance_inv a s" using assms by (rule acceptance_inv_reachable)
  then have eq: "ac_delivered s @ conns_in (ac_ready s) = ac_secured s" by (simp add: acceptance_inv_def)
  then have "set (ac_delivered s) \<subseteq> set (ac_secured s)" by (metis set_append sup_ge1)
  then show ?thesis using i closed_takes_nothing unfolding eq acceptance_inv_def by blast
qed

definition demo_acceptor :: secure_acceptor where
  "demo_acceptor = make_secure_acceptor (Any_IPv4, 443) (make_provider (fresh_context default_security) Server [])
     default_memory_config"

lemma secure_acceptor_delivers_witness:
  "\<exists>s c. acceptor_reachable bad_descriptor demo_acceptor s \<and> ac_delivered s = [c] \<and> secured_as demo_acceptor c"
proof -
  let ?a = demo_acceptor and ?h = "empty_heap (\<lambda>_. 0) []"
  let ?p = "\<lparr>pool_resource = default_message_resource, pool_block_size = 65536, pool_max_live = 0, pool_live = None\<rparr>"
  let ?c = "make_accepted ?p None None"
  let ?st = "make_tls_stream (tp_context (sa_provider ?a)) demo_session"
  let ?d = "?c\<lparr>tc_stream := TlsStream ?st\<rparr>"
  have role: "tp_role (sa_provider ?a) = Server"
    by (simp add: demo_acceptor_def make_secure_acceptor_def make_provider_def)
  define s0 where "s0 = acceptance_start ?a ?h"
  define s1 where "s1 = after_accept (Accepted (None, None)) s0"
  define s2 where "s2 = s1\<lparr>ac_flights := [] @ [Handshaking ?c] @ [], ac_heap := ?h\<rparr>"
  define s3 where "s3 = s2\<lparr>ac_flights := [] @ [Sending ?d] @ [], ac_heap := ?h,
    ac_completed := ac_completed s2 @ completes (ac_acceptor s2) demo_session ?c\<rparr>"
  define s4 where "s4 = s3\<lparr>ac_flights := [] @ [], ac_ready := ac_ready s3 @ [Inr ?d], ac_secured := ac_secured s3 @ [?d]\<rparr>"
  define s5 where "s5 = s4\<lparr>ac_ready := [], ac_delivered := ac_delivered s4 @ [?d]\<rparr>"
  note defs = s5_def s4_def s3_def s2_def s1_def s0_def after_accept_def accept_turn_def acceptance_start_def
  have "acceptor_reachable bad_descriptor ?a s0" unfolding s0_def by (rule areach_start)
  then have "acceptor_reachable bad_descriptor ?a s1" unfolding s1_def
    by (rule areach_step) (rule astep_accept, simp_all add: s0_def acceptance_start_def)
  then have "acceptor_reachable bad_descriptor ?a s2" unfolding s2_def
    by (rule areach_step) (rule astep_start [where k = "(None, None)"], simp_all add: defs flight_start_def sa_start_def
        make_pool_def demo_acceptor_def make_secure_acceptor_def default_memory_config_def)
  then have "acceptor_reachable bad_descriptor ?a s3" unfolding s3_def
    by (rule areach_step) (rule astep_secured [where c = ?c and session = demo_session], simp_all add: defs
        flight_secured_def sa_start_def secure_def role handshake_server_def make_tls_stream_def demo_session_def
        apply_security_done_def)
  then have "acceptor_reachable bad_descriptor ?a s4" unfolding s4_def
    by (rule areach_step) (rule astep_send [where c = ?d], simp_all add: defs channel_capacity_def)
  then have r: "acceptor_reachable bad_descriptor ?a s5" unfolding s5_def
    using areach_step [OF _ astep_deliver [of s4 "Inr ?d" "[]"]] by (simp add: defs)
  moreover have "ac_delivered s5 = [?d]" by (simp add: defs)
  ultimately show ?thesis using secure_acceptor_delivers [OF r role] by auto
qed

text \<open>
  C37. A secure acceptor may never end. When a connection has been accepted, or reset, by the time the posted stop
  closes the acceptor, the accept loop goes on to wait on the closed acceptor; the error it gets is not the one
  of a cancelled wait, so the loop reports it to the closed channel, which answers at once, and waits again: a
  state is reachable in which everything has stopped, but from which the loop never ends and can always repeat.
\<close>

theorem closed_acceptor_spins:
  assumes "ec_value closed_ec \<noteq> EC_operation_aborted" and "ec_value closed_ec \<noteq> EC_connection_aborted"
  shows "\<exists>s. acceptor_reachable closed_ec a s \<and> \<not> ac_open s \<and> \<not> ac_channel_open s \<and> ac_flights s = [] \<and>
    ac_ready s = [] \<and> ac_stops s = 0 \<and> (\<forall>s'. (acceptor_step closed_ec)\<^sup>*\<^sup>* s s' \<longrightarrow> ac_loop s' \<noteq> Accept_Over) \<and>
    (\<exists>s1. acceptor_step closed_ec s s1 \<and> acceptor_step closed_ec s1 s)"
proof -
  let ?s0 = "acceptance_start a (empty_heap (\<lambda>_. 0) [])"
  let ?s1 = "?s0\<lparr>ac_acceptor := sa_stop (ac_acceptor ?s0), ac_stops := Suc (ac_stops ?s0)\<rparr>"
  let ?s2 = "?s1\<lparr>ac_stops := 0, ac_open := False, ac_channel_open := False\<rparr>"
  let ?reset = "Accept_Failed \<lparr>ec_value = EC_connection_aborted, ec_message = ''reset''\<rparr>"
  let ?s = "after_accept ?reset ?s2"
  have "acceptor_reachable closed_ec a ?s1" using areach_step [OF areach_start astep_stop] .
  then have "acceptor_reachable closed_ec a ?s2"
    by (rule areach_step) (rule astep_stopped, simp add: acceptance_start_def)
  then have r: "acceptor_reachable closed_ec a ?s"
    by (rule areach_step) (rule astep_accept, simp_all add: acceptance_start_def)
  have s: "ac_loop ?s = Awaiting_Socket False" "\<not> ac_open ?s" "\<not> ac_channel_open ?s" "ac_flights ?s = []"
    "ac_ready ?s = []" "ac_stops ?s = 0"
    by (simp_all add: after_accept_def accept_turn_def acceptance_start_def)
  have "spinning ?s" using s by (simp add: spinning_def)
  then have "\<forall>s'. (acceptor_step closed_ec)\<^sup>*\<^sup>* ?s s' \<longrightarrow> ac_loop s' \<noteq> Accept_Over"
    using spins_on [OF assms(1)] spinning_not_over by blast
  moreover have "\<exists>s1. acceptor_step closed_ec ?s s1 \<and> acceptor_step closed_ec s1 ?s"
    using assms s(1-3) by (rule closed_cycle)
  ultimately show ?thesis using r s by blast
qed

lemma closed_acceptor_spins_witness:
  "\<exists>s. acceptor_reachable bad_descriptor demo_acceptor s \<and>
    \<not> ac_open s \<and> ac_flights s = []"
  using closed_acceptor_spins [of bad_descriptor] by (auto simp: bad_descriptor_def)

end
