(* ===== verification/Udp_Order.thy ===== *)
theory Udp_Order
  imports Udp_Demux
begin

text \<open>
  What the peers of a UDP listener can rely on, over whole runs of the demultiplexer: a connection receives
  only datagrams of its own source, and those it receives come in the order in which they arrived. The run is
  recorded as two histories, the datagrams that arrived, with their sources, and those that receives returned,
  with their connections.
\<close>

section \<open>Runs with their history\<close>

text \<open>The handlers and calls that neither take a datagram from the socket nor return one to the application.\<close>

inductive other_step :: "int \<Rightarrow> int \<times> ('e, 'd) demux \<Rightarrow> int \<times> ('e, 'd) demux \<Rightarrow> bool" for idle_secs where
  ostep_loop: "loop_step dx dx' \<Longrightarrow> other_step idle_secs (t, dx) (t, dx')"
| ostep_event: "event_step dx dx' \<Longrightarrow> other_step idle_secs (t, dx) (t, dx')"
| ostep_sweep: "t \<le> now \<Longrightarrow> dx_sweeping dx = Timer_Expired \<Longrightarrow> other_step idle_secs (t, dx) (now, sweep now idle_secs dx)"
| ostep_task: "dx_posted dx \<noteq> [] \<Longrightarrow> other_step idle_secs (t, dx) (t, run_task dx)"
| ostep_stop: "other_step idle_secs (t, dx) (t, stop_accepting dx)"
| ostep_accept: "other_step idle_secs (t, dx) (t, snd (demux_accept got dx))"
| ostep_close: "other_step idle_secs (t, dx) (t, passive_close c dx)"
| ostep_abort: "other_step idle_secs (t, dx) (t, passive_abort c dx)"
| ostep_destroy: "other_step idle_secs (t, dx) (t, passive_destroy c dx)"

definition returned :: "nat \<Rightarrow> 'd result option \<Rightarrow> (nat \<times> 'd) list" where
  "returned c res = (case res of Some (Inr d) \<Rightarrow> [(c, d)] | _ \<Rightarrow> [])"

inductive demux_history ::
  "nat \<Rightarrow> int \<Rightarrow> int \<times> ('e, 'd) demux \<Rightarrow> ('e \<times> 'd) list \<Rightarrow> (nat \<times> 'd) list \<Rightarrow> bool" for limit idle_secs where
  hist_start: "demux_history limit idle_secs (t, snd (demux_start None make_demux)) [] []"
| hist_datagram: "demux_history limit idle_secs (t, dx) arrived delivered \<Longrightarrow> t \<le> now \<Longrightarrow> dx_loop dx = Read_Done \<Longrightarrow>
    dx_mailboxes (make_room limit dx) a = None \<Longrightarrow>
    demux_history limit idle_secs (now, on_datagram limit now a sent granted sender d (dx\<lparr>dx_loop := Read_Next\<rparr>))
      (arrived @ [(sender, d)]) delivered"
| hist_receive: "demux_history limit idle_secs (t, dx) arrived delivered \<Longrightarrow> map_of (dx_conns dx) c \<noteq> None \<Longrightarrow>
    passive_receive r c dx = (res, dx') \<Longrightarrow>
    demux_history limit idle_secs (t, dx') arrived (delivered @ returned c res)"
| hist_other: "demux_history limit idle_secs s arrived delivered \<Longrightarrow> other_step idle_secs s s' \<Longrightarrow>
    demux_history limit idle_secs s' arrived delivered"

lemma other_step_demux: "other_step idle_secs s s' \<Longrightarrow> demux_step limit idle_secs s s'"
  by (induction rule: other_step.induct) (auto intro: demux_step.intros)

lemma history_reachable: "demux_history limit idle_secs s arrived delivered \<Longrightarrow> demux_reachable limit idle_secs s"
proof (induction rule: demux_history.induct)
  case (hist_receive t dx arrived delivered c r res dx')
  then show ?case using dreach_step [OF _ dstep_receive] by (metis snd_conv)
qed (auto intro: dreach_init dreach_step dstep_datagram other_step_demux)

text \<open>Every run has its history.\<close>

lemma demux_step_kinds:
  assumes "demux_step limit idle_secs s s'"
  obtains (datagram) t dx now a sent granted sender d where "s = (t, dx)"
      "s' = (now, on_datagram limit now a sent granted sender d (dx\<lparr>dx_loop := Read_Next\<rparr>))" "t \<le> now" "dx_loop dx = Read_Done"
      "dx_mailboxes (make_room limit dx) a = None"
  | (receive) t dx c r where "s = (t, dx)" "s' = (t, snd (passive_receive r c dx))" "map_of (dx_conns dx) c \<noteq> None"
  | (other) "other_step idle_secs s s'"
  using assms
proof (cases rule: demux_step.cases)
  case dstep_datagram
  then show ?thesis by (intro that(1)) auto
next
  case (dstep_receive dx c t r)
  then show ?thesis by (intro that(2))
qed (auto intro: that(3) other_step.intros)

lemma reachable_history: "demux_reachable limit idle_secs s \<Longrightarrow> \<exists>arrived delivered. demux_history limit idle_secs s arrived delivered"
proof (induction rule: demux_reachable.induct)
  case (dreach_init t)
  then show ?case using hist_start by blast
next
  case (dreach_step s s')
  then obtain arrived delivered where h: "demux_history limit idle_secs s arrived delivered" by blast
  from dreach_step(2) show ?case
  proof (cases rule: demux_step_kinds)
    case (datagram t dx now a sent granted sender d)
    then show ?thesis using hist_datagram [OF h [unfolded datagram(1)] datagram(3-5)] by blast
  next
    case (receive t dx c r)
    obtain res dx' where p: "passive_receive r c dx = (res, dx')" by fastforce
    from hist_receive [OF h [unfolded receive(1)] receive(3) p] p receive(2) show ?thesis by auto
  next
    case other
    from hist_other [OF h this] show ?thesis by blast
  qed
qed

section \<open>What the steps leave alone\<close>

text \<open>Connections and entries by what never changes in them.\<close>

definition conn_view :: "('e, 'd) demux \<Rightarrow> (nat \<times> 'e \<times> nat) set" where
  "conn_view dx = (\<lambda>p. (fst p, pc_remote (snd p), pc_mailbox (snd p))) ` set (dx_conns dx)"

definition entry_view :: "('e, 'd) demux \<Rightarrow> ('e \<times> nat) set" where
  "entry_view dx = (\<lambda>p. (en_source (snd p), en_mailbox (snd p))) ` set (dx_lru dx)"

definition quiet :: "('e, 'd) demux \<Rightarrow> ('e, 'd) demux \<Rightarrow> bool" where
  "quiet dx dx' \<longleftrightarrow>
    conn_view dx' \<subseteq> conn_view dx \<and> entry_view dx' \<subseteq> entry_view dx \<and> dx_next dx' = dx_next dx \<and>
    (\<forall>a mb'. dx_mailboxes dx' a = Some mb' \<longrightarrow>
      (\<exists>mb. dx_mailboxes dx a = Some mb \<and> mb_queue mb' = mb_queue mb))"

lemma quiet_refl [simp]: "quiet dx dx"
  by (simp add: quiet_def)

lemma quiet_trans: "quiet dx dx1 \<Longrightarrow> quiet dx1 dx2 \<Longrightarrow> quiet dx dx2"
  unfolding quiet_def by (metis subset_trans)

lemma quiet_same:
  "dx_conns dx' = dx_conns dx \<Longrightarrow> dx_lru dx' = dx_lru dx \<Longrightarrow> dx_next dx' = dx_next dx \<Longrightarrow>
    dx_mailboxes dx' = dx_mailboxes dx \<Longrightarrow> quiet dx dx'"
  by (simp add: quiet_def conn_view_def entry_view_def)

lemma quiet_coroutines: "coroutines_only dx dx' \<Longrightarrow> quiet dx dx'"
  by (rule quiet_same) (simp_all add: coroutines_only_fields)

lemma quiet_drop_mailbox: "quiet dx (drop_mailbox a dx)"
  by (auto simp: quiet_def conn_view_def entry_view_def drop_mailbox_def split: if_splits)

lemma quiet_evict: "quiet dx (evict it cause dx)"
proof (cases "map_of (dx_lru dx) it")
  case None
  then show ?thesis by (auto simp: evict_def intro: quiet_same)
next
  case (Some e)
  let ?dx = "dx\<lparr>dx_mailboxes := close_mailbox cause (en_mailbox e) (dx_mailboxes dx),
               dx_index := filter (\<lambda>p. fst p \<noteq> en_source e) (dx_index dx),
               dx_lru := filter (\<lambda>p. fst p \<noteq> it) (dx_lru dx)\<rparr>"
  have "quiet dx ?dx"
    by (auto simp: quiet_def conn_view_def entry_view_def close_mailbox_def split: if_splits)
  then show ?thesis using Some quiet_drop_mailbox [of ?dx] quiet_trans by (auto simp: evict_def)
qed

lemma quiet_shut_down: "quiet dx (shut_down_if_unused dx)"
  by (rule quiet_same) simp_all

lemma quiet_make_room: "quiet dx (make_room limit dx)"
  by (simp add: make_room_def quiet_evict)

lemma quiet_sweep_evict: "quiet dx (sweep_evict cutoff dx)"
proof (induction cutoff dx rule: sweep_evict.induct)
  case (1 cutoff dx)
  then show ?case
    using quiet_evict [of dx "fst (last (dx_lru dx))" idle] quiet_trans
    by (subst sweep_evict.simps) (auto simp del: sweep_evict.simps)
qed

lemma quiet_sweep: "quiet dx (sweep now idle_secs dx)"
proof -
  have "quiet dy (dy\<lparr>dx_sweeping := ti\<rparr>)" for dy :: "('a, 'b) demux" and ti by (rule quiet_same) simp_all
  then show ?thesis
    unfolding sweep_def using quiet_trans quiet_sweep_evict quiet_shut_down by blast
qed

lemma quiet_exec: "quiet dx (exec_task task dx)"
proof (cases task)
  case (Release source a)
  have "quiet dx (dx\<lparr>dx_fault := True\<rparr>)" by (rule quiet_same) simp_all
  then show ?thesis
    by (auto simp: Release intro!: quiet_trans [OF _ quiet_shut_down] quiet_evict split: option.split)
next
  case Stop
  have "quiet dx (dx\<lparr>dx_accepting := False\<rparr>)" by (rule quiet_same) simp_all
  then show ?thesis using Stop quiet_trans [OF _ quiet_shut_down] by simp
qed

lemma quiet_task: "quiet dx (run_task dx)"
proof (cases "dx_posted dx")
  case (Cons task ts)
  have "quiet dx (dx\<lparr>dx_posted := ts\<rparr>)" by (rule quiet_same) simp_all
  from quiet_trans [OF this quiet_exec] show ?thesis using Cons by (simp add: run_task_def)
qed (simp add: run_task_def)

lemma quiet_upd_conn:
  "(\<And>pc. pc_remote (f pc) = pc_remote pc \<and> pc_mailbox (f pc) = pc_mailbox pc) \<Longrightarrow> quiet dx (upd_conn c f dx)"
  by (force simp: quiet_def conn_view_def entry_view_def upd_conn_def)

lemma quiet_release: "quiet dx (passive_release c dx)"
proof -
  have "quiet dx1 (demux_release source a dx1)" for dx1 :: "('a, 'b) demux" and source a
    by (rule quiet_same) (simp_all add: demux_release_def)
  from quiet_trans [OF quiet_upd_conn this] show ?thesis by (simp add: passive_release_def split: option.split)
qed

lemma quiet_close: "quiet dx (passive_close c dx)" "quiet dx (passive_abort c dx)"
proof -
  show c: "quiet dx (passive_close c dx)" for dx :: "('a, 'b) demux"
    unfolding passive_close_def by (rule quiet_trans [OF quiet_upd_conn quiet_release]) simp
  show "quiet dx (passive_abort c dx)"
    unfolding passive_abort_def by (rule quiet_trans [OF quiet_upd_conn c]) simp
qed

lemma quiet_destroy: "quiet dx (passive_destroy c dx)"
proof (cases "map_of (dx_conns dx) c")
  case (Some pc)
  let ?dx1 = "passive_release c dx"
  let ?dx2 = "?dx1\<lparr>dx_conns := filter (\<lambda>p. fst p \<noteq> c) (dx_conns ?dx1)\<rparr>"
  have "quiet ?dx1 ?dx2" by (auto simp: quiet_def conn_view_def entry_view_def)
  then have "quiet dx (drop_mailbox a ?dx2)" for a
    using quiet_trans [OF quiet_trans [OF quiet_release _] quiet_drop_mailbox] by blast
  then show ?thesis using Some by (simp add: passive_destroy_def Let_def)
qed (simp add: passive_destroy_def)

lemma quiet_other: "other_step idle_secs s s' \<Longrightarrow> quiet (snd s) (snd s')"
proof (induction rule: other_step.induct)
  case (ostep_loop dx dx' t)
  then show ?case by (simp add: quiet_coroutines loop_step_only)
next
  case (ostep_event dx dx' t)
  then show ?case by (simp add: quiet_coroutines event_step_only)
next
  case (ostep_accept t dx got)
  show ?case by (cases got) (simp_all add: demux_accept_def quiet_upd_conn)
next
  case (ostep_stop t dx)
  show ?case by (simp, rule quiet_same) (simp_all add: stop_accepting_def)
qed (simp_all add: quiet_sweep quiet_task quiet_close quiet_destroy)

section \<open>The order of a source's datagrams\<close>

definition from_source :: "'e \<Rightarrow> ('e \<times> 'd) list \<Rightarrow> 'd list" where
  "from_source e arrived = map snd (filter (\<lambda>p. fst p = e) arrived)"

definition got_by :: "nat \<Rightarrow> (nat \<times> 'd) list \<Rightarrow> 'd list" where
  "got_by c delivered = map snd (filter (\<lambda>p. fst p = c) delivered)"

lemma from_source_snoc [simp]:
  "from_source e (arrived @ [p]) = from_source e arrived @ (if fst p = e then [snd p] else [])"
  by (simp add: from_source_def)

lemma got_by_append [simp]:
  "got_by c (delivered @ returned k res) = got_by c delivered @
    (case res of Some (Inr d) \<Rightarrow> if k = c then [d] else [] | _ \<Rightarrow> [])"
  by (simp add: got_by_def returned_def split: option.split sum.split)

text \<open>
  Every connection has a mailbox of its own, which at most the entry of its own source refers to, and what its
  receives have returned, with what is queued, is a part of what its source sent.
\<close>

definition ordered :: "('e, 'd) demux \<Rightarrow> ('e \<times> 'd) list \<Rightarrow> (nat \<times> 'd) list \<Rightarrow> bool" where
  "ordered dx arrived delivered \<longleftrightarrow>
    (\<forall>c e a. (c, e, a) \<in> conn_view dx \<longrightarrow>
      (\<forall>c' e'. (c', e', a) \<in> conn_view dx \<longrightarrow> c' = c) \<and> (\<forall>e'. (e', a) \<in> entry_view dx \<longrightarrow> e' = e) \<and>
      (\<forall>mb. dx_mailboxes dx a = Some mb \<longrightarrow> subseq (got_by c delivered @ mb_queue mb) (from_source e arrived))) \<and>
    (\<forall>p\<in>set delivered. fst p < dx_next dx)"

lemma orderedD:
  assumes "ordered dx arrived delivered" and "(c, e, a) \<in> conn_view dx"
  shows "(c', e', a) \<in> conn_view dx \<Longrightarrow> c' = c" and "(e', a) \<in> entry_view dx \<Longrightarrow> e' = e"
    and "dx_mailboxes dx a = Some mb \<Longrightarrow> subseq (got_by c delivered @ mb_queue mb) (from_source e arrived)"
  using assms unfolding ordered_def by blast+

lemma ordered_quiet: "ordered dx arrived delivered \<Longrightarrow> quiet dx dx' \<Longrightarrow> ordered dx' arrived delivered"
proof -
  assume o: "ordered dx arrived delivered" and "quiet dx dx'"
  then have q: "conn_view dx' \<subseteq> conn_view dx" "entry_view dx' \<subseteq> entry_view dx" "dx_next dx' = dx_next dx"
    and m: "\<And>a mb'. dx_mailboxes dx' a = Some mb' \<Longrightarrow> \<exists>mb. dx_mailboxes dx a = Some mb \<and> mb_queue mb' = mb_queue mb"
    by (simp_all add: quiet_def)
  show "ordered dx' arrived delivered"
    unfolding ordered_def
  proof (intro conjI allI impI ballI)
    fix c e a assume v: "(c, e, a) \<in> conn_view dx'"
    then have old: "(c, e, a) \<in> conn_view dx" using q(1) by blast
    show "c' = c" if "(c', e', a) \<in> conn_view dx'" for c' e' using orderedD(1) [OF o old] that q(1) by blast
    show "e' = e" if "(e', a) \<in> entry_view dx'" for e' using orderedD(2) [OF o old] that q(2) by blast
    show "subseq (got_by c delivered @ mb_queue mb) (from_source e arrived)" if "dx_mailboxes dx' a = Some mb" for mb
      using orderedD(3) [OF o old] m [OF that] by fastforce
  qed (use o q(3) in \<open>auto simp: ordered_def\<close>)
qed

lemma ordered_start: "ordered (snd (demux_start None make_demux)) [] []"
  by (simp add: ordered_def conn_view_def demux_start_def make_demux_def)

lemma dx_next_datagram: "dx_next dx \<le> dx_next (on_datagram limit now a sent granted sender d dx)"
proof -
  have "dx_next (deliver_to g x b dy) = dx_next dy" for g x b and dy :: "('a, 'b) demux"
    by (simp add: deliver_to_def split: option.split prod.split bool.split)
  moreover have "dx_next (make_room limit dx) = dx_next dx" using quiet_make_room [of dx limit] by (simp add: quiet_def)
  ultimately show ?thesis by (simp add: on_datagram_def Let_def split: option.split)
qed

lemma view_inv:
  assumes "demux_inv dx"
  shows "(c, e, a) \<in> conn_view dx \<Longrightarrow> c < dx_next dx \<and> dx_mailboxes dx a \<noteq> None"
    and "(e, a) \<in> entry_view dx \<Longrightarrow> dx_mailboxes dx a \<noteq> None"
  using assms by (fastforce simp: demux_inv_def conn_view_def entry_view_def)+

text \<open>What a delivery adds, at most.\<close>

lemma deliver_subseq:
  assumes "mb_ok mb"
  shows "subseq (mb_queue (snd (snd (deliver granted d mb)))) (mb_queue mb @ [d])"
proof -
  obtain fin gone mb' where r: "deliver granted d mb = (fin, gone, mb')" using prod_cases3 by blast
  note d = deliver_correct [OF assms r]
  have "subseq (tl q) q" for q :: "'a list" by (cases q) auto
  then show ?thesis
    using d(5-7) r by (cases fin; cases "mb_closed mb") (auto split: if_splits intro: subseq_append')
qed

lemma ordered_datagram:
  assumes o: "ordered dx arrived delivered" and inv: "demux_inv dx"
    and limit: "1 \<le> limit" "length (dx_lru dx) \<le> limit"
    and fresh: "dx_mailboxes (make_room limit dx) a = None"
  shows "ordered (on_datagram limit now a sent granted sender d dx) (arrived @ [(sender, d)]) delivered"
proof -
  define dx' where "dx' = on_datagram limit now a sent granted sender d dx"
  have grows: "ordered dy (arrived @ [(sender, d)]) delivered" if "ordered dy arrived delivered" for dy :: "('a, 'b) demux"
    using that list_emb_prefix unfolding ordered_def from_source_snoc by blast
  have o1: "\<forall>p\<in>set delivered. fst p < dx_next dx'"
    using o dx_next_datagram [of dx limit now a sent granted sender d] unfolding ordered_def dx'_def by fastforce
  consider (known) it en where "(it, en) \<in> set (dx_lru dx)" "en_source en = sender"
    | (new) "sender \<notin> en_source ` snd ` set (dx_lru dx)" by force
  then have "ordered dx' (arrived @ [(sender, d)]) delivered"
  proof cases
    case known
    have "dx' = on_datagram limit now a sent granted (en_source en) d dx" by (simp add: dx'_def known(2))
    note k = on_datagram_known [OF inv known(1) this]
    have "(en_source en, en_mailbox en) \<in> entry_view dx" using known(1) by (force simp: entry_view_def)
    then have view: "conn_view dx' = conn_view dx" "entry_view dx' \<subseteq> entry_view dx"
      using k(2,6) by (auto simp: conn_view_def entry_view_def)
    show ?thesis
      unfolding ordered_def view(1)
    proof (intro conjI allI impI)
      fix c e b assume v: "(c, e, b) \<in> conn_view dx"
      show "c' = c" if "(c', e', b) \<in> conn_view dx" for c' e' using orderedD(1) [OF o v that] .
      show "e' = e" if "(e', b) \<in> entry_view dx'" for e' using orderedD(2) [OF o v] that view(2) by blast
      show "subseq (got_by c delivered @ mb_queue mb) (from_source e (arrived @ [(sender, d)]))"
        if mb: "dx_mailboxes dx' b = Some mb" for mb
      proof (cases "b = en_mailbox en")
        case False
        then have "subseq (got_by c delivered @ mb_queue mb) (from_source e arrived)"
          using orderedD(3) [OF o v] mb k(8) by simp
        then show ?thesis by (simp add: list_emb_prefix)
      next
        case True
        have "(sender, b) \<in> entry_view dx" using known True by (force simp: entry_view_def)
        then have e: "e = sender" using orderedD(2) [OF o v] by blast
        obtain mb0 where mb0: "dx_mailboxes dx b = Some mb0" "mb_ok mb0" "mb = snd (snd (deliver granted d mb0))"
          using k(7) True mb by auto
        have "subseq (got_by c delivered @ mb_queue mb0) (from_source e arrived)"
          using orderedD(3) [OF o v mb0(1)] .
        then have "subseq ((got_by c delivered @ mb_queue mb0) @ [d]) (from_source e arrived @ [d])"
          by (rule list_emb_append_mono) simp
        moreover have "subseq (got_by c delivered @ mb_queue mb) (got_by c delivered @ mb_queue mb0 @ [d])"
          using deliver_subseq [OF mb0(2)] by (simp add: mb0(3) subseq_append')
        ultimately show ?thesis using e by (auto intro: subseq_order.order_trans)
      qed
    qed (use o1 in blast)
  next
    case new
    show ?thesis
    proof (cases "dx_accepting dx")
      case False
      have "index_find sender dx = None" using new index_find_none [OF inv] by blast
      then have "dx' = dx" using False by (simp add: dx'_def on_datagram_def)
      then show ?thesis using grows [OF o] by simp
    next
      case True
      define dx1 where "dx1 = make_room limit dx"
      have o2: "ordered dx1 arrived delivered" using o quiet_make_room unfolding dx1_def by (rule ordered_quiet)
      note r = make_room_correct [OF inv limit, folded dx1_def]
      note n = on_datagram_new [OF inv True new limit fresh dx'_def]
      have conns: "conn_view dx1 = conn_view dx" using r(4) by (simp add: conn_view_def)
      have view: "conn_view dx' = (if sent then insert (dx_next dx, sender, a) (conn_view dx1) else conn_view dx1)"
        "entry_view dx' = insert (sender, a) (entry_view dx1)"
        using n(4,8,9) r(3) conns by (auto simp: conn_view_def entry_view_def)
      have other: "b \<noteq> a" if "(c, e, b) \<in> conn_view dx1 \<or> (e, b) \<in> entry_view dx1" for c e b
        using view_inv [OF r(1)] that fresh unfolding dx1_def [symmetric] by blast
      show ?thesis
        unfolding ordered_def
      proof (intro conjI allI impI)
        fix c e b assume v: "(c, e, b) \<in> conn_view dx'"
        show "c' = c" if "(c', e', b) \<in> conn_view dx'" for c' e'
          using orderedD(1) [OF o2] v that other unfolding view(1) by (auto split: if_splits)
        show "e' = e" if "(e', b) \<in> entry_view dx'" for e'
          using orderedD(2) [OF o2] v that other unfolding view by (auto split: if_splits)
        show "subseq (got_by c delivered @ mb_queue mb) (from_source e (arrived @ [(sender, d)]))"
          if mb: "dx_mailboxes dx' b = Some mb" for mb
        proof (cases "(c, e, b) \<in> conn_view dx1")
          case True
          then have "b \<noteq> a" using other by blast
          then have "dx_mailboxes dx1 b = Some mb" using mb n(6) by (simp add: dx1_def)
          then have "subseq (got_by c delivered @ mb_queue mb) (from_source e arrived)"
            using orderedD(3) [OF o2 True] by blast
          then show ?thesis by (simp add: list_emb_prefix)
        next
          case False
          then have new: "c = dx_next dx" "e = sender" "b = a" "sent" using v by (auto simp: view(1) split: if_splits)
          have "got_by c delivered = []" using o new(1) by (fastforce simp: ordered_def got_by_def filter_empty_conv)
          moreover have "subseq (mb_queue mb) [d]"
            using deliver_subseq [OF mb_ok_make(1)] n(7) [OF new(4)] mb new(3) by (metis append_Nil mb_ok_make(2) option.inject)
          ultimately show ?thesis using new(2) by (auto intro: list_emb_append2)
        qed
      qed (use o1 in blast)
    qed
  qed
  then show ?thesis by (simp add: dx'_def)
qed

lemma look_takes_front:
  assumes "mb_ok mb" and "receive_look r mb = (look, mb')"
  shows "mb_queue mb = (case look of Got d \<Rightarrow> [d] | _ \<Rightarrow> []) @ mb_queue mb'"
proof (cases "mb_queue mb = []")
  case True
  then have "receive_look r mb = (if mb_closed mb then (Ended (mb_cause mb), mb) else (Suspended, mb_wait r mb))"
    using try_pop_correct(4) [OF assms(1)] by (simp add: receive_look_def)
  moreover have "mb_queue (mb_wait r mb) = mb_queue mb" by (simp add: mb_wait_def)
  ultimately show ?thesis using assms(2) by (auto split: if_splits)
next
  case False
  obtain mb1 where "try_pop mb = (Some (hd (mb_queue mb)), mb1)" "mb_queue mb1 = tl (mb_queue mb)"
    using try_pop_correct(5) [OF assms(1) False] by (metis prod.collapse)
  then show ?thesis using assms(2) False by (auto simp: receive_look_def)
qed

lemma ordered_receive:
  assumes o: "ordered dx arrived delivered" and inv: "demux_inv dx" and c: "map_of (dx_conns dx) c = Some pc"
    and run: "passive_receive r c dx = (res, dx')"
  shows "ordered dx' arrived (delivered @ returned c res)"
proof -
  have v: "(c, pc_remote pc, pc_mailbox pc) \<in> conn_view dx" using map_of_SomeD [OF c] by (force simp: conn_view_def)
  then obtain mb where mb: "dx_mailboxes dx (pc_mailbox pc) = Some mb" using view_inv(1) [OF inv] by blast
  have "(c, pc) \<in> set (dx_conns dx)" using c by (rule map_of_SomeD)
  then have ok: "mb_ok mb" using inv mb by (force simp: demux_inv_def)
  obtain look mb' where l: "receive_look r mb = (look, mb')" by fastforce
  have q: "mb_queue mb = (case res of Some (Inr d) \<Rightarrow> [d] | _ \<Rightarrow> []) @ mb_queue mb'"
    using run c mb l look_takes_front [OF ok l]
    by (auto simp: passive_receive_def Let_def split: look.splits)
  define dx1 where "dx1 = dx\<lparr>dx_mailboxes := (dx_mailboxes dx)(pc_mailbox pc \<mapsto> mb')\<rparr>"
  have "dx' = dx1 \<or> dx' = upd_conn c (\<lambda>pc. pc\<lparr>pc_state := CLOSED\<rparr>) dx1"
    using run c mb l by (auto simp: passive_receive_def dx1_def Let_def split: look.splits)
  moreover have "quiet dx1 (upd_conn c (\<lambda>pc. pc\<lparr>pc_state := CLOSED\<rparr>) dx1)" by (rule quiet_upd_conn) simp
  moreover have "ordered dx1 arrived (delivered @ returned c res)"
    unfolding ordered_def
  proof (intro conjI allI impI)
    have view: "conn_view dx1 = conn_view dx" "entry_view dx1 = entry_view dx"
      by (simp_all add: dx1_def conn_view_def entry_view_def)
    fix k e b assume w: "(k, e, b) \<in> conn_view dx1"
    then have w': "(k, e, b) \<in> conn_view dx" by (simp add: view)
    show "c' = k" if "(c', e', b) \<in> conn_view dx1" for c' e' using orderedD(1) [OF o w'] that view(1) by simp
    show "e' = e" if "(e', b) \<in> entry_view dx1" for e' using orderedD(2) [OF o w'] that view(2) by simp
    show "subseq (got_by k (delivered @ returned c res) @ mb_queue m) (from_source e arrived)"
      if m: "dx_mailboxes dx1 b = Some m" for m
    proof (cases "b = pc_mailbox pc")
      case True
      then have "c = k" using orderedD(1) [OF o w'] v by blast
      then show ?thesis
        using orderedD(3) [OF o w'] mb m True q by (auto simp: dx1_def split: option.splits sum.splits)
    next
      case False
      then have "c \<noteq> k" using w' v c by (auto simp: conn_view_def) (metis inv demux_inv_def Some_eq_map_of_iff option.inject)
      then show ?thesis
        using orderedD(3) [OF o w'] m False by (auto simp: dx1_def split: option.splits sum.splits)
    qed
  next
    have "c < dx_next dx" using view_inv(1) [OF inv v] by blast
    then show "\<forall>p\<in>set (delivered @ returned c res). fst p < dx_next dx1"
      using o by (auto simp: ordered_def dx1_def returned_def split: option.splits sum.splits)
  qed
  ultimately show ?thesis using ordered_quiet by blast
qed

lemma history_ordered:
  "demux_history limit idle_secs s arrived delivered \<Longrightarrow> 1 \<le> limit \<Longrightarrow> ordered (snd s) arrived delivered"
proof (induction rule: demux_history.induct)
  case (hist_start t)
  then show ?case by (simp add: ordered_start)
next
  case (hist_datagram t dx arrived delivered now a sent granted sender d)
  have "table_ok limit (t, dx)" using history_reachable [OF hist_datagram(1)] hist_datagram(6) by (rule table_ok_reachable)
  then have "demux_inv dx" "length (dx_lru dx) \<le> limit" by (simp_all add: table_ok_def)
  moreover have "quiet dx (dx\<lparr>dx_loop := Read_Next\<rparr>)" by (rule quiet_same) simp_all
  then have "ordered (dx\<lparr>dx_loop := Read_Next\<rparr>) arrived delivered"
    using ordered_quiet [of dx arrived delivered] hist_datagram by simp
  ultimately show ?case using ordered_datagram [of "dx\<lparr>dx_loop := Read_Next\<rparr>" arrived delivered limit a] hist_datagram by simp
next
  case (hist_receive t dx arrived delivered c r res dx')
  have "table_ok limit (t, dx)" using history_reachable [OF hist_receive(1)] hist_receive(5) by (rule table_ok_reachable)
  then have "demux_inv dx" by (simp add: table_ok_def)
  then show ?case using ordered_receive [of dx arrived delivered c] hist_receive by auto
next
  case (hist_other s arrived delivered s')
  then show ?case using ordered_quiet quiet_other by blast
qed

section \<open>Properties\<close>

text \<open>
  C10. A connection of a UDP listener receives its own peer's datagrams, in their order. In every run, whatever
  the interleaving with other sources, evictions, closing and stopping: what the receives on a connection have
  returned, followed by what its mailbox still holds, is a subsequence of the datagrams that arrived from the
  source it is connected to. Every run of the demultiplexer has such a history.
\<close>

theorem source_order_kept:
  assumes "demux_history (max_connections getenv) (idle_timeout getenv) (t, dx) arrived delivered"
    and "(c, pc) \<in> set (dx_conns dx)"
  shows "(\<exists>mb. dx_mailboxes dx (pc_mailbox pc) = Some mb \<and>
      subseq (got_by c delivered @ mb_queue mb) (from_source (pc_remote pc) arrived)) \<and>
    (demux_reachable (max_connections getenv) (idle_timeout getenv) s \<longrightarrow>
      (\<exists>arrived' delivered'. demux_history (max_connections getenv) (idle_timeout getenv) s arrived' delivered'))"
proof -
  have "table_ok (max_connections getenv) (t, dx)"
    using history_reachable [OF assms(1)] max_connections_pos by (rule table_ok_reachable)
  then have inv: "demux_inv dx" by (simp add: table_ok_def)
  have v: "(c, pc_remote pc, pc_mailbox pc) \<in> conn_view dx" using assms(2) by (force simp: conn_view_def)
  obtain mb where "dx_mailboxes dx (pc_mailbox pc) = Some mb" using view_inv(1) [OF inv v] by blast
  moreover have "ordered dx arrived delivered" using history_ordered [OF assms(1) max_connections_pos] by simp
  ultimately show ?thesis using orderedD(3) [OF _ v] reachable_history by blast
qed

lemma source_order_kept_witness:
  "\<exists>mb. dx_mailboxes demo_demux 7 = Some mb \<and> subseq (mb_queue mb) [100]"
proof -
  have "demux_history 1024 30 (0, started_demux) [] []"
    unfolding started_demux_def by (rule hist_other [OF hist_start ostep_loop [OF loop_reads]]) code_simp
  then have "demux_history 1024 30 (0, started_demux\<lparr>dx_loop := Read_Done\<rparr>) [] []"
    by (rule hist_other [OF _ ostep_event [OF event_datagram]]) code_simp
  from hist_datagram [OF this, of 0 7 True True 1 100]
  have "demux_history 1024 30 (0, on_datagram 1024 0 7 True True 1 100 (started_demux\<lparr>dx_loop := Read_Next\<rparr>)) ([] @ [(1, 100)]) []"
    by (simp add: started_demux_def begin_read_def demux_start_def make_demux_def make_room_def)
  then have "demux_history 1024 30 (0, demo_demux) ([] @ [(1, 100)]) []"
    unfolding demo_demux_def by (rule hist_other [OF _ ostep_loop [OF loop_reads]]) code_simp
  then have h: "demux_history (max_connections (\<lambda>_. None)) (idle_timeout (\<lambda>_. None)) (0, demo_demux) ([] @ [(1, 100)]) []"
    by (simp add: no_environment)
  have "dx_conns demo_demux = [(0, make_passive 1 7)]" by code_simp
  then have c: "(0, make_passive 1 7) \<in> set (dx_conns demo_demux)" by simp
  from source_order_kept [OF h c, of "(0, demo_demux)"] show ?thesis
    by (auto simp: got_by_def from_source_def simp del: One_nat_def)
qed

end
