(* ===== verification/Examples.thy ===== *)
theory Examples
  imports Listeners Connections Tcp_Unframed
begin

text \<open>
  The programs of examples/: clients and servers that use the library as its README shows, and the end of a TCP
  connection's life, its destruction. What they print is left out. The programs run the operations of the
  library in sequence, so they are compositions of its definitions; the socket is the one of \<open>Tcp_Stream\<close>.
\<close>

section \<open>Messages from text\<close>

definition ascii :: "string \<Rightarrow> byte list" where
  "ascii s = map of_char s"

text \<open>The factories of taps_api.h: both make messages that view the caller's bytes.\<close>

definition make_message :: "byte list \<Rightarrow> message_context \<Rightarrow> message" where
  "make_message bytes ctx = message_of_span bytes ctx"

definition make_message_view :: "string \<Rightarrow> message_context \<Rightarrow> message" where
  "make_message_view text ctx = message_of_span (ascii text) ctx"

section \<open>The end of a TCP connection\<close>

text \<open>The destructor: the block in use, the receive chain, the pool, in this order.\<close>

definition tcp_destroy :: "tcp \<Rightarrow> heap" where
  "tcp_destroy s =
    (case s of (h, c) \<Rightarrow> destroy_pool (tc_pool c) (chain_destroy (ref_drop (tc_current c) h, tc_chain c)))"

lemma tcp_destroy_correct:
  assumes mem: "tcp_mem h c R (pool_units (tc_pool c) + X)"
  shows "heap_inv (tcp_destroy (h, c)) R X" and "keeps R h (tcp_destroy (h, c))"
proof -
  let ?Y = "pool_units (tc_pool c) + X" and ?h1 = "ref_drop (tc_current c) h"
  have inv: "heap_inv h (add_mset (tc_current c) (mset (ch_live (tc_chain c)) + R)) (chain_units (tc_chain c) + ?Y)"
    and shape: "chain_shape (tc_chain c)"
    using mem by (simp_all add: tcp_mem_def)
  note d = heap_inv_ref_drop [OF inv]
  note e = chain_destroy_correct [OF shape d(1)]
  have "heap_inv (destroy_pool p g) R X" if "heap_inv g R (pool_units p + X)" for p g
    using that heap_inv_deallocate by (auto simp: destroy_pool_def pool_units_def)
  then show "heap_inv (tcp_destroy (h, c)) R X" using e(1) by (simp add: tcp_destroy_def)
  have "keeps R h (chain_destroy (?h1, tc_chain c))" using d(2) e(2) by (auto intro: keeps_trans)
  then show "keeps R h (tcp_destroy (h, c))" by (simp add: tcp_destroy_def destroy_pool_def keeps_def heap_simps)
qed

section \<open>The TCP server and its client\<close>

text \<open>
  What the server does with an accepted connection, over the bytes that the socket delivers: it receives one
  message, answers it, closes, and the coroutine's objects go. The result is what it sent, if it did, and the
  memory afterwards; \<open>None\<close> if the receive never returns. An exception leaves the coroutine at once.
\<close>

definition sent_over :: "heap \<Rightarrow> message \<Rightarrow> tcp_conn \<Rightarrow> byte list option" where
  "sent_over h m c =
    (case send_start h m c of Inl _ \<Rightarrow> None | Inr buffers \<Rightarrow> map_option concat (seq_buffers h buffers))"

definition tcp_server_answer :: "byte list \<Rightarrow> message" where
  "tcp_server_answer received = message_of_span (ascii ''Mensaje recibido: '' @ received) default_context"

definition serve_tcp :: "bool \<Rightarrow> (nat \<Rightarrow> nat) \<Rightarrow> byte list \<Rightarrow> tcp \<Rightarrow> (byte list option \<times> heap) option" where
  "serve_tcp tls pick pending s =
    (case receive_run tls pick (tc_framer (snd s)) pending (receive_start (tc_framer (snd s)) s) of
       None \<Rightarrow> None
     | Some (r, (h, c), _) \<Rightarrow>
         (case r of
            Done (Inr m) \<Rightarrow>
              (case as_bytes (h, m) of
                 (None, h1, m1) \<Rightarrow> Some (None, tcp_destroy (message_destroy (h1, m1), c))
               | (Some received, h1, m1) \<Rightarrow>
                   Some (sent_over h1 (tcp_server_answer received) c,
                         tcp_destroy (message_destroy (h1, m1), snd (close_start c))))
          | Done (Inl e) \<Rightarrow> Some (None, tcp_destroy (h, snd (close_start c)))
          | _ \<Rightarrow> Some (None, tcp_destroy (h, c))))"

definition hello_taps :: string where
  "hello_taps = ''Hola mundo (en TAPS)!'' @ [CHR 0x0A]"

text \<open>The client, with an established connection: what it sends, what it reads of the answer, the memory.\<close>

definition ask_tcp ::
  "bool \<Rightarrow> (nat \<Rightarrow> nat) \<Rightarrow> byte list \<Rightarrow> tcp \<Rightarrow> (byte list option \<times> byte list option \<times> heap) option" where
  "ask_tcp tls pick pending s =
    (let request = sent_over (fst s) (make_message_view hello_taps default_context) (snd s)
     in if request = None then Some (None, None, tcp_destroy s)
        else
          (case receive_run tls pick (tc_framer (snd s)) pending (receive_start (tc_framer (snd s)) s) of
             None \<Rightarrow> None
           | Some (r, (h, c), _) \<Rightarrow>
               (case r of
                  Done (Inr m) \<Rightarrow>
                    (case as_bytes (h, m) of
                       (None, h1, m1) \<Rightarrow> Some (request, None, tcp_destroy (message_destroy (h1, m1), c))
                     | (Some received, h1, m1) \<Rightarrow>
                         Some (request, Some received, tcp_destroy (message_destroy (h1, m1), snd (close_start c))))
                | Done (Inl e) \<Rightarrow> Some (request, None, tcp_destroy (h, snd (close_start c)))
                | _ \<Rightarrow> Some (request, None, tcp_destroy (h, c)))))"

lemma tcp_destroy_close [simp]: "tcp_destroy (h, snd (close_start c)) = tcp_destroy (h, c)"
  by (simp add: tcp_destroy_def close_start_def)

lemma sent_over_view:
  assumes "tc_state c = ESTABLISHED" and "tc_framer c = None" and "heap_inv h R X"
  shows "sent_over h (message_of_span bytes ctx) c = Some bytes"
proof -
  let ?m = "message_of_span bytes ctx"
  have m: "message_ok h ?m" "message_refs ?m = {#}" "message_bytes h ?m = bytes"
    by (simp_all add: message_ok_def message_refs_def message_bytes_def message_of_span_def)
  then obtain bufs where "seq_buffers h (seq_of_message h [] ?m) = Some bufs" "concat bufs = bytes"
    using seq_buffers_message [OF m(1), of R X "[]"] assms(3) by auto
  then show ?thesis using assms(1,2) by (simp add: sent_over_def send_start_def framing_header_def)
qed

lemma as_bytes_granted: "h_grants h = [] \<Longrightarrow> fst (as_bytes (h, m)) \<noteq> None"
  by (auto simp: as_bytes_def ensure_gathered_def Let_def granted split: option.split)

section \<open>How the TCP programs start\<close>

text \<open>
  Both ask for a reliable transport and no security. The server listens at 127.0.0.1, the client connects to
  \<open>localhost\<close>; each gives up when that fails. The memory is what \<open>TransportServices\<close> has without a
  configuration.
\<close>

definition reliable_props :: transport_properties where
  "reliable_props = set_property RELIABILITY REQUIRE (\<lambda>_. None)"

definition example_memory :: memory_config where
  "example_memory = make_services default_memory_config"

definition tcp_server_start ::
  "bool \<Rightarrow> resolver \<Rightarrow> (inet_endpoint \<Rightarrow> bind_outcome) \<Rightarrow> (inet_endpoint \<Rightarrow> error_code option) \<Rightarrow> ssl_library \<Rightarrow> string
    \<Rightarrow> heap \<Rightarrow> listener option \<times> heap" where
  "tcp_server_start with_tls rs tcp_bind udp_bind ssl bad_alloc h =
    (case services_listen with_tls rs tcp_bind udp_bind ssl bad_alloc (make_endpoint ''127.0.0.1'' 9999)
            reliable_props default_security (example_memory, h) of
       (Inl e, h1) \<Rightarrow> (None, h1)
     | (Inr l, h1) \<Rightarrow> (Some l, h1))"

definition tcp_client_start :: "environment \<Rightarrow> world \<Rightarrow> connection option \<times> world" where
  "tcp_client_start env w =
    (case initiate env (preconnect example_memory default_endpoint (make_endpoint ''localhost'' 9999) reliable_props
            default_security) w of
       (Returned (Inr c), _, w1) \<Rightarrow> (Some c, w1)
     | (_, _, w1) \<Rightarrow> (None, w1))"

text \<open>Both ends of the connection are then plain, without a framer, and nothing is in their memory.\<close>

definition new_connection :: "tcp_conn \<Rightarrow> bool" where
  "new_connection c \<longleftrightarrow>
    tc_state c = ESTABLISHED \<and> tc_framer c = None \<and> tc_stream c = PlainStream \<and> tc_chain c = empty_chain \<and>
    tc_current c = ref_null \<and> \<not> tc_ended c \<and> \<not> tc_eof c \<and> \<not> tc_message_open c \<and>
    pool_live (tc_pool c) = None \<and> 4 \<le> pool_block_size (tc_pool c)"

lemma new_connection_receiving:
  assumes "new_connection c" and "heap_inv h R X" and "h_grants h = []"
  shows "receiving_stream [] R X (h, c)"
proof -
  have "chain_shape empty_chain" using chain_ok_empty(1) by (simp add: chain_ok_def)
  then show ?thesis
    using assms chain_ok_empty
    by (simp add: new_connection_def receiving_stream_def tcp_inv_def tcp_mem_def chain_units_empty pool_ok_def
        can_receive_def chain_bytes_def ref_null_def)
qed

text \<open>The server goes on waiting for a client when \<open>accept()\<close> fails; this is a call that succeeds.\<close>

definition listener_accepts ::
  "accept_answer list \<Rightarrow> (error_code + tcp_conn) option \<Rightarrow> listener \<Rightarrow> heap \<Rightarrow> (tcp_conn \<times> heap) option" where
  "listener_accepts answers channel l h =
    (case l of
       TCP_Listener x \<Rightarrow>
         (case tcp_accept answers channel x h of
            Some (Returned (Inr (TCP_Connection c)), h1) \<Rightarrow> Some (c, h1)
          | _ \<Rightarrow> None)
     | UDP_Listener x \<Rightarrow> None)"

lemma example_pool:
  "make_pool example_memory h =
    (Some \<lparr>pool_resource = default_message_resource, pool_block_size = 65536, pool_max_live = 0, pool_live = None\<rparr>, h)"
  by (simp add: make_pool_def example_memory_def make_services_def default_memory_config_def)

lemma insecure_default: "\<not> is_enabled default_security"
  by (simp add: is_enabled_def default_security_def)

lemma reliable_props: "requires_reliable_transport reliable_props"
  by (simp add: requires_reliable_transport_def reliable_props_def get_set_property)

lemma tcp_server_start_listens:
  assumes "tcp_server_start with_tls rs tcp_bind udp_bind ssl what h = (Some l, h1)"
  shows "\<exists>x. l = TCP_Listener x \<and> h1 = h \<and> tl_listening x \<and> tl_secure x = None \<and> tl_memory x = example_memory"
proof -
  let ?l = "make_tcp_listener (make_endpoint ''127.0.0.1'' 9999) reliable_props default_security example_memory"
  obtain r x where t: "tcp_listen with_tls rs tcp_bind ssl ?l = (r, x)" by fastforce
  then have "r \<noteq> Inr () \<or> l = TCP_Listener x \<and> h1 = h" "r = Inr ()"
    using assms reliable_props by (auto simp: tcp_server_start_def services_listen_def split: sum.splits)
  moreover have "tl_listening x \<and> tl_secure x = None \<and> tl_memory x = example_memory" if "r = Inr ()"
    using t that insecure_default
    by (auto simp: tcp_listen_def make_tcp_listener_def Let_def split: if_splits bind_result.splits)
  ultimately show ?thesis by blast
qed

lemma tcp_server_accepts:
  assumes "tcp_accept answers channel x h = Some (Returned (Inr (TCP_Connection c)), h1)"
    and "tl_listening x" and "tl_secure x = None" and "tl_memory x = example_memory"
  shows "new_connection c \<and> h1 = h"
proof -
  have "plain_accept example_memory answers h = Some (Returned (Inr (TCP_Connection c)), h1) \<Longrightarrow>
    new_connection c \<and> h1 = h" for answers
  proof (induction answers)
    case (Cons a answers)
    then show ?case
      by (cases a) (auto simp: example_pool new_connection_def make_accepted_def make_tcp_def split: if_splits)
  qed simp
  then show ?thesis using assms by (simp add: tcp_accept_def)
qed

lemma tcp_client_start_connects:
  assumes "tcp_client_start env w = (Some c, w1)"
  shows "\<exists>x. c = TCP_Connection x \<and> new_connection x \<and> w_heap w1 = w_heap w"
proof -
  let ?pre = "preconnect example_memory default_endpoint (make_endpoint ''localhost'' 9999) reliable_props default_security"
  have pre: "pr_memory ?pre = example_memory" "pr_security ?pre = default_security" "pr_properties ?pre = reliable_props"
    "length (pr_remotes ?pre) = 1" by (simp_all add: preconnect_def make_preconnection_def)
  obtain pre' where "initiate_with_single_endpoint env ?pre w = (Returned (Inr c), pre', w1)"
    using assms pre(3,4) reliable_props
    by (auto simp: tcp_client_start_def initiate_def split: prod.splits outcome_of.splits sum.splits)
  then obtain e where e: "(case attempt env 0 e ?pre w of
            (None, w1) \<Rightarrow> failed (taps_error ESTABLISHMENT_ERROR INTERNAL_ERROR (ev_bad_alloc env)) ?pre w1
          | (Some (Inl err, c), w1) \<Rightarrow> failed err ?pre (discard e c w1)
          | (Some (Inr _, c), w1) \<Rightarrow> establish_connection env 0 e c ?pre w1) = (Returned (Inr c), pre', w1)"
    by (auto simp: initiate_with_single_endpoint_def failed_def split: list.splits)
  let ?p = "\<lparr>pool_resource = default_message_resource, pool_block_size = 65536, pool_max_live = 0, pool_live = None\<rparr>"
  have a: "attempt env 0 e ?pre w = (Some (connect_done (ev_connect env 0 e) (make_tcp ?p)), acted (Connecting e) w)"
    using pre(1) example_pool by (simp add: attempt_def)
  obtain r x where d: "connect_done (ev_connect env 0 e) (make_tcp ?p) = (r, x)" by fastforce
  have r: "r = Inr ()" using e by (cases r) (simp_all add: a d failed_def)
  have "c = TCP_Connection x \<and> w1 = acted (Connecting e) w"
    using e pre(2) insecure_default by (simp add: a d r establish_connection_def)
  moreover have "new_connection x"
    using d r by (auto simp: connect_done_def make_tcp_def new_connection_def Let_def split: sum.splits prod.splits)
  ultimately show ?thesis by (simp add: acted_def)
qed

text \<open>One receive without a framer, the text of its message, and the connection destroyed.\<close>

lemma receive_text:
  assumes st: "receiving_stream [] {#} X (h, c)" and f: "tc_framer c = None"
  obtains k m h1 c1 rest h2 m2 where
    "receive_run tls pick None pending (receive_start None (h, c)) = Some (Done (Inr m), (h1, c1), rest)"
    "k \<le> length pending" "pending \<noteq> [] \<longrightarrow> 0 < k" "as_bytes (h1, m) = (Some (take k pending), h2, m2)"
    "heap_inv (tcp_destroy (message_destroy (h2, m2), c1)) {#} X"
    "tc_state c1 = ESTABLISHED" "tc_framer c1 = None" "\<exists>R Y. heap_inv h2 R Y"
proof -
  have c: "tc_state c = ESTABLISHED" "pool_units (tc_pool c) = {#}"
    using st by (simp_all add: receiving_stream_def can_receive_def pool_units_def)
  have "\<exists>k m h1 c1 rest. receive_run tls pick None pending (receive_start None (h, c)) = Some (Done (Inr m), (h1, c1), rest) \<and>
    k \<le> length pending \<and> (pending \<noteq> [] \<longrightarrow> 0 < k) \<and> message_bytes h1 m = take k pending \<and> message_ok h1 m \<and>
    tcp_inv h1 c1 (message_refs m) (message_units m + X) \<and> h_grants h1 = [] \<and>
    tc_state c1 = ESTABLISHED \<and> tc_framer c1 = None \<and> tc_pool c1 = tc_pool c"
  proof (cases "pending = []")
    case True
    obtain m h1 c1 where e: "receive_run tls pick None [] (receive_start None (h, c)) = Some (Done (Inr m), (h1, c1), [])"
      "tcp_inv h1 c1 (message_refs m + {#}) (message_units m + X)" "message_ok h1 m" "message_bytes h1 m = []"
      "tc_state c1 = tc_state c" "tc_pool c1 = tc_pool c" "tc_framer c1 = tc_framer c" "h_grants h1 = []"
      using unframed_end [OF st, of tls pick] by blast
    then show ?thesis
      using True c(1) f by (intro exI [of _ 0] exI [of _ m] exI [of _ h1] exI [of _ c1] exI [of _ "[]"]) simp
  next
    case False
    have room: "size ({#} :: block_ref multiset) + 3 < 2 ^ 32" by simp
    obtain bytes rest m h1 c1 where n: "pending = bytes @ rest" "bytes \<noteq> []"
      "receive_run tls pick None pending (receive_start None (h, c)) = Some (Done (Inr m), (h1, c1), rest)"
      "receiving_stream [] (message_refs m + {#}) (message_units m + X) (h1, c1)"
      "message_ok h1 m" "message_bytes h1 m = bytes" "tc_pool c1 = tc_pool c" "tc_framer c1 = tc_framer c"
      by (rule unframed_next [OF st room False, where tls = tls and pick = pick]) blast
    then show ?thesis
      using f by (intro exI [of _ "length bytes"] exI [of _ m] exI [of _ h1] exI [of _ c1] exI [of _ rest])
        (simp add: receiving_stream_def can_receive_def)
  qed
  then obtain k m h1 c1 rest where r:
    "receive_run tls pick None pending (receive_start None (h, c)) = Some (Done (Inr m), (h1, c1), rest)"
    "k \<le> length pending" "pending \<noteq> [] \<longrightarrow> 0 < k" "message_bytes h1 m = take k pending" "message_ok h1 m"
    "tcp_inv h1 c1 (message_refs m) (message_units m + X)" "h_grants h1 = []"
    "tc_state c1 = ESTABLISHED" "tc_framer c1 = None" "tc_pool c1 = tc_pool c"
    by blast
  obtain ob h2 m2 where ab: "as_bytes (h1, m) = (ob, h2, m2)" using prod_cases3 by blast
  let ?S = "add_mset (tc_current c1) (mset (ch_live (tc_chain c1)))" and ?U = "chain_units (tc_chain c1) + X"
  have "heap_inv h1 (message_refs m + ?S) (message_units m + ?U)"
    using tcp_inv_parts(4) [OF r(6)] by (simp add: ac_simps)
  note a = as_bytes_correct [OF r(5) this ab]
  have "ob \<noteq> None" using as_bytes_granted [OF r(7), of m] ab by simp
  then have ob: "ob = Some (take k pending)" using a r(4) by auto
  have h2: "heap_inv h2 (message_refs m2 + ?S) (message_units m2 + ?U)" "message_ok h2 m2" using a by blast+
  note d = message_destroy_correct [OF h2(2,1)]
  have "later h1 (message_destroy (h2, m2))" using later_as_bytes [OF ab] later_message_destroy by (rule later_trans)
  then have "pool_ok (tc_pool c1) (message_destroy (h2, m2))"
    using later_pool_ok tcp_inv_parts(6) [OF r(6)] by blast
  then have "tcp_mem (message_destroy (h2, m2)) c1 {#} (pool_units (tc_pool c1) + X)"
    using d tcp_inv_parts(3,7,8) [OF r(6)] r(10) c(2) by (auto simp: tcp_mem_def)
  note e = tcp_destroy_correct(1) [OF this]
  show ?thesis using that [OF r(1-3) _ e r(8,9)] ab ob h2(1) by blast
qed

section \<open>The UDP server\<close>

text \<open>
  The start of the server: it asks for an unreliable transport and gets a listener, which listens already. It
  then calls \<open>listen()\<close> on it once more, without looking at the result. That call first resolves the local
  address again, for which it waits, so that the event loop runs in between.
\<close>

definition udp_server_start ::
  "bool \<Rightarrow> resolver \<Rightarrow> (inet_endpoint \<Rightarrow> bind_outcome) \<Rightarrow> (inet_endpoint \<Rightarrow> error_code option) \<Rightarrow> ssl_library \<Rightarrow> string
    \<Rightarrow> memory_config \<times> heap \<Rightarrow> listener option \<times> heap" where
  "udp_server_start with_tls rs tcp_bind udp_bind ssl bad_alloc s =
    (case services_listen with_tls rs tcp_bind udp_bind ssl bad_alloc (make_endpoint ''0.0.0.0'' 9999)
            (set_property RELIABILITY AVOID (\<lambda>_. None)) default_security s of
       (Inl e, h) \<Rightarrow> (None, h)
     | (Inr l, h) \<Rightarrow> (Some l, h))"

definition listen_again ::
  "bool \<Rightarrow> resolver \<Rightarrow> (inet_endpoint \<Rightarrow> bind_outcome) \<Rightarrow> (inet_endpoint \<Rightarrow> error_code option) \<Rightarrow> ssl_library
    \<Rightarrow> listener \<Rightarrow> unit result \<times> listener" where
  "listen_again with_tls rs tcp_bind udp_bind ssl l =
    (case l of
       TCP_Listener x \<Rightarrow> (case tcp_listen with_tls rs tcp_bind ssl x of (r, y) \<Rightarrow> (r, TCP_Listener y))
     | UDP_Listener x \<Rightarrow> (case udp_listen rs udp_bind x of (r, y) \<Rightarrow> (r, UDP_Listener y)))"

text \<open>What it does with a datagram that a connection has received.\<close>

definition udp_server_answer :: "byte list \<Rightarrow> message" where
  "udp_server_answer received = message_of_span (ascii ''Server received: '' @ received) default_context"

text \<open>
  The body of its loop, for an accepted connection and the result of \<open>receive()\<close>: what it sends, and the
  memory when the message has gone. It closes the connection in any case.
\<close>

definition serve_udp :: "message result \<Rightarrow> 'e passive_conn \<Rightarrow> heap \<Rightarrow> byte list option \<times> heap" where
  "serve_udp received pc h =
    (case received of
       Inl e \<Rightarrow> (None, h)
     | Inr m \<Rightarrow>
         (case as_bytes (h, m) of
            (None, h1, m1) \<Rightarrow> (None, message_destroy (h1, m1))
          | (Some text, h1, m1) \<Rightarrow>
              (case passive_send_start None h1 (udp_server_answer text) pc of
                 Inl e \<Rightarrow> (None, message_destroy (h1, m1))
               | Inr buffers \<Rightarrow> (map_option concat (seq_buffers h1 buffers), message_destroy (h1, m1)))))"

section \<open>The UDP client\<close>

definition udp_client_start :: "environment \<Rightarrow> world \<Rightarrow> connection option \<times> world" where
  "udp_client_start env w =
    (case initiate env (preconnect example_memory default_endpoint (make_endpoint ''localhost'' 9999)
            (set_property RELIABILITY AVOID (\<lambda>_. None)) default_security) w of
       (Returned (Inr c), _, w1) \<Rightarrow> (Some c, w1)
     | (_, _, w1) \<Rightarrow> (None, w1))"

text \<open>
  It sends its datagram and, whatever became of it, waits for one: what it sends, what it shows, the memory
  when the program has ended.
\<close>

definition ask_udp :: "read_event \<Rightarrow> active_udp \<Rightarrow> heap \<Rightarrow> byte list option \<times> byte list option \<times> heap" where
  "ask_udp ev u h =
    (let sent = (case active_send_start h (make_message_view ''Hello UDP from TAPS!'' default_context) u of
                   Inl e \<Rightarrow> None
                 | Inr buffers \<Rightarrow> map_option concat (seq_buffers h buffers));
         gone = destroy_pool (au_pool u)
     in case active_receive_start u h of
          (Udp_Reading b, h1) \<Rightarrow>
            (case active_receive_done u b ev h1 of
               (Udp_Done (Inr m), h2) \<Rightarrow>
                 (case as_bytes (h2, m) of (text, h3, m3) \<Rightarrow> (sent, text, gone (message_destroy (h3, m3))))
             | (_, h2) \<Rightarrow> (sent, None, gone h2))
        | (_, h1) \<Rightarrow> (sent, None, gone h1))"

lemma udp_client_start_connects:
  assumes "udp_client_start env w = (Some c, w1)"
  shows "\<exists>u. c = UDP_Connection u \<and> au_state u = ESTABLISHED \<and> au_framer u = None \<and> pool_live (au_pool u) = None \<and>
    pool_block_size (au_pool u) = 65536 \<and> w_heap w1 = w_heap w"
proof -
  let ?pre = "preconnect example_memory default_endpoint (make_endpoint ''localhost'' 9999)
    (set_property RELIABILITY AVOID (\<lambda>_. None)) default_security"
  let ?p = "\<lparr>pool_resource = default_message_resource, pool_block_size = 65536, pool_max_live = 0, pool_live = None\<rparr>"
  have pre: "pr_remotes ?pre = [make_endpoint ''localhost'' 9999]" "pr_memory ?pre = example_memory"
    by (simp_all add: preconnect_def make_preconnection_def)
  have "initiate env ?pre w = udp_candidates env ?pre [make_endpoint ''localhost'' 9999] w"
    using insecure_default
    by (simp add: initiate_def initiate_udp_def preconnect_def make_preconnection_def requires_reliable_transport_def
        get_set_property)
  then obtain pre' where i: "udp_candidates env ?pre [make_endpoint ''localhost'' 9999] w = (Returned (Inr c), pre', w1)"
    using assms by (auto simp: udp_client_start_def split: prod.splits outcome_of.splits sum.splits)
  then obtain e where e: "(case active_open (ev_udp_open env e) (ev_udp_bind env e) (ev_udp_local env e) (make_active e ?p) of
      (Inl err, c) \<Rightarrow> failed err ?pre (w\<lparr>w_heap := destroy_pool ?p (w_heap w)\<rparr>)
    | (Inr _, c) \<Rightarrow> (Returned (Inr (UDP_Connection c)), ?pre, w\<lparr>w_heap := w_heap w\<rparr>)) = (Returned (Inr c), pre', w1)"
    by (auto simp: failed_def pre(2) example_pool split: list.splits)
  obtain r u where o: "active_open (ev_udp_open env e) (ev_udp_bind env e) (ev_udp_local env e) (make_active e ?p) = (r, u)"
    by fastforce
  have r: "r = Inr ()" using e by (cases r) (simp_all add: o failed_def)
  then have "c = UDP_Connection u" "w_heap w1 = w_heap w" using e by (auto simp: o)
  moreover have "au_state u = ESTABLISHED \<and> au_framer u = None \<and> au_pool u = ?p"
    using o r by (auto simp: active_open_def make_active_def split: option.splits)
  ultimately show ?thesis by simp
qed

lemma later_active_receive: "active_receive_done c r ev h = (res, h') \<Longrightarrow> later h h'"
proof (cases ev)
  case (Data bytes)
  define h1 where "h1 = fill_block (the (br_blk r)) (br_begin r) bytes h"
  obtain oc h2 where b: "build_datagram (pool_resource (au_pool c)) r (length bytes) h1 = (oc, h2)" by fastforce
  assume "active_receive_done c r ev h = (res, h')"
  then have "h' = h2" using Data by (auto simp: active_receive_done_def h1_def [symmetric] b Let_def split: option.splits)
  moreover have "later h h1" by (simp add: h1_def)
  ultimately show ?thesis using later_build_datagram [OF b] later_trans by blast
qed (auto simp: active_receive_done_def)

lemma as_bytes_delivered:
  assumes "message_ok h m" and "heap_inv h (message_refs m + {#}) (message_units m + X)" and "h_grants h = []"
  obtains h1 m1 where "as_bytes (h, m) = (Some (message_bytes h m), h1, m1)" "heap_inv (message_destroy (h1, m1)) {#} X"
    "\<exists>R Y. heap_inv h1 R Y"
proof -
  obtain ob h1 m1 where ab: "as_bytes (h, m) = (ob, h1, m1)" using prod_cases3 by blast
  note a = as_bytes_correct [OF assms(1,2) ab]
  have "ob \<noteq> None" using as_bytes_granted [OF assms(3), of m] ab by simp
  then have ob: "ob = Some (message_bytes h m)" using a by auto
  have ok: "message_ok h1 m1" and inv: "heap_inv h1 (message_refs m1 + {#}) (message_units m1 + X)" using a by blast+
  have "heap_inv (message_destroy (h1, m1)) {#} X" using message_destroy_correct [OF ok inv] by blast
  then show ?thesis using that ab ob inv by blast
qed

text \<open>The client sends its greeting as one datagram and shows the datagram that it gets.\<close>

lemma udp_client_exchange:
  assumes "udp_client_start env w = (Some (UDP_Connection u), w1)" and "heap_inv (w_heap w) {#} X"
    and "h_grants (w_heap w) = []" and "length bytes \<le> 65536"
  shows "\<exists>h. ask_udp (Data bytes) u (w_heap w1) = (Some (ascii ''Hello UDP from TAPS!''), Some bytes, h) \<and> heap_inv h {#} X"
proof -
  let ?h = "w_heap w1" and ?hello = "ascii ''Hello UDP from TAPS!''"
  have u: "au_state u = ESTABLISHED" "au_framer u = None" "pool_live (au_pool u) = None"
    "pool_block_size (au_pool u) = 65536" "?h = w_heap w"
    using udp_client_start_connects [OF assms(1)] by auto
  have inv: "heap_inv ?h {#} X" "h_grants ?h = []" using assms(2,3) u(5) by simp_all
  let ?m = "message_of_span ?hello default_context"
  have "message_ok ?h ?m" "heap_inv ?h (message_refs ?m + {#}) X" "message_bytes ?h ?m = ?hello"
    using inv(1) by (simp_all add: message_ok_def message_refs_def message_bytes_def message_of_span_def)
  then obtain bufs where "seq_buffers ?h (seq_of_message ?h [] ?m) = Some bufs" "concat bufs = ?hello"
    using seq_buffers_message [of ?h ?m "{#}" X "[]"] by auto
  then have sent: "(case active_send_start ?h (make_message_view ''Hello UDP from TAPS!'' default_context) u of
      Inl e \<Rightarrow> None | Inr buffers \<Rightarrow> map_option concat (seq_buffers ?h buffers)) = Some ?hello"
    using u(1,2) by (simp add: active_send_start_def make_message_view_def framing_header_def)
  have ok: "pool_ok (au_pool u) ?h" using u(3) by (simp add: pool_ok_def)
  obtain ar h1 where acq: "acquire (au_pool u) ?h = (ar, h1)" by fastforce
  have some: "ar \<noteq> None" using acquire_granted [OF inv(2), of "au_pool u"] acq by simp
  from inv(1) ok acq obtain b where b: "ar = Some b" "ref_valid b"
    by (cases rule: acquire_cases) (use some u(3) in \<open>auto simp: ref_valid_def\<close>)
  have start: "active_receive_start u ?h = (Udp_Reading b, h1)" using u(1) acq b by (simp add: active_receive_start_def)
  obtain res h2 where recv: "active_receive_done u b (Data bytes) h1 = (res, h2)" by fastforce
  have d: "udp_received {#} X ?h (Data bytes) (res, h2)"
    using active_receive_correct [OF inv(1) ok start, of "Data bytes"] assms(4) u(4) recv by simp
  then obtain m where m: "res = Udp_Done (Inr m)" "message_bytes h2 m = bytes" "message_ok h2 m"
    "heap_inv h2 (message_refs m + {#}) (message_units m + X)"
    using inv(2) by (auto simp: udp_received_def split: udp_receiving.splits sum.splits)
  have "h_grants h2 = []"
    using later_acquire [OF acq] later_active_receive [OF recv] inv(2) by (simp add: later_def)
  from as_bytes_delivered [OF m(3,4) this] obtain h3 m3 where
    "as_bytes (h2, m) = (Some bytes, h3, m3)" "heap_inv (message_destroy (h3, m3)) {#} X"
    using m(2) by metis
  then show ?thesis
    using sent start recv m(1) u(3) by (simp add: ask_udp_def Let_def destroy_pool_def)
qed

section \<open>What a closed UDP socket still does\<close>

text \<open>
  Only a datagram whose read had completed when the socket was closed is still handled. This bounds the entries
  that can still be made.
\<close>

definition still_to_come :: "('e, 'd) demux \<Rightarrow> nat" where
  "still_to_come dx = (if dx_loop dx = Read_Done then 1 else 0)"

definition shut :: "('e, 'd) demux \<Rightarrow> bool" where
  "shut dx \<longleftrightarrow> \<not> dx_open dx \<and> dx_loop dx \<noteq> Read_Pending"

text \<open>A step that neither opens the socket, nor moves the receive loop, nor makes an entry.\<close>

definition leaves_loop :: "('e, 'd) demux \<Rightarrow> ('e, 'd) demux \<Rightarrow> bool" where
  "leaves_loop dx dx' \<longleftrightarrow> (shut dx \<longrightarrow> \<not> dx_open dx' \<and> dx_loop dx' = dx_loop dx \<and> dx_next dx' = dx_next dx)"

lemma leaves_loop_shut_down:
  "\<not> dx_open dx1 \<Longrightarrow> dx_loop dx1 = dx_loop dx \<Longrightarrow> dx_next dx1 = dx_next dx \<Longrightarrow> leaves_loop dx (shut_down_if_unused dx1)"
  by (auto simp: leaves_loop_def shut_def shut_down_if_unused_def close_socket_def cancel_timer_def)

lemma loop_fields [simp]:
  "dx_loop (drop_mailbox a dx) = dx_loop dx" "dx_loop (evict it cause dx) = dx_loop dx"
  by (simp_all add: drop_mailbox_def evict_def split: option.split)

lemma sweep_evict_fields [simp]:
  "dx_loop (sweep_evict cutoff dx) = dx_loop dx \<and> dx_next (sweep_evict cutoff dx) = dx_next dx"
proof (induction cutoff dx rule: sweep_evict.induct)
  case (1 cutoff dx)
  then show ?case by (subst (1 2) sweep_evict.simps) (auto simp del: sweep_evict.simps)
qed

lemma leaves_loop_task: "leaves_loop dx (run_task dx)"
proof -
  have "leaves_loop dx (exec_task task (dx\<lparr>dx_posted := ts\<rparr>))" if "shut dx" for task ts
    using that by (cases task) (auto simp: shut_def intro!: leaves_loop_shut_down split: option.split)
  then show ?thesis by (cases "shut dx") (auto simp: run_task_def leaves_loop_def shut_def split: list.split)
qed

lemma next_upd_conn [simp]: "dx_next (upd_conn c f dx) = dx_next dx"
  by (simp add: upd_conn_def)

lemma leaves_loop_conn:
  "leaves_loop dx (passive_release c dx)" "leaves_loop dx (passive_close c dx)" "leaves_loop dx (passive_abort c dx)"
  "leaves_loop dx (passive_destroy c dx)" "leaves_loop dx (snd (passive_receive r c dx))"
  "leaves_loop dx (snd (demux_accept got dx))" "leaves_loop dx (stop_accepting dx)"
  by (auto simp: leaves_loop_def shut_def passive_release_def passive_close_def passive_abort_def passive_destroy_def
      passive_receive_def demux_release_def demux_accept_def stop_accepting_def Let_def
      split: option.split prod.split look.split)

lemma dx_next_one_more: "dx_next (on_datagram limit now a sent granted sender d dx) \<le> Suc (dx_next dx)"
proof -
  have "dx_next (deliver_to g x b dy) = dx_next dy" for g x b and dy :: "('a, 'b) demux"
    by (simp add: deliver_to_def split: option.split prod.split bool.split)
  moreover have "dx_next (make_room limit dx) = dx_next dx" by (simp add: make_room_def)
  ultimately show ?thesis by (simp add: on_datagram_def Let_def split: option.split)
qed

lemma shut_step:
  assumes "demux_step limit idle_secs s s'" and "shut (snd s)"
  shows "shut (snd s') \<and> dx_next (snd s') + still_to_come (snd s') \<le> dx_next (snd s) + still_to_come (snd s)"
proof -
  have leaves: ?thesis if "leaves_loop (snd s) (snd s')"
    using that assms(2) by (simp add: leaves_loop_def shut_def still_to_come_def)
  from assms show ?thesis
  proof (cases rule: demux_step.cases)
    case (dstep_loop dx dx' t)
    from dstep_loop(3) show ?thesis
      using dstep_loop(1,2) assms(2)
      by (cases rule: loop_step.cases) (auto simp: shut_def still_to_come_def begin_read_def)
  next
    case (dstep_event dx dx' t)
    from dstep_event(3) show ?thesis
      using dstep_event(1,2) assms(2) by (cases rule: event_step.cases) (auto simp: shut_def still_to_come_def)
  next
    case (dstep_datagram t now dx a sent granted sender d)
    then show ?thesis
      using assms(2) dx_next_one_more [of limit now a sent granted sender d "dx\<lparr>dx_loop := Read_Next\<rparr>"]
        datagram_loop [of limit now a sent granted sender d "dx\<lparr>dx_loop := Read_Next\<rparr>"]
      by (auto simp: shut_def still_to_come_def datagram_open)
  next
    case (dstep_sweep t now dx)
    have "leaves_loop dx (shut_down_if_unused (sweep_evict cutoff dx))" if "shut dx" for cutoff
      using that by (intro leaves_loop_shut_down) (simp_all add: shut_def)
    then show ?thesis
      using dstep_sweep assms(2) by (intro leaves) (simp add: leaves_loop_def sweep_def)
  qed (rule leaves, simp add: leaves_loop_task leaves_loop_conn)+
qed

lemma shut_run:
  "(demux_step limit idle_secs)\<^sup>*\<^sup>* s s' \<Longrightarrow> shut (snd s) \<Longrightarrow>
    shut (snd s') \<and> dx_next (snd s') + still_to_come (snd s') \<le> dx_next (snd s) + still_to_come (snd s)"
proof (induction rule: rtranclp_induct)
  case (step s1 s2)
  then show ?case using shut_step [OF step(2)] by force
qed simp

lemma udp_server_start_listens:
  assumes "udp_server_start with_tls rs tcp_bind udp_bind ssl what s = (Some l, h)"
  obtains ul where "l = UDP_Listener ul" and "ul_listening ul" and "ul_demux ul = snd (demux_start None make_demux)"
    and "ul_security ul = default_security"
proof -
  let ?e = "make_endpoint ''0.0.0.0'' 9999" and ?props = "set_property RELIABILITY AVOID (\<lambda>_. None)"
  have unreliable: "\<not> requires_reliable_transport ?props"
    by (simp add: requires_reliable_transport_def get_set_property Let_def)
  have first: "services_listen with_tls rs tcp_bind udp_bind ssl what ?e ?props default_security s = (Inr l, h)"
    using assms by (auto simp: udp_server_start_def split: prod.splits sum.splits)
  obtain p ul where ul: "l = UDP_Listener ul" "udp_listen rs udp_bind (make_udp_listener ?e ?props default_security p) = (Inr (), ul)"
    using first unreliable by (auto simp: services_listen_def split: prod.splits option.splits sum.splits)
  have "ul_listening ul" "ul_demux ul = snd (demux_start None make_demux)" "ul_security ul = default_security"
    using ul(2) by (auto simp: udp_listen_def make_udp_listener_def demux_start_def make_demux_def
        split: list.splits option.splits if_splits)
  then show ?thesis using that ul(1) by blast
qed

section \<open>Properties\<close>

lemma exchange:
  assumes "receiving_stream [] {#} Xs (hs, cs)" and "tc_framer cs = None"
    and "receiving_stream [] {#} Xc (hc, cc)" and "tc_framer cc = None"
  shows "\<exists>k j hs' hc'. let request = ascii hello_taps; answer = ascii ''Mensaje recibido: '' @ take k request in
    0 < k \<and> 0 < j \<and> serve_tcp tls pick request (hs, cs) = Some (Some answer, hs') \<and>
    ask_tcp tls' pick' answer (hc, cc) = Some (Some request, Some (take j answer), hc') \<and>
    heap_inv hs' {#} Xs \<and> heap_inv hc' {#} Xc"
proof -
  let ?req = "ascii hello_taps"
  have req: "?req \<noteq> []" by (simp add: ascii_def hello_taps_def)
  obtain k m h1 c1 rest h2 m2 where s:
    "receive_run tls pick None ?req (receive_start None (hs, cs)) = Some (Done (Inr m), (h1, c1), rest)"
    "?req \<noteq> [] \<longrightarrow> 0 < k" "as_bytes (h1, m) = (Some (take k ?req), h2, m2)"
    "heap_inv (tcp_destroy (message_destroy (h2, m2), c1)) {#} Xs" "tc_state c1 = ESTABLISHED" "tc_framer c1 = None"
    "\<exists>R Y. heap_inv h2 R Y"
    by (rule receive_text [OF assms(1,2), where tls = tls and pick = pick and pending = ?req]) blast
  let ?ans = "ascii ''Mensaje recibido: '' @ take k ?req"
  have "sent_over h2 (tcp_server_answer (take k ?req)) c1 = Some ?ans"
    unfolding tcp_server_answer_def using s(5-7) sent_over_view by blast
  then have serve: "serve_tcp tls pick ?req (hs, cs) = Some (Some ?ans, tcp_destroy (message_destroy (h2, m2), c1))"
    using s(1,3) assms(2) by (simp add: serve_tcp_def)
  obtain j n g1 d1 rest' g2 n2 where c:
    "receive_run tls' pick' None ?ans (receive_start None (hc, cc)) = Some (Done (Inr n), (g1, d1), rest')"
    "?ans \<noteq> [] \<longrightarrow> 0 < j" "as_bytes (g1, n) = (Some (take j ?ans), g2, n2)"
    "heap_inv (tcp_destroy (message_destroy (g2, n2), d1)) {#} Xc"
    by (rule receive_text [OF assms(3,4), where tls = tls' and pick = pick' and pending = ?ans]) blast
  have "tcp_inv hc cc {#} Xc" and est: "tc_state cc = ESTABLISHED"
    using assms(3) by (simp_all add: receiving_stream_def can_receive_def)
  note cc = est tcp_inv_parts(4) [OF this(1)]
  have "sent_over hc (make_message_view hello_taps default_context) cc = Some ?req"
    unfolding make_message_view_def using cc(1) assms(4) cc(2) by (rule sent_over_view)
  then have "ask_tcp tls' pick' ?ans (hc, cc) = Some (Some ?req, Some (take j ?ans), tcp_destroy (message_destroy (g2, n2), d1))"
    using c(1,3) assms(4) by (simp add: ask_tcp_def)
  moreover have "0 < k" "0 < j" using s(2) c(2) req by (simp_all add: ascii_def)
  ultimately show ?thesis using serve s(4) c(4) unfolding Let_def by blast
qed

text \<open>
  C35. The TCP example programs work together. The server, if it starts, has a TCP listener, and what that
  accepts is served; the client, if it starts, has a TCP connection. The client's request reaches the server,
  which answers with its text, and the client gets the answer, if the memory resource grants what they ask
  for. Since neither uses a framer, each sees only what one read delivers, a non-empty first part of what the
  other sent, and both then close. Everything they held, blocks, chains and messages, is given back.
\<close>

theorem tcp_examples_exchange:
  assumes "tcp_server_start with_tls rs tcp_bind udp_bind ssl what hs = (Some l, hs1)"
    and "listener_accepts answers channel l hs1 = Some (cs, hs2)"
    and "tcp_client_start env w = (Some cc, w1)"
    and "heap_inv hs {#} Xs" and "h_grants hs = []" and "heap_inv (w_heap w) {#} Xc" and "h_grants (w_heap w) = []"
  shows "\<exists>k j hs' hc' ccc. let request = ascii hello_taps; answer = ascii ''Mensaje recibido: '' @ take k request in
    0 < k \<and> 0 < j \<and> cc = TCP_Connection ccc \<and> serve_tcp with_tls pick request (hs2, cs) = Some (Some answer, hs') \<and>
    ask_tcp (ev_with_tls env) pick' answer (w_heap w1, ccc) = Some (Some request, Some (take j answer), hc') \<and>
    heap_inv hs' {#} Xs \<and> heap_inv hc' {#} Xc"
proof -
  obtain x where x: "l = TCP_Listener x" "hs1 = hs" "tl_listening x" "tl_secure x = None" "tl_memory x = example_memory"
    using tcp_server_start_listens [OF assms(1)] by blast
  have "tcp_accept answers channel x hs = Some (Returned (Inr (TCP_Connection cs)), hs2)"
    using assms(2) x(1,2) by (auto simp: listener_accepts_def split: option.splits prod.splits outcome_of.splits sum.splits
        connection.splits)
  note s = tcp_server_accepts [OF this x(3-5)]
  obtain ccc where c: "cc = TCP_Connection ccc" "new_connection ccc" "w_heap w1 = w_heap w"
    using tcp_client_start_connects [OF assms(3)] by blast
  have "receiving_stream [] {#} Xs (hs2, cs)" "receiving_stream [] {#} Xc (w_heap w1, ccc)" "tc_framer cs = None"
    "tc_framer ccc = None"
    using s c(2,3) new_connection_receiving assms(4-7) by (simp_all add: new_connection_def)
  from exchange [OF this(1,3,2,4), where tls = with_tls and pick = pick and tls' = "ev_with_tls env" and pick' = pick']
  show ?thesis using c(1) by (simp add: Let_def)
qed

definition example_env :: environment where
  "example_env = demo_env\<lparr>ev_resolver := \<lambda>_ _. Some [(Resolved ''127.0.0.1'', 9999)],
    ev_connect := \<lambda>_ _. Inr ((''127.0.0.1'', 9999), Inr (''127.0.0.1'', 50000))\<rparr>"

lemma tcp_examples_exchange_witness:
  "\<exists>l c cc w k h. tcp_server_start False (\<lambda>_ _. Some [(Resolved ''127.0.0.1'', 9999)]) (\<lambda>_. Bound) (\<lambda>_. None) quiet_ssl []
      (empty_heap (\<lambda>_. 0) []) = (Some l, empty_heap (\<lambda>_. 0) []) \<and>
    listener_accepts [Accepted (None, None)] None l (empty_heap (\<lambda>_. 0) []) = Some (c, empty_heap (\<lambda>_. 0) []) \<and>
    tcp_client_start example_env demo_world = (Some cc, w) \<and> 0 < k \<and> heap_inv h {#} {#} \<and>
    serve_tcp False (\<lambda>n. n) (ascii hello_taps) (empty_heap (\<lambda>_. 0) [], c)
      = Some (Some (ascii ''Mensaje recibido: '' @ take k (ascii hello_taps)), h)"
proof -
  let ?h = "empty_heap (\<lambda>_. 0) []"
  obtain l where l: "tcp_server_start False (\<lambda>_ _. Some [(Resolved ''127.0.0.1'', 9999)]) (\<lambda>_. Bound) (\<lambda>_. None)
      quiet_ssl [] ?h = (Some l, ?h)"
    using reliable_props insecure_default
    by (simp add: tcp_server_start_def services_listen_def tcp_listen_def make_tcp_listener_def resolve_local_def
        make_endpoint_def)
  obtain c where c: "listener_accepts [Accepted (None, None)] None l ?h = Some (c, ?h)"
    using tcp_server_start_listens [OF l] example_pool [of ?h]
    by (auto simp: listener_accepts_def tcp_accept_def)
  obtain cc w where w: "tcp_client_start example_env demo_world = (Some cc, w)"
    using reliable_props insecure_default example_pool
    by (auto simp: tcp_client_start_def initiate_def initiate_with_single_endpoint_def preconnect_def
        make_preconnection_def resolve_remote_def make_endpoint_def attempt_def example_env_def connect_done_def
        make_tcp_def establish_connection_def Let_def)
  have h: "heap_inv ?h {#} {#}" "h_grants ?h = []" "heap_inv (w_heap demo_world) {#} {#}" "h_grants (w_heap demo_world) = []"
    using heap_inv_empty_heap by (simp_all add: demo_world_def empty_heap_def)
  from tcp_examples_exchange [OF l c w h, of "\<lambda>n. n" "\<lambda>n. n"] l c w show ?thesis unfolding Let_def by blast
qed

text \<open>
  C40. The UDP example server never answers a datagram. Its listener listens already when it calls \<open>listen()\<close> again;
  while that call resolves the address, the event loop runs and sources may be accepted into the table. If the
  address resolves, the call then fails, because the socket is open, and closes it; the server takes no notice,
  and \<open>accept()\<close> is not refused. From then on, whatever the event loop and the program do, the socket stays
  closed: at most one more source is entered, of a datagram whose read had completed before, and every send on
  any connection fails.
\<close>

theorem udp_example_never_answers:
  assumes "udp_server_start with_tls rs tcp_bind udp_bind ssl what s = (Some (UDP_Listener ul), h)"
    and "(demux_step (max_connections getenv) (idle_timeout getenv))\<^sup>*\<^sup>* (t0, ul_demux ul) (t1, dx)"
    and "dx_accepting dx" and "resolve_local rs' (ul_local ul) \<noteq> []"
  shows "\<exists>ul'. listen_again with_tls rs' tcp_bind' udp_bind' ssl (UDP_Listener (ul\<lparr>ul_demux := dx\<rparr>)) =
      (Inl (io_error ESTABLISHMENT_ERROR already_open), UDP_Listener ul') \<and>
    (\<forall>got. fst (udp_accept got ul') = fst (demux_accept got (ul_demux ul'))) \<and>
    (\<forall>t2 dx2. (demux_step (max_connections getenv) (idle_timeout getenv))\<^sup>*\<^sup>* (t1, ul_demux ul') (t2, dx2) \<longrightarrow>
      \<not> dx_open dx2 \<and> dx_next dx2 \<le> dx_next dx + (if dx_loop dx = Read_Done then 1 else 0) \<and>
      (\<forall>server f answer m pc. sv_demux server = dx2 \<longrightarrow> (\<exists>e. passive_send f answer m pc server = Inl e)))"
proof -
  obtain u where u: "UDP_Listener ul = UDP_Listener u" "ul_listening u" "ul_demux u = snd (demux_start None make_demux)"
    "ul_security u = default_security"
    using assms(1) by (rule udp_server_start_listens)
  then have ul: "ul_listening ul" "ul_security ul = default_security" by simp_all
  have "demux_reachable (max_connections getenv) (idle_timeout getenv) (t0, ul_demux ul)" using u dreach_init by auto
  then have "demux_reachable (max_connections getenv) (idle_timeout getenv) (t1, dx)" using reachable_run assms(2) by blast
  then have "table_ok (max_connections getenv) (t1, dx)" using max_connections_pos by (rule table_ok_reachable)
  then have "dx_open dx" using assms(3) by (auto simp: table_ok_def life_ok_def)
  moreover have "\<not> is_enabled (ul_security ul)" by (simp add: ul(2) is_enabled_def default_security_def)
  moreover obtain e es where "resolve_local rs' (ul_local ul) = e # es" using assms(4) by (cases "resolve_local rs' (ul_local ul)") auto
  ultimately have again: "listen_again with_tls rs' tcp_bind' udp_bind' ssl (UDP_Listener (ul\<lparr>ul_demux := dx\<rparr>)) =
      (Inl (io_error ESTABLISHMENT_ERROR already_open), UDP_Listener (ul\<lparr>ul_demux := close_socket dx\<rparr>))"
    by (simp add: listen_again_def udp_listen_def demux_start_def)
  have shut: "shut (close_socket dx)" and came: "still_to_come (close_socket dx) = still_to_come dx"
    and next_same: "dx_next (close_socket dx) = dx_next dx"
    by (simp_all add: shut_def still_to_come_def close_socket_def)
  have "\<not> dx_open dx2 \<and> dx_next dx2 \<le> dx_next dx + still_to_come dx"
    if "(demux_step (max_connections getenv) (idle_timeout getenv))\<^sup>*\<^sup>* (t1, close_socket dx) (t2, dx2)" for t2 dx2
    using shut_run [OF that] shut came next_same by (simp add: shut_def)
  moreover have "\<exists>e. passive_send f answer m pc server = Inl e" if "\<not> dx_open (sv_demux server)"
    for server :: "inet_endpoint server" and f answer m pc
    using that by (auto simp: passive_send_def passive_send_done_def demux_send_to_def split: sum.split)
  ultimately show ?thesis
    using ul(1) by (intro exI [of _ "ul\<lparr>ul_demux := close_socket dx\<rparr>"])
      (auto simp: again udp_accept_def still_to_come_def split: prod.split)
qed

lemma udp_example_never_answers_witness:
  "\<exists>ul h ul'. udp_server_start False (\<lambda>_ _. Some [(Any_IPv4, 9999)]) (\<lambda>_. Bound) (\<lambda>_. None) quiet_ssl []
      (default_memory_config, empty_heap (\<lambda>_. 0) []) = (Some (UDP_Listener ul), h) \<and> dx_open (ul_demux ul) \<and>
    listen_again False (\<lambda>_ _. Some [(Any_IPv4, 9999)]) (\<lambda>_. Bound) (\<lambda>_. None) quiet_ssl (UDP_Listener ul) =
      (Inl (io_error ESTABLISHMENT_ERROR already_open), UDP_Listener ul') \<and> \<not> dx_open (ul_demux ul')"
proof -
  let ?s = "(default_memory_config, empty_heap (\<lambda>_. 0) [])" and ?rs = "\<lambda>_ _. Some [(Any_IPv4, 9999)]"
  have "\<exists>ul h. udp_server_start False ?rs (\<lambda>_. Bound) (\<lambda>_. None) quiet_ssl [] ?s = (Some (UDP_Listener ul), h) \<and>
      ul_demux ul = snd (demux_start None make_demux) \<and> ul_local ul = make_endpoint ''0.0.0.0'' 9999"
    by (simp add: udp_server_start_def services_listen_def requires_reliable_transport_def get_set_property make_pool_def
        default_memory_config_def udp_listen_def make_udp_listener_def resolve_local_def make_endpoint_def demux_start_def
        make_demux_def is_enabled_def default_security_def Let_def)
  then obtain ul h where start: "udp_server_start False ?rs (\<lambda>_. Bound) (\<lambda>_. None) quiet_ssl [] ?s = (Some (UDP_Listener ul), h)"
    and ul: "ul_demux ul = snd (demux_start None make_demux)" "ul_local ul = make_endpoint ''0.0.0.0'' 9999" by blast
  have run: "(demux_step (max_connections (\<lambda>_. None)) (idle_timeout (\<lambda>_. None)))\<^sup>*\<^sup>* (0, ul_demux ul) (0, ul_demux ul)"
    by (rule rtranclp.rtrancl_refl)
  have ok: "dx_accepting (ul_demux ul)" "resolve_local ?rs (ul_local ul) \<noteq> []" and "dx_open (ul_demux ul)"
    by (simp_all add: ul demux_start_def make_demux_def resolve_local_def make_endpoint_def)
  obtain ul' where again: "listen_again False ?rs (\<lambda>_. Bound) (\<lambda>_. None) quiet_ssl (UDP_Listener ul) =
      (Inl (io_error ESTABLISHMENT_ERROR already_open), UDP_Listener ul')"
    and shut: "\<And>t2 dx2. (demux_step (max_connections (\<lambda>_. None)) (idle_timeout (\<lambda>_. None)))\<^sup>*\<^sup>* (0, ul_demux ul') (t2, dx2) \<Longrightarrow>
      \<not> dx_open dx2"
    using udp_example_never_answers [OF start run ok, where tcp_bind' = "\<lambda>_. Bound" and udp_bind' = "\<lambda>_. None"] by auto
  have "\<not> dx_open (ul_demux ul')" by (rule shut) (rule rtranclp.rtrancl_refl)
  then show ?thesis using start \<open>dx_open (ul_demux ul)\<close> again by blast
qed

end
