(* ===== verification/Buffer_Runs.thy ===== *)
theory Buffer_Runs
  imports Tcp_Receive
begin

text \<open>
  The receive buffer used for a whole run, after test_chain_against_model of tests/buffer_smoke.cpp: pieces of
  blocks are appended, bytes consumed and slices taken in any order, next to a plain list of bytes that does the
  same. The test draws its operations from a random number generator; here they are any list.
\<close>

section \<open>The run\<close>

text \<open>What a turn of the test's loop has drawn: the bytes to append, or how many to consume or to slice.\<close>

datatype chain_op = Append_Op "byte list" | Consume_Op nat | Slice_Op nat

text \<open>The variables of the test; \<open>bf_same\<close> is false once a CHECK has failed.\<close>

record buffer_run =
  bf_heap :: heap
  bf_chain :: chain
  bf_current :: block_ref
  bf_used :: nat
  bf_model :: "byte list"
  bf_same :: bool

text \<open>\<open>current = pool.acquire(); used = 0;\<close> \<open>None\<close> is an exception.\<close>

definition next_block :: "pool \<Rightarrow> buffer_run \<Rightarrow> buffer_run option" where
  "next_block p s =
    (case acquire p (bf_heap s) of
       (None, h) \<Rightarrow> None
     | (Some r, h) \<Rightarrow>
         (case ref_assign_move (bf_current s) r h of
            (cur, left, h1) \<Rightarrow> Some (s\<lparr>bf_heap := ref_drop left h1, bf_current := cur, bf_used := 0\<rparr>)))"

definition append_piece :: "pool \<Rightarrow> byte list \<Rightarrow> buffer_run \<Rightarrow> buffer_run option" where
  "append_piece p bytes s =
    (case br_blk (bf_current s) of
       None \<Rightarrow> None
     | Some b \<Rightarrow>
         (let new = take (pool_block_size p - bf_used s) bytes;
              used = bf_used s + length new
          in case ref_make b (bf_used s) used (fill_block b (bf_used s) new (bf_heap s)) of
               (piece, h1) \<Rightarrow>
                 (case chain_append piece (h1, bf_chain s) of
                    (False, _) \<Rightarrow> None
                  | (True, h2, c2) \<Rightarrow>
                      Some (s\<lparr>bf_heap := h2, bf_chain := c2, bf_used := used, bf_model := bf_model s @ new\<rparr>))))"

definition append_op :: "pool \<Rightarrow> byte list \<Rightarrow> buffer_run \<Rightarrow> buffer_run option" where
  "append_op p bytes s =
    (case (if bf_used s + length bytes > pool_block_size p then next_block p s else Some s) of
       None \<Rightarrow> None
     | Some s1 \<Rightarrow> append_piece p bytes s1)"

definition consume_op :: "nat \<Rightarrow> buffer_run \<Rightarrow> buffer_run option" where
  "consume_op k s =
    (let n = min k (length (bf_model s))
     in map_option (\<lambda>(h, c). s\<lparr>bf_heap := h, bf_chain := c, bf_model := drop n (bf_model s)\<rparr>)
          (consume_front n (bf_heap s, bf_chain s)))"

definition slice_op :: "nat \<Rightarrow> buffer_run \<Rightarrow> buffer_run option" where
  "slice_op k s =
    (let n = min k (length (bf_model s))
     in case chain_first n (bf_heap s, bf_chain s) of
          (h, None) \<Rightarrow> None
        | (h, Some sl) \<Rightarrow>
            (let out = fst (copy_to h sl (replicate (ch_size sl) 0));
                 same = (ch_size sl = n \<and> take n out = take n (bf_model s))
             in Some (s\<lparr>bf_heap := chain_destroy (h, sl), bf_same := bf_same s \<and> same\<rparr>)))"

text \<open>One turn of the loop, with its last CHECK, and the loop.\<close>

definition buffer_turn :: "pool \<Rightarrow> chain_op \<Rightarrow> buffer_run \<Rightarrow> buffer_run option" where
  "buffer_turn p op s =
    map_option (\<lambda>s1. s1\<lparr>bf_same := bf_same s1 \<and> ch_size (bf_chain s1) = length (bf_model s1)\<rparr>)
      (case op of Append_Op bytes \<Rightarrow> append_op p bytes s | Consume_Op k \<Rightarrow> consume_op k s | Slice_Op k \<Rightarrow> slice_op k s)"

fun buffer_turns :: "pool \<Rightarrow> chain_op list \<Rightarrow> buffer_run \<Rightarrow> buffer_run option" where
  "buffer_turns p [] s = Some s"
| "buffer_turns p (op # ops) s =
    (case buffer_turn p op s of None \<Rightarrow> None | Some s1 \<Rightarrow> buffer_turns p ops s1)"

text \<open>\<open>current.reset(); chain = BlockChain{};\<close> and the end of the temporary chain.\<close>

definition buffer_release :: "buffer_run \<Rightarrow> buffer_run" where
  "buffer_release s =
    (case ref_reset (bf_current s) (bf_heap s) of
       (cur, h) \<Rightarrow>
         (case chain_move_assign (bf_chain s) (h, empty_chain) of
            (h1, c, temporary) \<Rightarrow> s\<lparr>bf_heap := chain_destroy (h1, temporary), bf_chain := c, bf_current := cur\<rparr>))"

text \<open>The body of the test from its first \<open>acquire()\<close>: after the loop everything is compared and released.\<close>

definition buffer_test :: "pool \<Rightarrow> chain_op list \<Rightarrow> heap \<Rightarrow> buffer_run option" where
  "buffer_test p ops h =
    (case acquire p h of
       (None, _) \<Rightarrow> None
     | (Some r, h1) \<Rightarrow>
         map_option
           (\<lambda>s. let out = fst (copy_to (bf_heap s) (bf_chain s) (replicate (ch_size (bf_chain s)) 0));
                    n = length (bf_model s);
                    s1 = buffer_release s
                in s1\<lparr>bf_same := bf_same s1 \<and> take n out = bf_model s \<and> h_out (bf_heap s1) = {#}\<rparr>)
           (buffer_turns p ops
             \<lparr>bf_heap = h1, bf_chain = empty_chain, bf_current = r, bf_used = 0, bf_model = [], bf_same = True\<rparr>))"

section \<open>What holds between the turns\<close>

definition run_ok :: "pool \<Rightarrow> nat \<Rightarrow> buffer_run \<Rightarrow> bool" where
  "run_ok p k s \<longleftrightarrow>
    bf_same s \<and> chain_ok (bf_chain s) \<and>
    heap_inv (bf_heap s) (add_mset (bf_current s) (mset (ch_live (bf_chain s)))) (chain_units (bf_chain s)) \<and>
    pool_ok p (bf_heap s) \<and> h_grants (bf_heap s) = [] \<and>
    (\<exists>b. br_blk (bf_current s) = Some b \<and> length (block_data (bf_heap s) b) = pool_block_size p) \<and>
    bf_used s \<le> pool_block_size p \<and>
    tail_free (mset (ch_live (bf_chain s))) (set_range (bf_used s) (bf_used s) (bf_current s)) \<and>
    chain_bytes (bf_heap s) (bf_chain s) = bf_model s \<and> ch_count (bf_chain s) \<le> k"

lemma run_ok_parts:
  assumes "run_ok p k s"
  shows "bf_same s" and "chain_ok (bf_chain s)"
    and "heap_inv (bf_heap s) (add_mset (bf_current s) (mset (ch_live (bf_chain s)))) (chain_units (bf_chain s))"
    and "heap_inv (bf_heap s) (mset (ch_live (bf_chain s)) + {#bf_current s#}) (chain_units (bf_chain s))"
    and "pool_ok p (bf_heap s)" and "h_grants (bf_heap s) = []"
    and "tail_free (mset (ch_live (bf_chain s))) (set_range (bf_used s) (bf_used s) (bf_current s))"
    and "chain_bytes (bf_heap s) (bf_chain s) = bf_model s" and "ch_count (bf_chain s) \<le> k"
    and "ch_size (bf_chain s) = length (bf_model s)" and "bf_used s \<le> pool_block_size p"
  using assms chain_bytes_length [of "bf_chain s" "bf_heap s" "{#bf_current s#}"] by (auto simp: run_ok_def)

text \<open>The handles of the chain name blocks of the heap, so a block that the heap did not have is none of theirs.\<close>

lemma tail_free_fresh: "heap_inv h S X \<Longrightarrow> h_blocks h b = None \<Longrightarrow> br_blk r = Some b \<Longrightarrow> tail_free S r"
  unfolding tail_free_def using heap_inv_alive by (metis option.distinct(1))

lemma next_block_ok:
  assumes ok: "run_ok p k s" and uncapped: "pool_live p = None"
  shows "\<exists>s1. next_block p s = Some s1 \<and> run_ok p k s1"
proof -
  let ?h = "bf_heap s" and ?S = "mset (ch_live (bf_chain s))" and ?Y = "chain_units (bf_chain s)"
  note r = run_ok_parts [OF ok]
  obtain ar h1 where acq: "acquire p ?h = (ar, h1)" by fastforce
  have granted: "ar \<noteq> None" using acquire_granted [OF r(6), of p] acq by simp
  from r(3,5) acq show ?thesis
  proof (cases rule: acquire_cases)
    case (acquired q b)
    let ?h2 = "ref_drop (bf_current s) h1"
    have run: "next_block p s = Some (s\<lparr>bf_heap := ?h2, bf_current := q, bf_used := 0\<rparr>)"
      using acq acquired(1) by (simp add: next_block_def ref_assign_move_def)
    have "heap_inv h1 (add_mset (bf_current s) (add_mset q ?S)) ?Y" using acquired(6) by (simp add: add_mset_commute)
    note d = heap_inv_ref_drop [OF this]
    have l: "later ?h ?h2" using later_acquire [OF acq] by (rule later_trans) simp
    have "heap_inv ?h (add_mset (bf_current s) ?S) ?Y" by (rule r(3))
    then have tf: "tail_free (add_mset (bf_current s) ?S) (set_range 0 0 q)"
      by (rule tail_free_fresh [where b = b]) (use acquired(2,5) in \<open>simp_all add: set_range_def\<close>)
    have "same_bytes ?S ?h ?h2"
      using keeps_same_bytes [OF acquired(7)] keeps_same_bytes [OF d(2)] by (simp add: same_bytes_def)
    then have "chain_bytes ?h2 (bf_chain s) = bf_model s" using same_bytes_chain r(8) by simp
    moreover have "length (block_data ?h2 b) = pool_block_size p"
      using d(2) acquired(2,9) by (simp add: keeps_def)
    ultimately have "run_ok p k (s\<lparr>bf_heap := ?h2, bf_current := q, bf_used := 0\<rparr>)"
      using r d(1) l tf acquired(2) by (simp add: run_ok_def later_def later_pool_ok [OF l])
    then show ?thesis using run by blast
  qed (use uncapped granted in simp_all)
qed

text \<open>Writing behind what the chain shows, and taking a handle on what was written.\<close>

lemma write_piece:
  assumes ok: "run_ok p k s" and blk: "br_blk (bf_current s) = Some b" and room: "k + 2 < 2 ^ 32"
    and fits: "bf_used s + length new \<le> pool_block_size p"
    and piece: "ref_make b (bf_used s) (bf_used s + length new) (fill_block b (bf_used s) new (bf_heap s)) = (r, h1)"
  shows "heap_inv h1 (add_mset r (add_mset (bf_current s) (mset (ch_live (bf_chain s))))) (chain_units (bf_chain s))"
    and "ref_bytes h1 r = new" and "chain_bytes h1 (bf_chain s) = bf_model s" and "later (bf_heap s) h1"
    and "length (block_data h1 b) = pool_block_size p"
    and "br_blk r = Some b" and "br_end r = bf_used s + length new"
proof -
  let ?h = "bf_heap s" and ?u = "bf_used s" and ?S = "mset (ch_live (bf_chain s))"
  let ?filled = "fill_block b ?u new ?h"
  note q = run_ok_parts [OF ok]
  have r: "r = \<lparr>br_blk = Some b, br_begin = ?u, br_end = ?u + length new\<rparr>" "h1 = add_ref b ?filled"
    using piece by (simp_all add: ref_make_def)
  then show "br_blk r = Some b" "br_end r = ?u + length new" by simp_all
  have space: "?u + length new \<le> length (block_data ?h b)" using ok blk fits by (simp add: run_ok_def)
  have cin: "bf_current s \<in># add_mset (bf_current s) ?S" by simp
  note fill = heap_inv_fill_block [OF q(3) cin blk space]
  have data: "block_data h1 c = (if c = b then overwrite ?u new (block_data ?h b) else block_data ?h c)" for c
    using fill(2) by (simp add: r(2) heap_simps)
  have len: "length (ch_live (bf_chain s)) \<le> k"
    using q(2,9) length_ch_live by (simp add: chain_ok_def)
  have "length (block_data ?filled b) = length (block_data ?h b)" using fill(2) [of b] space by simp
  then have "ref_fits ?filled r" using space by (simp add: ref_fits_def r(1))
  then show "heap_inv h1 (add_mset r (add_mset (bf_current s) ?S)) (chain_units (bf_chain s))"
    unfolding r(2) using fill(1) cin blk
    by (intro heap_inv_add_ref) (use len room in \<open>auto simp: r(1) intro!: window_okI\<close>)
  show "ref_bytes h1 r = new" using space by (simp add: ref_bytes_def r(1) data slice_overwrite_same)
  have "ref_bytes h1 x = ref_bytes ?h x" if "x \<in># ?S" for x
  proof -
    have "ref_bytes ?filled x = ref_bytes ?h x"
      using q(3) cin blk space
      by (rule ref_bytes_fill_block) (use that q(7) blk in \<open>auto simp: tail_free_def set_range_def\<close>)
    moreover have "ref_bytes h1 x = ref_bytes ?filled x"
      by (simp add: r(2) ref_bytes_def block_data_add_ref split: option.split)
    ultimately show ?thesis by simp
  qed
  then have "same_bytes ?S ?h h1" by (simp add: same_bytes_def)
  then show "chain_bytes h1 (bf_chain s) = bf_model s" using same_bytes_chain q(8) by simp
  show "later ?h h1" unfolding r(2) by (rule later_trans [OF later_fill_block later_add_ref])
  show "length (block_data h1 b) = pool_block_size p" using space ok blk by (simp add: data run_ok_def)
qed

lemma append_piece_ok:
  assumes ok: "run_ok p k s" and room: "k + 2 < 2 ^ 32"
  shows "\<exists>s1. append_piece p bytes s = Some s1 \<and> run_ok p (Suc k) s1"
proof -
  let ?S = "mset (ch_live (bf_chain s))"
  note q = run_ok_parts [OF ok]
  obtain b where b: "br_blk (bf_current s) = Some b" using ok by (auto simp: run_ok_def)
  define new where "new = take (pool_block_size p - bf_used s) bytes"
  have fits: "bf_used s + length new \<le> pool_block_size p" using q(11) by (simp add: new_def)
  obtain r h1 where piece: "ref_make b (bf_used s) (bf_used s + length new)
      (fill_block b (bf_used s) new (bf_heap s)) = (r, h1)" by fastforce
  note w = write_piece [OF ok b room fits piece]
  have g1: "h_grants h1 = []" using w(4) q(6) by (simp add: later_def)
  obtain h2 c2 where app: "chain_append r (h1, bf_chain s) = (True, h2, c2)"
    using append_granted [OF g1] by (metis fst_conv prod.collapse)
  have inv: "heap_inv h1 (add_mset r (mset (ch_live (bf_chain s)) + {#bf_current s#})) (chain_units (bf_chain s) + {#})"
    using w(1) by simp
  note a = chain_append_correct [OF q(2) inv app] and bytes = chain_append_bytes [OF q(2) inv app]
  let ?s1 = "s\<lparr>bf_heap := h2, bf_chain := c2, bf_used := bf_used s + length new, bf_model := bf_model s @ new\<rparr>"
  have l: "later (bf_heap s) h2" using w(4) later_append [OF app] by (rule later_trans)
  have live: "ch_live c2 = append_refs (ch_live (bf_chain s)) r" using a by simp
  have "tail_free (add_mset r ?S) (set_range (br_end r) (br_end r) (bf_current s))"
    using q(7) w(6,7) b by (auto simp: tail_free_def set_range_def)
  then have tf: "tail_free (mset (ch_live c2)) (set_range (br_end r) (br_end r) (bf_current s))"
    by (rule tail_free_le) (auto simp: live dest!: append_refs_end)
  have "length (append_refs rs r) \<le> Suc (length rs)" for rs by (auto simp: append_refs_def)
  then have "ch_count c2 \<le> Suc k"
    using a q(2,9) length_ch_live [of c2] length_ch_live [of "bf_chain s"]
    by (metis (no_types, lifting) Suc_le_mono chain_ok_def le_trans live)
  moreover have "chain_ok c2 \<and> heap_inv h2 (mset (ch_live c2) + {#bf_current s#}) (chain_units c2 + {#}) \<and>
      keeps (mset (ch_live c2) + {#bf_current s#}) h1 h2"
    using a by blast
  ultimately have "run_ok p (Suc k) ?s1"
    using q(1,6) bytes w(2,3,5,7) l tf b fits later_pool_ok [OF l q(5)] by (simp add: run_ok_def later_def)
  then show ?thesis using b piece app by (auto simp: append_piece_def Let_def new_def)
qed

lemma consume_op_ok:
  assumes ok: "run_ok p k s"
  shows "\<exists>s1. consume_op n s = Some s1 \<and> run_ok p k s1"
proof -
  let ?n = "min n (length (bf_model s))"
  note q = run_ok_parts [OF ok]
  obtain h c where run: "consume_front ?n (bf_heap s, bf_chain s) = Some (h, c)" and c: "chain_ok c"
      "ch_live c = consume_refs (min ?n (ch_size (bf_chain s))) (ch_live (bf_chain s))"
      "chain_units c = chain_units (bf_chain s)" "heap_inv h (mset (ch_live c) + {#bf_current s#}) (chain_units (bf_chain s))"
      "keeps (mset (ch_live c) + {#bf_current s#}) (bf_heap s) h"
    using consume_front_correct [OF q(2,4)] by blast
  have l: "later (bf_heap s) h" using run by (rule later_consume_front)
  have tf: "tail_free (mset (ch_live c)) (set_range (bf_used s) (bf_used s) (bf_current s))"
    using q(7) by (rule tail_free_le) (auto simp: c(2) dest!: consume_refs_end)
  have "length (consume_refs j rs) \<le> length rs" for j rs
    by (induction j rs rule: consume_refs.induct) auto
  then have "ch_count c \<le> k"
    using q(2,9) c(1,2) length_ch_live [of c] length_ch_live [of "bf_chain s"] by (metis chain_ok_def le_trans)
  then have "run_ok p k (s\<lparr>bf_heap := h, bf_chain := c, bf_model := drop ?n (bf_model s)\<rparr>)"
    using ok q(6) c l tf later_pool_ok [OF l q(5)] consume_front_bytes [OF q(2,4) run]
    by (auto simp: run_ok_def later_def keeps_def)
  then show ?thesis using run by (simp add: consume_op_def Let_def)
qed

lemma slice_op_ok:
  assumes ok: "run_ok p k s" and room: "2 * k + 1 < 2 ^ 32"
  shows "\<exists>s1. slice_op n s = Some s1 \<and> run_ok p k s1"
proof -
  let ?n = "min n (length (bf_model s))" and ?S = "mset (ch_live (bf_chain s)) + {#bf_current s#}"
  note q = run_ok_parts [OF ok]
  obtain h sl where run: "chain_first ?n (bf_heap s, bf_chain s) = (h, Some sl)"
    using chain_first_granted [OF q(6)] by (metis not_None_eq prod.collapse)
  have small: "size {#bf_current s#} + 2 * ch_count (bf_chain s) < 2 ^ 32" using room q(9) by simp
  have f: "keeps ?S (bf_heap s) h" "chain_ok sl" "chain_bytes h sl = take ?n (bf_model s)"
    "heap_inv h (mset (ch_live sl) + ?S) (chain_units sl + chain_units (bf_chain s))"
    using chain_first_correct [OF q(2,4) small run, unfolded option.case q(8)] by blast+
  let ?h = "chain_destroy (h, sl)"
  note d = chain_destroy_correct [OF _ f(4)]
  have shape: "chain_shape sl" using f(2) by (simp add: chain_ok_def)
  have l: "later (bf_heap s) ?h" using later_chain_first [OF run] later_chain_destroy by (rule later_trans)
  have k: "keeps ?S (bf_heap s) ?h" using f(1) d(2) [OF shape] by (rule keeps_trans)
  have "same_bytes (mset (ch_live (bf_chain s))) (bf_heap s) ?h" using k by (simp add: keeps_same_bytes)
  then have "chain_bytes ?h (bf_chain s) = bf_model s" using same_bytes_chain q(8) by simp
  then have "run_ok p k (s\<lparr>bf_heap := ?h\<rparr>)"
    using ok d(1) [OF shape] k l later_pool_ok [OF l q(5)] by (auto simp: run_ok_def later_def keeps_def)
  moreover have size: "ch_size sl = ?n" using chain_bytes_length [OF f(2,4)] f(3) by simp
  moreover have "take ?n (fst (copy_to h sl (replicate (ch_size sl) 0))) = take ?n (bf_model s)"
    using copy_to_correct [of h sl "replicate (ch_size sl) 0"] by (simp add: f(3) size)
  ultimately show ?thesis using run q(1) by (simp add: slice_op_def Let_def run_ok_def)
qed

lemma run_ok_mono: "run_ok p k s \<Longrightarrow> k \<le> k' \<Longrightarrow> run_ok p k' s"
  by (auto simp: run_ok_def)

lemma buffer_turn_ok:
  assumes ok: "run_ok p k s" and uncapped: "pool_live p = None" and room: "2 * k + 2 < 2 ^ 32"
  shows "\<exists>s1. buffer_turn p op s = Some s1 \<and> run_ok p (Suc k) s1"
proof -
  have checked: "\<exists>s2. map_option (\<lambda>s1. s1\<lparr>bf_same := bf_same s1 \<and> ch_size (bf_chain s1) = length (bf_model s1)\<rparr>) x =
      Some s2 \<and> run_ok p (Suc k) s2" if "\<exists>s1. x = Some s1 \<and> run_ok p (Suc k) s1" for x
    using that run_ok_parts(1,10) [of p "Suc k"] by fastforce
  have "\<exists>s1. append_op p bytes s = Some s1 \<and> run_ok p (Suc k) s1" for bytes
  proof -
    obtain s1 where "(if bf_used s + length bytes > pool_block_size p then next_block p s else Some s) = Some s1" "run_ok p k s1"
      using ok next_block_ok [OF ok uncapped] by (cases "bf_used s + length bytes > pool_block_size p") auto
    then show ?thesis using append_piece_ok [of p k s1] room by (simp add: append_op_def)
  qed
  moreover have "\<exists>s1. consume_op n s = Some s1 \<and> run_ok p (Suc k) s1"
      "\<exists>s1. slice_op n s = Some s1 \<and> run_ok p (Suc k) s1" for n
    using consume_op_ok [OF ok] slice_op_ok [OF ok] room run_ok_mono [of p k _ "Suc k"] by fastforce+
  ultimately show ?thesis
    unfolding buffer_turn_def by (cases op) (simp_all only: chain_op.case, (rule checked, blast)+)
qed

lemma buffer_turns_ok:
  "run_ok p k s \<Longrightarrow> pool_live p = None \<Longrightarrow> 2 * (k + length ops) < 2 ^ 32 \<Longrightarrow>
    \<exists>s1. buffer_turns p ops s = Some s1 \<and> run_ok p (k + length ops) s1"
proof (induction ops arbitrary: k s)
  case (Cons op ops)
  obtain s1 where "buffer_turn p op s = Some s1" "run_ok p (Suc k) s1"
    using buffer_turn_ok [OF Cons.prems(1,2)] Cons.prems(3) by fastforce
  then show ?case using Cons.IH [of "Suc k" s1] Cons.prems by simp
qed simp

lemma buffer_release_ok:
  assumes "run_ok p k s"
  shows "h_out (bf_heap (buffer_release s)) = {#} \<and> \<not> h_fault (bf_heap (buffer_release s)) \<and>
    bf_model (buffer_release s) = bf_model s \<and> bf_same (buffer_release s)"
proof -
  note q = run_ok_parts [OF assms]
  let ?h1 = "ref_drop (bf_current s) (bf_heap s)"
  have "chain_shape (bf_chain s)" "chain_shape empty_chain" using q(2) chain_ok_empty(1) by (simp_all add: chain_ok_def)
  moreover obtain h2 c t where m: "chain_move_assign (bf_chain s) (?h1, empty_chain) = (h2, c, t)"
    using prod_cases3 by blast
  moreover have "heap_inv ?h1 (mset (ch_live (bf_chain s)) + (mset (ch_live empty_chain) + {#}))
      (chain_units (bf_chain s) + (chain_units empty_chain + {#}))"
    using heap_inv_ref_drop(1) [OF q(3)] by (simp add: chain_units_empty)
  ultimately have a: "chain_ok t" "ch_live t = []" "chain_units t = {#}" "heap_inv h2 {#} (chain_units c)"
    "chain_shape c" "ch_live c = []"
    using chain_move_assign_correct [of "bf_chain s" empty_chain ?h1 "{#}" "{#}" h2 c t] by simp_all
  obtain h0 c0 where rel: "release_storage (chain_clear (?h1, bf_chain s)) = (h0, c0)" by fastforce
  then have "ch_ext c0 = None" by (auto simp: release_storage_def split: prod.splits option.splits)
  then have "chain_units c = {#}"
    using m by (auto simp: chain_move_assign_def rel empty_chain_def chain_units_def Let_def split: prod.splits)
  then show ?thesis
    using a m q(1) no_block_leaks [of "chain_destroy (h2, t)" "{#}"] chain_destroy_correct(1) [of t h2 "{#}" "{#}"]
    by (simp add: buffer_release_def ref_reset_def chain_ok_def)
qed

section \<open>The test passes for every sequence of operations\<close>

text \<open>
  C19. A chain is a list of bytes: test_chain_against_model passes for every sequence of fewer than
  \<open>2 ^ 31\<close> appends, consumes and slices of any sizes, with every block size, as long as the memory resource grants
  what it is asked for. No operation throws or leaves the blocks; after every one the chain has the size of the
  list that does the same, and every slice and the final contents are the list's bytes; and when the handle and the
  chain are released, all memory has gone back to the resource.
\<close>

theorem chain_is_a_byte_list:
  assumes "2 * length ops < 2 ^ 32" and "pool_live p = None"
  shows "\<exists>s. buffer_test p ops (empty_heap junk []) = Some s \<and> bf_same s \<and> \<not> h_fault (bf_heap s) \<and> h_out (bf_heap s) = {#}"
proof -
  let ?h = "empty_heap junk []"
  have inv: "heap_inv ?h {#} {#}" "pool_ok p ?h" using heap_inv_empty_heap assms(2) by (simp_all add: pool_ok_def)
  obtain ar h1 where acq: "acquire p ?h = (ar, h1)" by fastforce
  have granted: "ar \<noteq> None" using acquire_granted [of ?h p] acq by (simp add: empty_heap_def)
  from inv acq obtain r where r: "ar = Some r" and "run_ok p 0
      \<lparr>bf_heap = h1, bf_chain = empty_chain, bf_current = r, bf_used = 0, bf_model = [], bf_same = True\<rparr>"
  proof (cases rule: acquire_cases)
    case (acquired r b)
    have "h_grants h1 = []" using later_acquire [OF acq] by (simp add: later_def empty_heap_def)
    then show ?thesis
      using acquired by (intro that [of r]) (simp_all add: run_ok_def chain_units_empty chain_bytes_def empty_chain_def [THEN arg_cong, of ch_count])
  qed (use granted assms(2) in simp_all)
  from buffer_turns_ok [OF this(2) assms(2)] assms(1) obtain s where
    s: "buffer_turns p ops \<lparr>bf_heap = h1, bf_chain = empty_chain, bf_current = r, bf_used = 0, bf_model = [], bf_same = True\<rparr> = Some s"
    "run_ok p (length ops) s"
    by auto
  have "take (length (bf_model s)) (fst (copy_to (bf_heap s) (bf_chain s) (replicate (ch_size (bf_chain s)) 0))) = bf_model s"
    using copy_to_correct [of "bf_heap s" "bf_chain s" "replicate (ch_size (bf_chain s)) 0"] run_ok_parts(8,10) [OF s(2)] by simp
  then show ?thesis using buffer_release_ok [OF s(2)] s(1) r acq by (simp add: buffer_test_def Let_def)
qed

lemma chain_is_a_byte_list_witness:
  "\<exists>s. buffer_test \<lparr>pool_resource = 1, pool_block_size = 4, pool_max_live = 0, pool_live = None\<rparr>
      [Append_Op [1, 2, 3], Append_Op [4, 5], Slice_Op 4, Consume_Op 2, Append_Op [6], Slice_Op 9] (empty_heap (\<lambda>_. 0) []) = Some s \<and>
    bf_same s"
  using chain_is_a_byte_list [of "[Append_Op [1, 2, 3], Append_Op [4, 5], Slice_Op 4, Consume_Op 2, Append_Op [6], Slice_Op 9]"
    "\<lparr>pool_resource = 1, pool_block_size = 4, pool_max_live = 0, pool_live = None\<rparr>" "\<lambda>_. 0"]
  by auto

end
