(* ===== verification/Framer_Tests.thy ===== *)
theory Framer_Tests
  imports Tcp Growth
begin

text \<open>
  tests/framer_test.cpp, test by test: its helpers, its six test functions with the conjunction of their CHECKs as
  their value, and the lemma that each of them is true of the model, on machines of either byte order.
  The checks are derived from what the cursor and the framers do with the bytes of a chain, not by running the heap.
\<close>

section \<open>The helpers of the test\<close>

text \<open>\<open>fill_chain\<close>: the bytes split into blocks. \<open>None\<close> is a failed CHECK, an exception or a loop that does not end.\<close>

function fill_chain :: "pool \<Rightarrow> byte list \<Rightarrow> nat \<Rightarrow> cursor \<Rightarrow> cursor option" where
  "fill_chain p bytes block (h, c) =
    (if bytes = [] then Some (h, c) else if block = 0 then None
     else (case acquire p h of
             (None, h1) \<Rightarrow> None
           | (Some r, h1) \<Rightarrow>
               (case br_blk r of
                  None \<Rightarrow> None
                | Some b \<Rightarrow>
                    (let n = min block (length bytes); h2 = fill_block b 0 (take n bytes) h1
                     in case chain_append (set_range 0 n r) (h2, c) of
                          (False, _) \<Rightarrow> None
                        | (True, h3, c3) \<Rightarrow> fill_chain p (drop n bytes) block (h3, c3)))))"
  by pat_completeness auto
termination
  by (relation "measure (\<lambda>(p, bytes, block, cur). length bytes)") auto

declare fill_chain.simps [simp del]

text \<open>\<open>test_pool\<close> and a fresh chain filled from it, the start of every test.\<close>

definition test_pool :: "nat \<Rightarrow> heap \<Rightarrow> pool option \<times> heap" where
  "test_pool block_size h =
    make_pool \<lparr>cfg_resource = None, cfg_block_size = block_size, cfg_max_live_blocks = 1000\<rparr> h"

definition test_cursor :: "(nat \<Rightarrow> byte) \<Rightarrow> nat \<Rightarrow> byte list \<Rightarrow> cursor option" where
  "test_cursor junk block bytes =
    (case test_pool block (empty_heap junk []) of
       (None, h) \<Rightarrow> None
     | (Some p, h) \<Rightarrow> fill_chain p bytes block (h, empty_chain))"

definition record_of :: "u32 \<Rightarrow> byte \<Rightarrow> byte list" where
  "record_of len body_seed =
    [ucast (drop_bit 24 len AND 0xFF), ucast (drop_bit 16 len AND 0xFF), ucast (drop_bit 8 len AND 0xFF), ucast (len AND 0xFF)] @
    map (\<lambda>i. body_seed + of_nat i) [0..<unat len]"

section \<open>The tests\<close>

definition test_cursor_copy_out_across_blocks :: "(nat \<Rightarrow> byte) \<Rightarrow> bool" where
  "test_cursor_copy_out_across_blocks junk =
    (case test_cursor junk 4 (map of_nat [0..<20]) of
       None \<Rightarrow> False
     | Some cur \<Rightarrow>
         ch_count (snd cur) = 5 \<and> cursor_size cur = 20 \<and>
         (let got = copy_out cur 3 (replicate 7 0) in list_all (\<lambda>i. got ! i = of_nat (3 + i)) [0..<7]))"

definition test_cursor_try_contiguous :: "(nat \<Rightarrow> byte) \<Rightarrow> bool" where
  "test_cursor_try_contiguous junk =
    (case test_cursor junk 8 (map of_nat [0..<24]) of
       None \<Rightarrow> False
     | Some cur \<Rightarrow>
         (case try_contiguous cur 2 4 of None \<Rightarrow> False | Some v \<Rightarrow> v ! 0 = 2 \<and> length v = 4) \<and>
         try_contiguous cur 6 4 = None \<and>
         (case try_contiguous cur 10 0 of None \<Rightarrow> False | Some v \<Rightarrow> v = []))"

definition test_lpf_parse_need_more :: "endian \<Rightarrow> (nat \<Rightarrow> byte) \<Rightarrow> bool" where
  "test_lpf_parse_need_more native junk =
    (let wants = (\<lambda>bytes n. case test_cursor junk 64 bytes of
           None \<Rightarrow> False
         | Some cur \<Rightarrow> (let r = lp_parse native default_lp_framer cur False
                        in pr_action r = NeedMore \<and> pr_min_bytes_needed r = n))
     in wants [] 4 \<and> wants [0, 0, 0] 4 \<and> wants (take (4 + 6) (record_of 10 100)) 14)"

definition test_lpf_parse_emit_and_second_record :: "endian \<Rightarrow> (nat \<Rightarrow> byte) \<Rightarrow> bool" where
  "test_lpf_parse_emit_and_second_record native junk =
    (case test_cursor junk 3 (record_of 10 0 @ record_of 5 200) of
       None \<Rightarrow> False
     | Some cur \<Rightarrow>
         (let a = lp_parse native default_lp_framer cur False
          in pr_action a = Emit \<and> pr_discard_before a = 4 \<and> pr_deliver a = 10 \<and> pr_end_of_message a \<and>
             (case consume_front (unat (pr_discard_before a + pr_deliver a)) cur of
                None \<Rightarrow> False
              | Some cur1 \<Rightarrow>
                  cursor_size cur1 = length (record_of 5 200) \<and>
                  (let b = lp_parse native default_lp_framer cur1 False
                   in pr_action b = Emit \<and> pr_discard_before b = 4 \<and> pr_deliver b = 5 \<and>
                      (case consume_front (unat (pr_discard_before b + pr_deliver b)) cur1 of
                         None \<Rightarrow> False
                       | Some cur2 \<Rightarrow>
                           chain_empty (snd cur2) \<and> pr_action (lp_parse native default_lp_framer cur2 True) = NeedMore)))))"

definition test_lpf_write_header_roundtrip :: "endian \<Rightarrow> (nat \<Rightarrow> byte) \<Rightarrow> bool" where
  "test_lpf_write_header_roundtrip native junk =
    (let be = make_lp_framer 4 big; le = make_lp_framer 4 little;
         hb = lp_write_header native be 513; hl = lp_write_header native le 513
     in hb = [0x00, 0x00, 0x02, 0x01] \<and> hl = [0x01, 0x02, 0x00, 0x00] \<and>
        (case test_cursor junk 64 (hl @ replicate 513 0) of
           None \<Rightarrow> False
         | Some cur \<Rightarrow> (let r = lp_parse native le cur False in pr_action r = Emit \<and> pr_deliver r = 513)))"

definition test_passthrough :: "(nat \<Rightarrow> byte) \<Rightarrow> bool" where
  "test_passthrough junk =
    (case test_cursor junk 16 (map of_nat [0..<50]) of
       None \<Rightarrow> False
     | Some cur \<Rightarrow>
         (let keep_lazy = pass_framer_of False; keep_flat = pass_framer_of True;
              a = fr_parse keep_lazy cur True; b = fr_parse keep_flat cur True
          in pr_action (fr_parse keep_lazy cur False) = NeedMore \<and> pr_action (fr_parse keep_flat cur False) = NeedMore \<and>
             pr_action a = Emit \<and> pr_deliver a = 50 \<and> pr_discard_before a = 0 \<and> pr_end_of_message a \<and> \<not> pr_gather a \<and>
             pr_action b = Emit \<and> pr_deliver b = 50 \<and> pr_gather b \<and>
             fr_max_header keep_lazy = 0 \<and> length (fr_write_header keep_lazy (replicate 10 0)) = 0))"

section \<open>A filled chain\<close>

text \<open>The pieces a list of bytes is split into.\<close>

fun chunks :: "nat \<Rightarrow> byte list \<Rightarrow> byte list list" where
  "chunks block bytes =
    (if bytes = [] \<or> block = 0 then [] else take block bytes # chunks block (drop block bytes))"

declare chunks.simps [simp del]

lemma concat_chunks: "0 < block \<Longrightarrow> concat (chunks block bytes) = bytes"
  by (induction block bytes rule: chunks.induct) (subst chunks.simps, auto)

lemma length_chunks: "length (chunks block bytes) \<le> length bytes"
proof (induction block bytes rule: chunks.induct)
  case (1 block bytes)
  show ?case
  proof (cases "bytes = [] \<or> block = 0")
    case False
    then have "0 < length bytes" by simp
    then have "length (drop block bytes) < length bytes" using False by (simp only: length_drop) linarith
    then show ?thesis using 1 [OF False] False by (subst chunks.simps) (simp del: length_drop)
  qed (simp add: chunks.simps)
qed

text \<open>Every live block has a handle.\<close>

lemma live_le_handles:
  assumes "heap_inv h R X"
  shows "h_live h k \<le> size R"
proof -
  have "counted_blocks (h_blocks h) k \<subseteq> the ` br_blk ` set_mset R"
  proof
    fix b assume "b \<in> counted_blocks (h_blocks h) k"
    then obtain d where "h_blocks h b = Some d" by (auto simp: counted_blocks_def)
    then have "0 < refs_to b R" using assms counts_okD(2) by (auto simp: heap_inv_def)
    then have "{#r \<in># R. br_blk r = Some b#} \<noteq> {#}" by (metis refs_to_def less_irrefl size_empty)
    then obtain r where "r \<in># {#r \<in># R. br_blk r = Some b#}" by (rule multiset_nonemptyE)
    then have "r \<in># R" "br_blk r = Some b" by simp_all
    then show "b \<in> the ` br_blk ` set_mset R" by force
  qed
  then have "card (counted_blocks (h_blocks h) k) \<le> card (the ` br_blk ` set_mset R)"
    by (intro card_mono) simp_all
  also have "\<dots> \<le> card (set_mset R)" by (simp add: image_image card_image_le)
  also have "\<dots> \<le> size R" by (induction R) (auto simp: card_insert_if)
  finally show ?thesis using assms by (simp add: heap_inv_def)
qed

text \<open>One turn of the loop adds one block.\<close>

lemma fill_turn:
  assumes ok: "chain_ok c" and inv: "heap_inv h (mset (ch_live c)) (chain_units c + X)"
    and p: "pool_ok p h" "pool_live p = Some k" "length (ch_live c) < pool_max_live p" "h_grants h = []"
    and new: "0 < length new" "length new \<le> pool_block_size p"
  obtains r b h1 h3 c3 where "acquire p h = (Some r, h1)" "br_blk r = Some b"
    "chain_append (set_range 0 (length new) r) (fill_block b 0 new h1, c) = (True, h3, c3)"
    "chain_ok c3" "heap_inv h3 (mset (ch_live c3)) (chain_units c3 + X)" "pool_ok p h3" "h_grants h3 = []"
    "map (ref_bytes h3) (ch_live c3) = map (ref_bytes h) (ch_live c) @ [new]"
proof -
  obtain ar h1 where acq: "acquire p h = (ar, h1)" by fastforce
  have room: "h_live h k < pool_max_live p" using live_le_handles [OF inv, of k] p(3) by simp
  have granted: "ar \<noteq> None" using acquire_granted [OF p(4), of p] acq by simp
  from inv p(1) acq show ?thesis
  proof (cases rule: acquire_cases)
    case (acquired r b)
    define h2 where "h2 = fill_block b 0 new h1"
    define q where "q = set_range 0 (length new) r"
    have q: "br_blk q = Some b" "br_begin q = 0" "br_end q = length new" using acquired(2) by (simp_all add: q_def set_range_def)
    have rin: "r \<in># add_mset r (mset (ch_live c))" by simp
    have fits: "0 + length new \<le> length (block_data h1 b)" using acquired(9) new(2) by simp
    note fill = heap_inv_fill_block [OF acquired(6) rin acquired(2) fits, folded h2_def]
    have d2: "block_data h2 b = overwrite 0 new (block_data h1 b)" using fill(2) by simp
    have "ref_fits h2 q" using fits by (simp add: ref_fits_def q d2)
    then have inv2: "heap_inv h2 (add_mset q (mset (ch_live c))) (chain_units c + X)"
      using fill(1) acquired(2) by (rule_tac heap_inv_window) (auto simp: q intro!: window_okI)
    have bytes_q: "ref_bytes h2 q = new"
      using slice_overwrite_same [of 0 "block_data h1 b" new] by (simp add: ref_bytes_def q d2)
    have other: "br_blk x \<noteq> Some b" if "x \<in> set (ch_live c)" for x
      using heap_inv_alive [OF inv, of x b] that acquired(5) by auto
    have kept: "ref_bytes h2 x = ref_bytes h x" if "x \<in> set (ch_live c)" for x
      using keeps_ref_bytes [OF acquired(7), of x] that other [OF that] fill(2)
      by (auto simp: ref_bytes_def split: option.splits)
    have l2: "later h h2" unfolding h2_def by (rule later_trans [OF later_acquire [OF acq] later_fill_block])
    then have "h_grants h2 = []" using p(4) by (simp add: later_def)
    moreover have "heap_inv h2 (add_mset q (mset (ch_live c) + {#})) (chain_units c + X)" using inv2 by simp
    ultimately obtain h3 c3 where a: "chain_append q (h2, c) = (True, h3, c3)" "chain_ok c3"
      "ch_live c3 = append_refs (ch_live c) q" "heap_inv h3 (mset (ch_live c3) + {#}) (chain_units c3 + X)"
      "keeps (mset (ch_live c3) + {#}) h2 h3" "later h2 h3"
      using append_granted_correct [OF ok] by metis
    have "\<not> (ch_live c \<noteq> [] \<and> br_blk (last (ch_live c)) = br_blk q)" using other q(1) last_in_set by metis
    then have live: "ch_live c3 = ch_live c @ [q]"
      using a(3) new(1) q by (auto simp: append_refs_def ref_valid_def ref_empty_def)
    have l3: "later h h3" using l2 a(6) by (rule later_trans)
    have "map (ref_bytes h3) (ch_live c3) = map (ref_bytes h) (ch_live c) @ [new]"
      using keeps_ref_bytes [OF a(5)] kept bytes_q by (simp add: live)
    then show ?thesis
      using that [of r h1 b h3 c3] acq acquired(1,2) a(1,2,4) l3 later_pool_ok [OF l3 p(1)] p(4)
      by (simp add: q_def h2_def later_def)
  qed (use granted room p(2) in simp_all)
qed

lemma fill_chain_correct:
  assumes "chain_ok c" and "heap_inv h (mset (ch_live c)) (chain_units c + X)" and "pool_ok p h" and "pool_live p = Some k"
    and "length (ch_live c) + length (chunks block bytes) \<le> pool_max_live p" and "h_grants h = []"
    and "0 < block" and "block \<le> pool_block_size p"
  shows "\<exists>h' c'. fill_chain p bytes block (h, c) = Some (h', c') \<and> chain_ok c' \<and>
    heap_inv h' (mset (ch_live c') + {#}) (chain_units c' + X) \<and>
    map (ref_bytes h') (ch_live c') = map (ref_bytes h) (ch_live c) @ chunks block bytes"
  using assms
proof (induction block bytes arbitrary: h c rule: chunks.induct)
  case (1 block bytes)
  show ?case
  proof (cases "bytes = []")
    case True
    then show ?thesis using "1.prems" by (simp add: fill_chain.simps chunks.simps)
  next
    case False
    let ?new = "take (min block (length bytes)) bytes"
    have new: "?new = take block bytes" "length ?new = min block (length bytes)" "0 < length ?new"
      "length ?new \<le> pool_block_size p" "drop (min block (length bytes)) bytes = drop block bytes"
      using False "1.prems"(7,8) by (auto simp: min_def)
    have more: "length (ch_live c) < pool_max_live p"
      using "1.prems"(5,7) False by (subst (asm) chunks.simps) simp
    obtain r b h1 h3 c3 where t: "acquire p h = (Some r, h1)" "br_blk r = Some b"
      "chain_append (set_range 0 (length ?new) r) (fill_block b 0 ?new h1, c) = (True, h3, c3)"
      "chain_ok c3" "heap_inv h3 (mset (ch_live c3)) (chain_units c3 + X)" "pool_ok p h3" "h_grants h3 = []"
      "map (ref_bytes h3) (ch_live c3) = map (ref_bytes h) (ch_live c) @ [?new]"
      using fill_turn [OF "1.prems"(1,2,3,4) more "1.prems"(6) new(3,4)] by metis
    have len: "length (ch_live c3) = Suc (length (ch_live c))"
      using t(8) by (metis length_append_singleton length_map)
    have step: "fill_chain p bytes block (h, c) = fill_chain p (drop block bytes) block (h3, c3)"
      using False "1.prems"(7) t(1-3) new(2,5) by (subst fill_chain.simps) (simp add: Let_def)
    have split: "chunks block bytes = take block bytes # chunks block (drop block bytes)"
      using False "1.prems"(7) by (subst chunks.simps) simp
    have "\<exists>h' c'. fill_chain p (drop block bytes) block (h3, c3) = Some (h', c') \<and> chain_ok c' \<and>
        heap_inv h' (mset (ch_live c') + {#}) (chain_units c' + X) \<and>
        map (ref_bytes h') (ch_live c') = map (ref_bytes h3) (ch_live c3) @ chunks block (drop block bytes)"
      using False "1.prems"(4,5,7,8) t(4-7) len split by (intro "1.IH") auto
    then show ?thesis using step split t(8) new(1) by simp
  qed
qed

text \<open>What every test starts from.\<close>

lemma test_cursor_correct:
  assumes "0 < block" and "length bytes \<le> 1000"
  obtains h c X where "test_cursor junk block bytes = Some (h, c)" "chain_ok c" "heap_inv h (mset (ch_live c) + {#}) X"
    "map (ref_bytes h) (ch_live c) = chunks block bytes" "chain_bytes h c = bytes"
    "ch_size c = length bytes" "ch_count c = length (chunks block bytes)"
proof -
  define h0 where "h0 = (empty_heap junk [])\<lparr>h_out := {#Counter_Alloc 0#}, h_next := 1\<rparr>"
  define p where "p = \<lparr>pool_resource = 0, pool_block_size = block, pool_max_live = 1000, pool_live = Some 0\<rparr>"
  have pool: "test_pool block (empty_heap junk []) = (Some p, h0)"
    by (simp add: test_pool_def make_pool_def p_def h0_def empty_heap_def default_message_resource_def res_allocate.simps fun_upd_idem)
  have inv: "heap_inv h0 {#} {#Counter_Alloc 0#}"
    by (simp add: h0_def empty_heap_def heap_inv_def counts_ok_def counted_blocks_def block_units_def)
  have start: "chain_ok empty_chain" "heap_inv h0 (mset (ch_live empty_chain)) (chain_units empty_chain + {#Counter_Alloc 0#})"
    "pool_ok p h0" "h_grants h0 = []" "pool_live p = Some 0"
    using inv by (simp_all add: chain_units_def empty_chain_def [THEN arg_cong, of ch_ext] pool_ok_def p_def h0_def empty_heap_def)
  obtain h c where f: "fill_chain p bytes block (h0, empty_chain) = Some (h, c)" "chain_ok c"
    "heap_inv h (mset (ch_live c) + {#}) (chain_units c + {#Counter_Alloc 0#})"
    "map (ref_bytes h) (ch_live c) = map (ref_bytes h0) (ch_live empty_chain) @ chunks block bytes"
    using fill_chain_correct [OF start(1-3,5), of block bytes] start(4) assms length_chunks [of block bytes]
    by (auto simp: p_def)
  have bytes: "chain_bytes h c = bytes"
    using f(4) concat_chunks [OF assms(1)] by (simp add: chain_bytes_def refs_bytes_def)
  moreover have "ch_size c = length bytes" using chain_bytes_length [OF f(2,3)] bytes by simp
  moreover have "ch_count c = length (chunks block bytes)"
    using arg_cong [OF f(4), of length] length_ch_live [of c] f(2) by (simp add: chain_ok_def)
  ultimately show ?thesis using that f(1-4) pool by (simp add: test_cursor_def)
qed

section \<open>The tests pass\<close>

text \<open>\<open>try_contiguous\<close> and \<open>parse\<close> as functions of the pieces and of the bytes.\<close>

primrec view_at :: "byte list list \<Rightarrow> nat \<Rightarrow> nat \<Rightarrow> nat \<Rightarrow> byte list option" where
  "view_at [] pos off len = None"
| "view_at (bs # bss) pos off len =
    (if off < pos + length bs
     then if off - pos + len \<le> length bs then Some (slice (off - pos) (off - pos + len) bs) else None
     else view_at bss (pos + length bs) off len)"

lemma try_contiguous_loop_view:
  "(\<And>r. r \<in> set rs \<Longrightarrow> ref_fits h r) \<Longrightarrow> try_contiguous_loop h rs pos off len = view_at (map (ref_bytes h) rs) pos off len"
  by (induction rs arbitrary: pos) (simp_all add: ref_fits_length Let_def)

lemma try_contiguous_view:
  assumes "chain_ok c" and "heap_inv h (mset (ch_live c) + R) X" and "0 < len"
  shows "try_contiguous (h, c) off len = view_at (map (ref_bytes h) (ch_live c)) 0 off len"
  using assms chain_live_fits(1) [OF _ assms(2)]
  by (simp add: try_contiguous_def chain_ok_def try_contiguous_loop_view)

lemma lp_parse_4:
  assumes ok: "chain_ok c" and inv: "heap_inv h (mset (ch_live c) + R) X" and bytes: "chain_bytes h c = bs" "length bs < 2 ^ 64"
  shows "lp_parse native (make_lp_framer 4 order) (h, c) eof =
    (if length bs < 4 then need_more 4
     else (let len = field_value order (take 4 bs)
           in if of_nat (length bs) < 4 + len
              then if eof \<and> 4 < length bs then emit (of_nat (length bs) - 4) False 4 else need_more (4 + len)
              else emit len True 4))"
proof -
  have size: "ch_size c = length bs" using chain_bytes_length [OF ok inv] bytes(1) by simp
  have word: "(of_nat (length bs) :: size_t) < 4 \<longleftrightarrow> length bs < 4" "(4 :: size_t) < of_nat (length bs) \<longleftrightarrow> 4 < length bs"
    using bytes(2) by (simp_all add: word_less_nat_alt take_bit_nat_eq_self unsigned_of_nat)
  have "copy_out (h, c) 0 (replicate 4 0) = take 4 bs" if "4 \<le> length bs"
    using copy_out_correct [OF _ inv, of 0 "replicate 4 0"] ok that bytes(1) by (simp add: chain_ok_def)
  then show ?thesis
    using decode_length_field [of 4 "take 4 bs" native order]
    by (simp add: lp_parse_def make_lp_framer_def cursor_size_def size word not_less Let_def)
qed

lemma test_cursor_copy_out_across_blocks_passes: "test_cursor_copy_out_across_blocks junk"
proof (rule test_cursor_correct [of 4 "map of_nat [0..<20]" junk])
  fix h c X
  assume t: "test_cursor junk 4 (map of_nat [0..<20]) = Some (h, c)" "chain_ok c" "heap_inv h (mset (ch_live c) + {#}) X"
    "chain_bytes h c = map of_nat [0..<20]" "ch_size c = length (map of_nat [0..<20] :: byte list)"
    "ch_count c = length (chunks 4 (map of_nat [0..<20]))"
  have n: "length (chunks 4 (map of_nat [0..<20])) = 5" by code_simp
  have "copy_out (h, c) 3 (replicate 7 0) = map of_nat [3..<10]"
    using copy_out_correct [OF _ t(3), of 3 "replicate 7 0"] t(2,4)
    by (simp add: chain_ok_def drop_map take_map)
  then show ?thesis using t(1,5,6) n by (simp add: test_cursor_copy_out_across_blocks_def cursor_size_def Let_def upt_rec)
qed simp_all

lemma test_cursor_try_contiguous_passes: "test_cursor_try_contiguous junk"
proof (rule test_cursor_correct [of 8 "map of_nat [0..<24]" junk])
  fix h c X
  assume t: "test_cursor junk 8 (map of_nat [0..<24]) = Some (h, c)" "chain_ok c" "heap_inv h (mset (ch_live c) + {#}) X"
    "map (ref_bytes h) (ch_live c) = chunks 8 (map of_nat [0..<24])"
  have "view_at (chunks 8 (map of_nat [0..<24])) 0 2 4 = Some [2, 3, 4, 5]"
    "view_at (chunks 8 (map of_nat [0..<24])) 0 6 4 = None"
    by code_simp+
  then have "try_contiguous (h, c) 2 4 = Some [2, 3, 4, 5]" "try_contiguous (h, c) 6 4 = None"
    using try_contiguous_view [OF t(2,3), of 4] by (simp_all add: t(4))
  then show ?thesis using t(1) by (simp add: test_cursor_try_contiguous_def try_contiguous_def)
qed simp_all

text \<open>The parses of the length-prefixed framer, by evaluating the byte-level function.\<close>

lemma field_of_record: "field_value big (take 4 (record_of len seed @ rest)) = ucast len"
proof -
  have mask: "(0xFF :: u32) = mask 8" by (simp add: mask_eq_exp_minus_1)
  have "(ucast (drop_bit k len AND 0xFF) :: byte) = ucast (drop_bit k (ucast len :: u64))" for k
    by (rule bit_word_eqI) (auto simp: bit_simps mask dest: bit_imp_le_length)
  from this [of 0] this have "take 4 (record_of len seed @ rest) = field_bytes big 4 (ucast len)"
    by (simp add: record_of_def field_bytes_def store_le_def upt_rec)
  moreover have "take_bit 32 (ucast len :: u64) = ucast len"
    by (rule bit_word_eqI) (auto simp: bit_simps dest: bit_imp_le_length)
  ultimately show ?thesis by (simp add: field_value_bytes)
qed

lemma test_lpf_parse_need_more_passes: "test_lpf_parse_need_more native junk"
proof -
  have wants: "case test_cursor junk 64 bytes of None \<Rightarrow> False
      | Some cur \<Rightarrow> (let r = lp_parse native default_lp_framer cur False in pr_action r = NeedMore \<and> pr_min_bytes_needed r = n)"
    if "(if length bytes < 4 then n = 4 else of_nat (length bytes) < 4 + field_value big (take 4 bytes) \<and> n = 4 + field_value big (take 4 bytes))"
      and "length bytes \<le> 1000" for bytes n
  proof (rule test_cursor_correct [of 64 bytes junk])
    fix h c X
    assume t: "test_cursor junk 64 bytes = Some (h, c)" "chain_ok c" "heap_inv h (mset (ch_live c) + {#}) X" "chain_bytes h c = bytes"
    have "length bytes < 2 ^ 64" using that(2) by simp
    from lp_parse_4 [OF t(2-4) this, of native big False] show ?thesis
      using that(1) by (simp add: t(1) default_lp_framer_def need_more_def Let_def split: if_splits)
  qed (use that(2) in simp_all)
  have "field_value big (take 4 (take (4 + 6) (record_of 10 100))) = 10" "length (take (4 + 6) (record_of 10 100)) = 10"
    using field_of_record [of 10 100 "[]"] by (simp_all add: record_of_def min_def)
  then show ?thesis unfolding test_lpf_parse_need_more_def Let_def by (intro conjI wants [unfolded Let_def]) simp_all
qed

lemma parse_record:
  assumes "chain_ok c" and "heap_inv h (mset (ch_live c) + {#}) X" and "chain_bytes h c = record_of len seed @ rest"
    and "length (record_of len seed @ rest) < 2 ^ 32"
  shows "lp_parse native default_lp_framer (h, c) eof = emit (ucast len) True 4"
proof -
  have l: "length (record_of len seed @ rest) = 4 + unat len + length rest" by (simp add: record_of_def)
  have "4 + ucast len = (of_nat (4 + unat len) :: u64)" by simp
  moreover have "unat (of_nat n :: u64) = n" if "n < 2 ^ 32" for n using that by (simp add: unsigned_of_nat take_bit_nat_eq_self)
  ultimately have "\<not> of_nat (4 + unat len + length rest) < (4 + ucast len :: u64)"
    using assms(4) unfolding word_less_nat_alt by (simp only: l)
  moreover have "length (record_of len seed @ rest) < 2 ^ 64" using assms(4) by simp
  ultimately show ?thesis
    using lp_parse_4 [OF assms(1-3), of native big eof] field_of_record [of len seed rest]
    by (simp add: default_lp_framer_def l del: length_append)
qed

lemma test_lpf_parse_emit_and_second_record_passes: "test_lpf_parse_emit_and_second_record native junk"
proof (rule test_cursor_correct [of 3 "record_of 10 0 @ record_of 5 200" junk])
  let ?n = "unat (14 :: size_t)" and ?m = "unat (9 :: size_t)"
  fix h c X
  assume t: "test_cursor junk 3 (record_of 10 0 @ record_of 5 200) = Some (h, c)" "chain_ok c"
    "heap_inv h (mset (ch_live c) + {#}) X" "chain_bytes h c = record_of 10 0 @ record_of 5 200"
  have len: "length (record_of k seed) = 4 + unat k" for k seed by (simp add: record_of_def)
  have a: "lp_parse native default_lp_framer (h, c) False = emit 10 True 4"
    using parse_record [OF t(2-4)] by (simp add: len)
  obtain h1 c1 where c1: "consume_front 14 (h, c) = Some (h1, c1)" "chain_ok c1" "heap_inv h1 (mset (ch_live c1) + {#}) X"
    "chain_bytes h1 c1 = drop 14 (record_of 10 0 @ record_of 5 200)"
    using consume_front_correct [OF t(2,3), of 14] consume_front_bytes [OF t(2,3), of 14] t(4) by metis
  have b1: "chain_bytes h1 c1 = record_of 5 200 @ []" using c1(4) by (simp add: len)
  have b: "lp_parse native default_lp_framer (h1, c1) False = emit 5 True 4"
    using parse_record [OF c1(2,3) b1] by (simp add: len)
  obtain h2 c2 where c2: "consume_front 9 (h1, c1) = Some (h2, c2)" "chain_ok c2" "heap_inv h2 (mset (ch_live c2) + {#}) X"
    "chain_bytes h2 c2 = []"
    using consume_front_correct [OF c1(2,3), of 9] consume_front_bytes [OF c1(2,3), of 9] b1 by (auto simp: len)
  have sizes: "ch_size c1 = 9" "ch_size c2 = 0"
    using chain_bytes_length [OF c1(2,3)] chain_bytes_length [OF c2(2,3)] b1 c2(4) by (simp_all add: len)
  have "pr_action (lp_parse native default_lp_framer (h2, c2) True) = NeedMore"
    using lp_parse_4 [OF c2(2-4), of native big True] by (simp add: default_lp_framer_def need_more_def)
  then show ?thesis
    using t(1) a b c1(1) c2(1) sizes
    by (simp add: test_lpf_parse_emit_and_second_record_def emit_def cursor_size_def len chain_empty_def Let_def)
qed (simp_all add: record_of_def)

lemma test_lpf_write_header_roundtrip_passes: "test_lpf_write_header_roundtrip native junk"
proof -
  have h: "lp_write_header native (make_lp_framer 4 big) 513 = [0x00, 0x00, 0x02, 0x01]"
    "lp_write_header native (make_lp_framer 4 little) 513 = [0x01, 0x02, 0x00, 0x00]"
    by (simp_all add: lp_write_header_def make_lp_framer_def encode_length_field field_bytes_def store_le_def upt_rec)
  show ?thesis
  proof (rule test_cursor_correct [of 64 "[0x01, 0x02, 0x00, 0x00] @ replicate 513 0" junk])
    fix h c X
    assume t: "test_cursor junk 64 ([0x01, 0x02, 0x00, 0x00] @ replicate 513 0) = Some (h, c)" "chain_ok c"
      "heap_inv h (mset (ch_live c) + {#}) X" "chain_bytes h c = [0x01, 0x02, 0x00, 0x00] @ replicate 513 0"
    have "lp_parse native (make_lp_framer 4 little) (h, c) False = emit 513 True 4"
      using lp_parse_4 [OF t(2-4), of native little False] by (simp add: field_value_def)
    then show ?thesis using t(1) h
      by (simp add: test_lpf_write_header_roundtrip_def emit_def Let_def)
  qed simp_all
qed

lemma test_passthrough_passes: "test_passthrough junk"
proof (rule test_cursor_correct [of 16 "map of_nat [0..<50]" junk])
  fix h c X
  assume "test_cursor junk 16 (map of_nat [0..<50]) = Some (h, c)" "ch_size c = length (map of_nat [0..<50] :: byte list)"
  then show ?thesis
    by (simp add: test_passthrough_def pass_framer_of_def pass_parse_def pass_write_header_def need_more_def emit_def cursor_size_def Let_def)
qed simp_all

text \<open>framer_test ends with exit code 0, on machines of either byte order and whatever fresh memory holds.\<close>

theorem framer_test_passes:
  "test_cursor_copy_out_across_blocks junk \<and> test_cursor_try_contiguous junk \<and> test_lpf_parse_need_more native junk \<and>
    test_lpf_parse_emit_and_second_record native junk \<and> test_lpf_write_header_roundtrip native junk \<and> test_passthrough junk"
  using test_cursor_copy_out_across_blocks_passes test_cursor_try_contiguous_passes test_lpf_parse_need_more_passes
    test_lpf_parse_emit_and_second_record_passes test_lpf_write_header_roundtrip_passes test_passthrough_passes
  by blast

end
