(* ===== verification/Spec2Isabelle.thy ===== *)
theory Spec2Isabelle
  imports Errors Blocks Chain Chain_Refine Framer Messages Mailbox Udp_Demux Growth Tcp Tcp_Receive Tcp_Stream Tcp_Life
    Properties Tls Udp_Conn Establish Listeners Udp_Server Connections Error_Events
    Tcp_Unframed Listening Secure_Accept Udp_Order Examples Buffer_Runs Framer_Tests
begin

text \<open>
  taps_cpp is a C++ library for the Transport Services (TAPS) interface of RFC 9621 to 9623: applications send
  and receive Messages over Connections without naming the transport protocol, which follows from the
  properties they ask for. This development models the library, its private substrate and its example
  programs, and proves what each part promises and what they achieve together.

  \<^bold>\<open>The program.\<close> \<open>TransportServices\<close> creates \<open>Preconnection\<close>s and \<open>Listener\<close>s. A \<open>Preconnection\<close> resolves its remote
  endpoints and becomes a TCP connection, tried address after address and secured with TLS if asked, or a UDP
  connection. A TCP listener accepts connections, securing each in a coroutine of its own if asked; a UDP
  listener has one socket whose receive loop, in \<open>UDPDemux\<close>, sorts datagrams by source into mailboxes, one for
  each accepted connection. Received bytes stay in reference-counted blocks from a pool with an optional cap;
  runs of handles on them are \<open>BlockChain\<close>s, and a \<open>Message\<close> is a view of the caller's memory, a buffer of its
  own or a chain. On a TCP connection a \<open>MessageFramer\<close> finds the messages in the stream.

  \<^bold>\<open>Theories, in the order of the code's layers.\<close>
  \<^item> \<open>Prelude\<close>: machine types, decimal rendering, windows of byte arrays, the rewrite collections.
  \<^item> \<open>Errors\<close>: \<open>TAPSError\<close>, its events and reasons, and how system errors become them (taps_api.h,
    transport/io_error.h, transport/byte_stream.cpp). A \<open>Result<T>\<close> is the sum \<open>TAPSError + 'a\<close>. The states of a
    connection are linearly ordered, as it goes through them.
  \<^item> \<open>Blocks\<close>: \<open>DataBlock\<close>, \<open>BlockRef\<close> and \<open>MessageBlockPool\<close> (buffer/block.h, buffer/message_block_pool.h and .cpp).
    The heap is a record: the blocks by address, the shared counters, and a ledger of what has been allocated
    and not given back. \<open>heap_inv h R X\<close> says that the handles are exactly the multiset \<open>R\<close>, every count is
    the number of handles, every window lies inside its block, and the ledger is that of the blocks plus \<open>X\<close>.
  \<^item> \<open>Chain\<close>, \<open>Chain_Refine\<close>: \<open>BlockChain\<close> on its array of slots, inline or allocated (buffer/block_chain.h and
    .cpp), and its refinement of a list of handles: what each operation does to the bytes, to the handles
    and to the ledger, also when an allocation is refused.
  \<^item> \<open>Framer\<close>: \<open>ReceiveCursor\<close> and the two framers (message_framer.h and .cpp). Sizes are 64-bit words, because
    they come from the peer. The locales \<open>deframer\<close> and \<open>stream_deframer\<close> are the contract of a framer.
  \<^item> \<open>Messages\<close>: \<open>Message\<close> in its three kinds, \<open>gather\<close>, and the iteration over a \<open>ConstBufferSequence\<close>
    (Message.cpp, transport/const_buffer_sequence.h).
  \<^item> \<open>Growth\<close>: what no operation takes back (addresses, and answers of the memory resource), and that nothing
    fails while the resource grants every request.
  \<^item> \<open>Properties\<close>, \<open>Tls\<close>: transport properties, security parameters and endpoints (TransportProperties.cpp,
    Endpoint.cpp, taps_api.h); the TLS configuration, handshakes and shutdown (security/, transport/plain_stream.h).
  \<^item> \<open>Tcp\<close>, \<open>Tcp_Receive\<close>, \<open>Tcp_Stream\<close>, \<open>Tcp_Unframed\<close>, \<open>Tcp_Life\<close>: \<open>TCPConnection\<close> (TCPConnection.cpp), each
    coroutine cut at its waits into the stretch before and the stretch after; the memory safety of receiving;
    a whole stream with and without a framer; the life cycle.
  \<^item> \<open>Buffer_Runs\<close>: a chain of the receive path used for a whole run next to a plain list of bytes, as
    tests/buffer_smoke.cpp does, for every sequence of operations.
  \<^item> \<open>Mailbox\<close>: the bounded ring with its waiting receivers (mailbox.h). The locale \<open>drop_oldest_queue\<close> is the
    contract of a queue that forgets the oldest, and equates its runs with those of a bounded list.
  \<^item> \<open>Udp_Demux\<close>: the table of sources, the idle sweep, eviction, shutdown and the accepted connections
    (udp_demux.h, UDPListener.cpp, UDPConnection.cpp), one definition for each handler of the strand. The state
    says where the two coroutines stand: before a read, waiting, or with an answer not yet taken. Closing the
    socket and cancelling the timer act on what is pending only, as in asio; the coroutines end by their own steps.
  \<^item> \<open>Udp_Conn\<close>: initiated UDP connections, the sending of accepted ones, and how the receive loop turns a
    datagram into a chain.
  \<^item> \<open>Udp_Server\<close>: the UDP server as one step relation, the loop, the table, the mailboxes, the application's
    calls and the messages it holds over the block heap.
  \<^item> \<open>Udp_Order\<close>: runs of the demultiplexer with their history, and the order in which datagrams are received.
  \<^item> \<open>Connections\<close>: the contract of the class \<open>Connection\<close> as the locales \<open>connection\<close>, \<open>receiving_connection\<close>
    and \<open>advancing_connection\<close>, interpreted for TCP, for initiated and for accepted UDP connections.
  \<^item> \<open>Establish\<close>: \<open>Preconnection\<close> (Preconnection.cpp), with a trace of what it does to the outside.
  \<^item> \<open>Listeners\<close>, \<open>Listening\<close>: TCP and UDP listeners, \<open>SecureAcceptor\<close> and \<open>TransportServices\<close> (TCPListener.cpp,
    secure_acceptor.h, UDPListener.cpp, TransportServices.cpp); the contract of the class \<open>Listener\<close> over sequences
    of calls, the locales \<open>listening_contract\<close> and \<open>single_listening\<close>.
  \<^item> \<open>Secure_Accept\<close>: a \<open>SecureAcceptor\<close> at work, its accept loop, its handshakes and its channel as a step relation,
    with the history of the handshakes that have completed.
  \<^item> \<open>Error_Events\<close>: which event the errors of each operation carry.
  \<^item> \<open>Examples\<close>: the four programs of examples/, composed of the definitions above; what the UDP server's second
    \<open>listen()\<close> leaves behind, after any run of the event loop between the two.
  \<^item> \<open>Framer_Tests\<close>: tests/framer_test.cpp, whose checks hold of the model.

  \<^bold>\<open>Outside.\<close> The socket, the resolver, OpenSSL, the clock, the environment variables and the memory resource are
  arguments. A read answers with bytes that fit its buffer or with an error; \<open>h_grants\<close> holds the answers that
  the memory resource still gives, and grants every request when it is empty; a stream's socket cuts the peer's
  bytes with an arbitrary function. Records of a coroutine's locals stand for its frame between two waits.

  \<^bold>\<open>What is shown.\<close> For the memory: handles, blocks and ledger agree after every operation, a delivered message never
  changes although the socket goes on writing into the same block, and nothing is lost on any error path that
  the theorems do not name. For the streams: what is framed and sent arrives, complete, in order and unchanged,
  however it is cut; without a framer the pieces are the stream. For the states: reachable states of
  connections, mailboxes, tables and servers, with the laws that hold in all of them, and what every
  operation answers in each. For security: nothing that was asked to be secured is delivered unsecured. For the
  composition: the server's memory is bounded under a flood, errors name their operation, the states
  of a connection only advance and abort is final for every class, listeners follow their calls, a UDP peer's
  datagrams keep their order, the example programs exchange their messages. Where the code
  does something else than it means to, a theorem exhibits a reachable run or a concrete input.

  \<^bold>\<open>Bounds.\<close> Reference counts are 32-bit words: theorems on sharing assume fewer than 2^32 handles, which the theorems
  on whole streams derive from the length of the stream. The receive loop of a TCP connection may wait for ever,
  so \<open>receive_run\<close> is a partial function whose value is proved to exist where a theorem says that a receive
  returns; \<open>receive_all\<close> takes as many receives as there are messages and one for the end. \<open>loop_turns n\<close> is \<open>n\<close>
  turns of the UDP loop, for every \<open>n\<close>. The limits of the table, its timeout and its sweep are what the
  environment variables say, by default 1024 sources, 30 s and 5 s; a mailbox holds 256 datagrams and the accept
  channel 100 connections. Seconds are signed 64-bit values, as in \<open>std::chrono\<close>; where they are converted to
  the clock's nanoseconds, numbers from 2^63 / 10^9 on overflow in the code and are exact in the model.

  \<^bold>\<open>Not modelled.\<close>
  \<^item> Executors, strands and coroutine frames belong to asio. What a strand serialises is a step of the models, and
    the steps may come in any order; the operations of one connection on several threads at once, which the
    library forbids, have no model, and the atomic counters are taken one operation at a time.
  \<^item> Failing allocations other than those from the message memory resource (\<open>std::bad_alloc\<close> of the global heap,
    of strings and of the table of sources); inside the table's handler only the mailbox's growth may throw.
  \<^item> The inside of asio's channels: a channel is a bounded list. A send that waits when its channel closes may be
    dropped or wait on; the models allow both.
  \<^item> Copying a \<open>Message\<close>, which shares its chain: the library only moves them.
  \<^item> A pool destroyed while blocks with its counter are alive: the counter is then freed later, by the last block.
  \<^item> A second set of UDP coroutines: when a stopped listener starts again, the coroutines of its first start are
    taken to be over.
  \<^item> Failures of \<open>SSL_CTX_set_min_proto_version\<close> and its companion, which the code ignores.
  \<^item> The text of addresses and of system errors, and what the examples print.
  \<^item> The other tests, which run the library over real sockets or on fixed data.
\<close>

end
